(* ===== verification/Prelude.thy ===== *)
theory Prelude
  imports Main "HOL-Library.Word"
begin

text \<open>
  Shared vocabulary of the development: the errors a C++ statement can end in, the error
  monad in which fallible operations are written, \<^verbatim>\<open>size_t\<close> arithmetic with its
  wrap-around, and the list facts about copying inside a vector that the components use.
\<close>

named_theorems wf_intros \<open>operations preserve the well-formedness of their component\<close>
named_theorems size_t_simps \<open>size_t arithmetic is exact when no wrap-around occurs\<close>

section \<open>Errors and the error monad\<close>

text \<open>
  \<^item> \<open>OutOfBounds\<close>: a read or write outside the storage it was meant for;
  \<^item> \<open>NullDeref\<close>: a null pointer is followed;
  \<^item> \<open>AssertFailed\<close>: an \<^verbatim>\<open>assert\<close> fails (the build type is Debug, so they are active);
  \<^item> \<open>LengthError\<close>: \<^verbatim>\<open>std::length_error\<close> of a vector that is asked to grow too far;
  \<^item> \<open>BadAlloc\<close>: \<^verbatim>\<open>std::bad_alloc\<close>;
  \<^item> \<open>BadFunctionCall\<close>: an empty \<^verbatim>\<open>std::function\<close> is called;
  \<^item> \<open>FatalExit\<close>: \<^verbatim>\<open>LOG_FAT\<close>, which ends in \<^verbatim>\<open>exit(-1)\<close>;
  \<^item> \<open>NoReturn\<close>: control flows off the end of a function that returns a value;
  \<^item> \<open>SignedOverflow\<close>: a signed integer leaves its range;
  \<^item> \<open>Diverges\<close>: a loop or recursion has used up the number of rounds it is given in the model.
\<close>

datatype cpp_error =
    OutOfBounds
  | NullDeref
  | AssertFailed
  | LengthError
  | BadAlloc
  | BadFunctionCall
  | FatalExit
  | NoReturn
  | SignedOverflow
  | Diverges

type_synonym 'a result = "cpp_error + 'a"

definition bindR :: "'a result \<Rightarrow> ('a \<Rightarrow> 'b result) \<Rightarrow> 'b result" where
  "bindR m f = (case m of Inl e \<Rightarrow> Inl e | Inr x \<Rightarrow> f x)"

definition assertR :: "bool \<Rightarrow> unit result" where
  "assertR P = (if P then Inr () else Inl AssertFailed)"

lemma bindR_simps [simp]:
  "bindR (Inl e) f = Inl e"
  "bindR (Inr x) f = f x"
  by (simp_all add: bindR_def)

lemma assertR_simps [simp]:
  "assertR True = Inr ()"
  "assertR False = Inl AssertFailed"
  by (simp_all add: assertR_def)

lemma bindR_eq_Inr: "bindR m f = Inr y \<longleftrightarrow> (\<exists>x. m = Inr x \<and> f x = Inr y)"
  by (cases m) auto

lemma bindR_eq_Inl:
  "bindR m f = Inl e \<longleftrightarrow> m = Inl e \<or> (\<exists>x. m = Inr x \<and> f x = Inl e)"
  by (cases m) auto

lemma assertR_eq_Inr [simp]: "assertR P = Inr u \<longleftrightarrow> P"
  by (cases P) simp_all

text \<open>A loop over a list whose body can fail.\<close>

fun foldR :: "('a \<Rightarrow> 's \<Rightarrow> 's result) \<Rightarrow> 'a list \<Rightarrow> 's \<Rightarrow> 's result" where
  "foldR f [] s = Inr s"
| "foldR f (x # xs) s = bindR (f x s) (foldR f xs)"

lemma foldR_append: "foldR f (xs @ ys) s = bindR (foldR f xs s) (foldR f ys)"
proof (induction xs arbitrary: s)
  case Nil
  then show ?case by simp
next
  case (Cons x xs)
  then show ?case by (cases "f x s") simp_all
qed

section \<open>Unsigned 64-bit sizes\<close>

text \<open>
  A \<^verbatim>\<open>size_t\<close> is a natural number below \<open>2 ^ 64\<close>; sums and differences wrap around,
  as the language defines for unsigned arithmetic.
\<close>

type_synonym size_t = nat

definition size_mod :: nat where
  "size_mod = 2 ^ 64"

definition szadd :: "size_t \<Rightarrow> size_t \<Rightarrow> size_t" where
  "szadd a b = (a + b) mod size_mod"

definition szsub :: "size_t \<Rightarrow> size_t \<Rightarrow> size_t" where
  "szsub a b = (a + (size_mod - b mod size_mod)) mod size_mod"

lemma szadd_exact [size_t_simps]: "a + b < size_mod \<Longrightarrow> szadd a b = a + b"
  by (simp add: szadd_def)

lemma szsub_exact [size_t_simps]:
  assumes "b \<le> a" "a < size_mod"
  shows "szsub a b = a - b"
proof -
  have "a + (size_mod - b mod size_mod) = (a - b) + size_mod"
    using assms by simp
  then have "szsub a b = ((a - b) + size_mod) mod size_mod"
    by (simp only: szsub_def)
  then show ?thesis using assms by (simp del: Nat.add_diff_assoc2)
qed

lemma szsub_wraps:
  assumes "a < b" "b < size_mod"
  shows "szsub a b = size_mod - (b - a)"
  using assms by (simp add: szsub_def)

section \<open>Copying inside a vector\<close>

text \<open>
  \<open>blit xs i ys\<close> is the vector \<open>xs\<close> with the bytes \<open>ys\<close> stored from index \<open>i\<close>
  on. \<open>copy_fwd xs s d n\<close> is \<^verbatim>\<open>std::copy\<close> inside one vector: element by element, from
  the lowest index up.
\<close>

definition blit :: "'a list \<Rightarrow> nat \<Rightarrow> 'a list \<Rightarrow> 'a list" where
  "blit xs i ys = take i xs @ ys @ drop (i + length ys) xs"

fun copy_fwd :: "'a list \<Rightarrow> nat \<Rightarrow> nat \<Rightarrow> nat \<Rightarrow> 'a list" where
  "copy_fwd xs s d 0 = xs"
| "copy_fwd xs s d (Suc n) = copy_fwd (xs[d := xs ! s]) (Suc s) (Suc d) n"

lemma length_blit [simp]: "i + length ys \<le> length xs \<Longrightarrow> length (blit xs i ys) = length xs"
  by (simp add: blit_def)

lemma take_blit [simp]: "i \<le> length xs \<Longrightarrow> take i (blit xs i ys) = take i xs"
  by (simp add: blit_def)

lemma drop_blit [simp]:
  "i \<le> length xs \<Longrightarrow> drop i (blit xs i ys) = ys @ drop (i + length ys) xs"
  by (simp add: blit_def)

lemma length_copy_fwd [simp]: "length (copy_fwd xs s d n) = length xs"
  by (induction xs s d n rule: copy_fwd.induct) auto

lemma copy_fwd_nth:
  assumes "d \<le> s" "s + n \<le> length xs" "i < length xs"
  shows "copy_fwd xs s d n ! i = (if d \<le> i \<and> i < d + n then xs ! (s + (i - d)) else xs ! i)"
  using assms
proof (induction n arbitrary: xs s d)
  case 0
  then show ?case by auto
next
  case (Suc n)
  have "copy_fwd (xs[d := xs ! s]) (Suc s) (Suc d) n ! i =
      (if Suc d \<le> i \<and> i < Suc d + n
       then (xs[d := xs ! s]) ! (Suc s + (i - Suc d)) else (xs[d := xs ! s]) ! i)"
    using Suc.prems by (intro Suc.IH) simp_all
  moreover have "Suc (s + i - Suc d) = s + i - d" if "Suc d \<le> i"
    using that by arith
  ultimately show ?case
    using Suc.prems by (auto simp: nth_list_update)
qed

text \<open>Copying towards the front moves the block as a whole, overlapping or not.\<close>

lemma copy_fwd_blit:
  assumes "d \<le> s" "s + n \<le> length xs"
  shows "copy_fwd xs s d n = blit xs d (take n (drop s xs))"
proof (rule nth_equalityI)
  have len: "length (take n (drop s xs)) = n"
    using assms by simp
  show "length (copy_fwd xs s d n) = length (blit xs d (take n (drop s xs)))"
    using assms len by simp
  fix i assume "i < length (copy_fwd xs s d n)"
  then have i: "i < length xs" by simp
  show "copy_fwd xs s d n ! i = blit xs d (take n (drop s xs)) ! i"
    using assms i len by (auto simp: copy_fwd_nth blit_def nth_append)
qed

text \<open>The window \<open>[i, j)\<close> of a vector.\<close>

definition window :: "'a list \<Rightarrow> nat \<Rightarrow> nat \<Rightarrow> 'a list" where
  "window xs i j = take (j - i) (drop i xs)"

lemma length_window [simp]: "j \<le> length xs \<Longrightarrow> length (window xs i j) = j - i"
  by (simp add: window_def)

lemma window_same [simp]: "window xs i i = []"
  by (simp add: window_def)

lemma window_advance: "i \<le> k \<Longrightarrow> k \<le> j \<Longrightarrow> window xs k j = drop (k - i) (window xs i j)"
  by (simp add: window_def drop_take)

lemma window_blit_end:
  assumes "i \<le> j" "j + length ys \<le> length xs"
  shows "window (blit xs j ys) i (j + length ys) = window xs i j @ ys"
proof -
  have "take (j + length ys - i) (drop i (take j xs) @ ys @ drop (j + length ys) xs) =
      drop i (take j xs) @ ys"
    using assms by simp
  then show ?thesis
    using assms by (simp add: window_def blit_def drop_take)
qed

lemma window_blit_start:
  assumes "d + length ys \<le> length xs"
  shows "window (blit xs d ys) d (d + length ys) = ys"
  using assms by (simp add: window_def)

lemma window_append [simp]: "j \<le> length xs \<Longrightarrow> window (xs @ ys) i j = window xs i j"
  by (simp add: window_def)

end
