(* ===== verification/TimerQueue.thy ===== *)
theory TimerQueue
  imports Prelude Complex_Main "HOL-Library.Product_Lexorder"
begin

text \<open>
  Time stamps (\<^verbatim>\<open>src/base/Timestamp.h\<close>, \<^verbatim>\<open>Timestamp.cc\<close>), timers (\<^verbatim>\<open>src/timer/Timer.h\<close>,
  \<^verbatim>\<open>Timer.cc\<close>) and the timer queue of an event loop (\<^verbatim>\<open>src/timer/TimerQueue.cc\<close>). A timer
  is an object on a small heap, named by its pointer; the queue is the ordered set of
  (expiration, pointer) pairs. What the clock returns is a parameter. Callbacks are opaque:
  running one appends its number to a log. Floating-point seconds are rationals.
\<close>

section \<open>Time stamps\<close>

type_synonym timestamp = int

definition kMicroSecondsPerSecond :: int where
  "kMicroSecondsPerSecond = 1000 * 1000"

text \<open>\<^verbatim>\<open>Timestamp::now()\<close> wraps \<^verbatim>\<open>time(NULL)\<close>, the number of \<^emph>\<open>seconds\<close> since the epoch.\<close>

definition Timestamp_now :: "int \<Rightarrow> timestamp" where
  "Timestamp_now time_NULL = time_NULL"

text \<open>\<^verbatim>\<open>static_cast<int64_t>\<close> truncates towards zero.\<close>

definition trunc_to_int :: "rat \<Rightarrow> int" where
  "trunc_to_int x = (if 0 \<le> x then \<lfloor>x\<rfloor> else \<lceil>x\<rceil>)"

lemma trunc_to_int_of_int [simp]: "trunc_to_int (of_int k) = k"
  by (simp add: trunc_to_int_def)

definition addTime :: "timestamp \<Rightarrow> rat \<Rightarrow> timestamp" where
  "addTime ts seconds = ts + trunc_to_int (seconds * of_int kMicroSecondsPerSecond)"

section \<open>Timers\<close>

record timer =
  timerCallback :: nat
  expiration :: timestamp
  interval :: rat
  repeat :: bool

definition Timer_new :: "nat \<Rightarrow> timestamp \<Rightarrow> rat \<Rightarrow> timer" where
  "Timer_new cb when ivl =
     \<lparr>timerCallback = cb, expiration = when, interval = ivl, repeat = (ivl > 0)\<rparr>"

definition restart :: "timestamp \<Rightarrow> timer \<Rightarrow> timer" where
  "restart now t =
     (if repeat t then t\<lparr>expiration := addTime now (interval t)\<rparr> else t\<lparr>expiration := 0\<rparr>)"

section \<open>The queue\<close>

type_synonym timer_ptr = nat
type_synonym entry = "timestamp \<times> timer_ptr"

text \<open>
  \<open>timers\<close> is \<^verbatim>\<open>std::set<std::pair<Timestamp, Timer*>>\<close>: strictly ascending. \<open>armed\<close> is what
  the timer descriptor is set to, seconds and nanoseconds; it expires once.
\<close>

record timer_queue =
  objs :: "timer_ptr \<Rightarrow> timer option"
  timers :: "entry list"
  armed :: "(int \<times> int) option"
  callingExpiredTimers :: bool
  ran :: "nat list"

definition TimerQueue_init :: timer_queue where
  "TimerQueue_init =
     \<lparr>objs = (\<lambda>_. None), timers = [], armed = None, callingExpiredTimers = False, ran = []\<rparr>"

definition deref :: "timer_ptr \<Rightarrow> timer_queue \<Rightarrow> timer result" where
  "deref p q = (case objs q p of None \<Rightarrow> Inl NullDeref | Some t \<Rightarrow> Inr t)"

text \<open>
  \<^verbatim>\<open>resetTimerfd\<close>: at least 100 \<open>\<mu>\<close>s ahead. The difference is positive there, so \<^verbatim>\<open>/\<close> and
  \<^verbatim>\<open>%\<close> are \<open>div\<close> and \<open>mod\<close>.
\<close>

definition resetTimerfd :: "int \<Rightarrow> timestamp \<Rightarrow> timer_queue \<Rightarrow> timer_queue" where
  "resetTimerfd time_NULL when q =
     (let dif = when - Timestamp_now time_NULL;
          dif = (if dif < 100 then 100 else dif)
      in q\<lparr>armed := Some (dif div kMicroSecondsPerSecond,
                          dif mod kMicroSecondsPerSecond * 1000)\<rparr>)"

text \<open>\<open>set_insert\<close> is the insertion of \<^verbatim>\<open>std::set\<close>: in order, and without effect if present.\<close>

definition set_insert :: "entry \<Rightarrow> entry list \<Rightarrow> entry list" where
  "set_insert e es = (if e \<in> set es then es else insort e es)"

definition insert_timer :: "timer_ptr \<Rightarrow> timer_queue \<Rightarrow> (bool \<times> timer_queue) result" where
  "insert_timer p q =
     bindR (deref p q) (\<lambda>t.
       let when = expiration t;
           earliestChanged = (case timers q of [] \<Rightarrow> True | e # _ \<Rightarrow> when < fst e)
       in Inr (earliestChanged, q\<lparr>timers := set_insert (when, p) (timers q)\<rparr>))"

definition addTimerInLoop :: "int \<Rightarrow> timer_ptr \<Rightarrow> timer_queue \<Rightarrow> timer_queue result" where
  "addTimerInLoop time_NULL p q =
     bindR (insert_timer p q) (\<lambda>(earliestChanged, q1).
       if earliestChanged
       then bindR (deref p q1) (\<lambda>t. Inr (resetTimerfd time_NULL (expiration t) q1))
       else Inr q1)"

text \<open>
  \<^verbatim>\<open>addTimer\<close> in the loop's own thread: allocate the timer at the address \<open>p\<close> that
  \<^verbatim>\<open>new\<close> returns, then insert it.
\<close>

definition addTimer ::
    "int \<Rightarrow> timer_ptr \<Rightarrow> nat \<Rightarrow> timestamp \<Rightarrow> rat \<Rightarrow> timer_queue \<Rightarrow> timer_queue result" where
  "addTimer time_NULL p cb when ivl q =
     addTimerInLoop time_NULL p (q\<lparr>objs := (objs q)(p \<mapsto> Timer_new cb when ivl)\<rparr>)"

definition runAt ::
    "int \<Rightarrow> timer_ptr \<Rightarrow> timestamp \<Rightarrow> nat \<Rightarrow> timer_queue \<Rightarrow> timer_queue result" where
  "runAt time_NULL p ts cb q = addTimer time_NULL p cb ts 0 q"

definition runAfter ::
    "int \<Rightarrow> timer_ptr \<Rightarrow> rat \<Rightarrow> nat \<Rightarrow> timer_queue \<Rightarrow> timer_queue result" where
  "runAfter time_NULL p waitTime cb q =
     runAt time_NULL p (addTime (Timestamp_now time_NULL) waitTime) cb q"

definition runEvery ::
    "int \<Rightarrow> timer_ptr \<Rightarrow> rat \<Rightarrow> nat \<Rightarrow> timer_queue \<Rightarrow> timer_queue result" where
  "runEvery time_NULL p ivl cb q =
     addTimer time_NULL p cb (addTime (Timestamp_now time_NULL) ivl) ivl q"

text \<open>
  \<^verbatim>\<open>getExpired\<close>: the sentry is \<open>(now, UINTPTR_MAX)\<close>; everything before \<^verbatim>\<open>lower_bound(sentry)\<close>
  is taken out.
\<close>

definition UINTPTR_MAX :: nat where
  "UINTPTR_MAX = 2 ^ 64 - 1"

definition getExpired :: "timestamp \<Rightarrow> timer_queue \<Rightarrow> entry list \<times> timer_queue" where
  "getExpired now q =
     (let sentry = (now, UINTPTR_MAX)
      in (takeWhile (\<lambda>e. e < sentry) (timers q),
          q\<lparr>timers := dropWhile (\<lambda>e. e < sentry) (timers q)\<rparr>))"

definition run_entry :: "entry \<Rightarrow> timer_queue \<Rightarrow> timer_queue result" where
  "run_entry e q = bindR (deref (snd e) q) (\<lambda>t. Inr (q\<lparr>ran := ran q @ [timerCallback t]\<rparr>))"

text \<open>
  One round of the loop in \<^verbatim>\<open>reset\<close>. The clock is read at most twice in it, \<open>t1\<close> for the
  restart and \<open>t2\<close> for the descriptor.
\<close>

definition reset_entry :: "int \<times> int \<Rightarrow> entry \<Rightarrow> timer_queue \<Rightarrow> timer_queue result" where
  "reset_entry clk e q =
     (case clk of (t1, t2) \<Rightarrow>
      bindR (deref (snd e) q) (\<lambda>t.
      bindR (if repeat t
             then bindR (insert_timer (snd e)
                           (q\<lparr>objs := (objs q)(snd e \<mapsto> restart (Timestamp_now t1) t)\<rparr>))
                    (\<lambda>(_, q1). Inr q1)
             else Inr (q\<lparr>objs := (objs q)(snd e := None)\<rparr>)) (\<lambda>q1.
      case timers q1 of
        [] \<Rightarrow> Inr q1
      | e1 # _ \<Rightarrow> bindR (deref (snd e1) q1) (\<lambda>t'. Inr (resetTimerfd t2 (expiration t') q1)))))"

definition reset_timers :: "(nat \<Rightarrow> int \<times> int) \<Rightarrow> entry list \<Rightarrow> timer_queue \<Rightarrow> timer_queue result"
  where
  "reset_timers clock expired q =
     foldR (\<lambda>(i, e). reset_entry (clock i) e) (enumerate 0 expired) q"

text \<open>
  \<^verbatim>\<open>handleRead\<close> runs when the descriptor has expired, so it is no longer armed. \<open>time_NULL\<close> is
  the first reading of the clock, \<open>clock\<close> the readings in \<^verbatim>\<open>reset\<close>.
\<close>

definition handleRead :: "int \<Rightarrow> (nat \<Rightarrow> int \<times> int) \<Rightarrow> timer_queue \<Rightarrow> timer_queue result" where
  "handleRead time_NULL clock q =
     (let now = Timestamp_now time_NULL;
          (expired, q1) = getExpired now (q\<lparr>armed := None\<rparr>)
      in bindR (foldR run_entry expired (q1\<lparr>callingExpiredTimers := True\<rparr>)) (\<lambda>q2.
         reset_timers clock expired (q2\<lparr>callingExpiredTimers := False\<rparr>)))"


section \<open>The ordered set\<close>

lemma set_set_insert [simp]: "set (set_insert e es) = insert e (set es)"
  by (auto simp: set_insert_def set_insort_key)

lemma sorted_set_insert: "sorted_wrt (<) es \<Longrightarrow> sorted_wrt (<) (set_insert e es)"
  by (auto simp: set_insert_def strict_sorted_iff sorted_insort distinct_insort)

lemma entry_before_sentry:
  "p < UINTPTR_MAX \<Longrightarrow> (w, p) < (now, UINTPTR_MAX) \<longleftrightarrow> w \<le> (now :: int)"
  by (auto simp: less_prod_def)

text \<open>
  Well-formed queues: ascending, and every entry names a live timer with that expiration.
\<close>

definition wf_tq :: "timer_queue \<Rightarrow> bool" where
  "wf_tq q \<longleftrightarrow> sorted_wrt (<) (timers q) \<and>
     (\<forall>(w, p) \<in> set (timers q). p < UINTPTR_MAX \<and> (\<exists>t. objs q p = Some t \<and> expiration t = w))"

lemma wf_TimerQueue_init [wf_intros]: "wf_tq TimerQueue_init"
  by (simp add: wf_tq_def TimerQueue_init_def)

lemma wf_tqD: "wf_tq q \<Longrightarrow> (w, p) \<in> set (timers q) \<Longrightarrow>
    p < UINTPTR_MAX \<and> (\<exists>t. objs q p = Some t \<and> expiration t = w)"
  by (auto simp: wf_tq_def)

lemma wf_tq_cong:
  "wf_tq q \<Longrightarrow> objs q' = objs q \<Longrightarrow> timers q' = timers q \<Longrightarrow> wf_tq q'"
  by (simp add: wf_tq_def)

lemma resetTimerfd_simps [simp]:
  "objs (resetTimerfd n w q) = objs q" "timers (resetTimerfd n w q) = timers q"
  "ran (resetTimerfd n w q) = ran q" "\<exists>a b. armed (resetTimerfd n w q) = Some (a, b)"
  by (simp_all add: resetTimerfd_def Let_def)

text \<open>Entries of one queue have different pointers.\<close>

lemma wf_tq_distinct_ptrs:
  assumes "wf_tq q"
  shows "inj_on snd (set (timers q))"
proof (rule inj_onI)
  fix e e' assume "e \<in> set (timers q)" "e' \<in> set (timers q)" "snd e = snd e'"
  then show "e = e'"
    using wf_tqD [OF assms, of "fst e" "snd e"] wf_tqD [OF assms, of "fst e'" "snd e'"]
    by (cases e; cases e') auto
qed

text \<open>Putting a timer that is not queued into the queue.\<close>

lemma insert_timer_ok:
  assumes "wf_tq q" "objs q p = Some t" "p < UINTPTR_MAX"
  shows "\<exists>b q'. insert_timer p q = Inr (b, q') \<and> wf_tq q' \<and> objs q' = objs q \<and> ran q' = ran q \<and>
     armed q' = armed q \<and> set (timers q') = insert (expiration t, p) (set (timers q)) \<and>
     (b \<longleftrightarrow> (\<forall>e \<in> set (timers q). expiration t < fst e))"
proof -
  have sorted: "sorted_wrt (<) (timers q)" using assms(1) by (simp add: wf_tq_def)
  have "(case timers q of [] \<Rightarrow> True | e # _ \<Rightarrow> expiration t < fst e) \<longleftrightarrow>
      (\<forall>e \<in> set (timers q). expiration t < fst e)"
  proof (cases "timers q")
    case (Cons e es)
    then have "\<forall>e' \<in> set es. fst e \<le> fst e'"
      using sorted by (auto simp: less_prod_def)
    with Cons show ?thesis by auto
  qed simp
  then show ?thesis
    using assms sorted_set_insert [OF sorted]
    by (auto simp: insert_timer_def deref_def Let_def wf_tq_def)
qed

section \<open>Expiry\<close>

text \<open>\<^verbatim>\<open>getExpired\<close> splits the queue at \<open>now\<close>.\<close>

lemma getExpired_spec:
  assumes "wf_tq q"
  shows "getExpired now q =
    (filter (\<lambda>e. fst e \<le> now) (timers q),
     q\<lparr>timers := filter (\<lambda>e. \<not> fst e \<le> now) (timers q)\<rparr>)"
proof -
  have lt: "e < (now, UINTPTR_MAX) \<longleftrightarrow> fst e \<le> now" if "e \<in> set (timers q)" for e
    using wf_tqD [OF assms, of "fst e" "snd e"] that entry_before_sentry [of "snd e" "fst e" now]
    by (cases e) auto
  have "sorted_wrt (<) (timers q)" using assms by (simp add: wf_tq_def)
  then have "takeWhile (\<lambda>e. e < (now, UINTPTR_MAX)) (timers q) = filter (\<lambda>e. fst e \<le> now) (timers q) \<and>
      dropWhile (\<lambda>e. e < (now, UINTPTR_MAX)) (timers q) = filter (\<lambda>e. \<not> fst e \<le> now) (timers q)"
    using lt
  proof (induction "timers q" arbitrary: q)
    case (Cons e es)
    have IH: "takeWhile (\<lambda>e. e < (now, UINTPTR_MAX)) es = filter (\<lambda>e. fst e \<le> now) es \<and>
        dropWhile (\<lambda>e. e < (now, UINTPTR_MAX)) es = filter (\<lambda>e. \<not> fst e \<le> now) es"
      using Cons.hyps(1) [of "q\<lparr>timers := es\<rparr>"] Cons.prems Cons.hyps(2) [symmetric] by simp
    have later: "\<forall>e' \<in> set es. fst e \<le> fst e'"
      using Cons.prems(1) Cons.hyps(2) [symmetric] by (auto simp: less_prod_def)
    then have "filter (\<lambda>e. fst e \<le> now) es = []" "filter (\<lambda>e. \<not> fst e \<le> now) es = es"
      if "\<not> fst e \<le> now"
      using that by (auto simp: filter_empty_conv filter_id_conv)
    with IH Cons.prems(2) [of e] Cons.hyps(2) [symmetric] show ?case by auto
  qed simp
  then show ?thesis by (simp add: getExpired_def Let_def)
qed

lemma wf_getExpired:
  assumes "wf_tq q"
  shows "wf_tq (q\<lparr>timers := filter P (timers q)\<rparr>)"
  using assms by (auto simp: wf_tq_def sorted_wrt_filter)

lemma run_entries:
  assumes "\<forall>e \<in> set es. objs q (snd e) \<noteq> None"
  shows "foldR run_entry es q =
    Inr (q\<lparr>ran := ran q @ map (\<lambda>e. timerCallback (the (objs q (snd e)))) es\<rparr>)"
  using assms
proof (induction es arbitrary: q)
  case (Cons e es)
  then obtain t where "objs q (snd e) = Some t" by auto
  with Cons show ?case by (simp add: run_entry_def deref_def)
qed simp


lemma wf_tq_update_unqueued:
  assumes "wf_tq q" "p \<notin> snd ` set (timers q)"
  shows "wf_tq (q\<lparr>objs := (objs q)(p := x)\<rparr>)"
  using assms by (force simp: wf_tq_def)

text \<open>After any round that leaves the queue non-empty the descriptor is armed again.\<close>

lemma rearm:
  assumes "wf_tq q"
  shows "\<exists>q'. (case timers q of [] \<Rightarrow> Inr q
      | e # _ \<Rightarrow> bindR (deref (snd e) q) (\<lambda>t. Inr (resetTimerfd n (expiration t) q))) = Inr q' \<and>
    objs q' = objs q \<and> timers q' = timers q \<and> ran q' = ran q \<and>
    (timers q \<noteq> [] \<longrightarrow> armed q' \<noteq> None)"
proof (cases "timers q")
  case (Cons e es)
  then obtain t where "objs q (snd e) = Some t"
    using wf_tqD [OF assms, of "fst e" "snd e"] by auto
  with Cons show ?thesis by (simp add: deref_def)
qed simp

lemma reset_entry_ok:
  assumes "wf_tq q" "objs q p = Some t" "p < UINTPTR_MAX" "p \<notin> snd ` set (timers q)"
  shows "\<exists>q'. reset_entry (t1, t2) (w, p) q = Inr q' \<and> wf_tq q' \<and> ran q' = ran q \<and>
    objs q' = (objs q)(p := if repeat t then Some (restart t1 t) else None) \<and>
    set (timers q') = (if repeat t then insert (addTime t1 (interval t), p) (set (timers q))
                       else set (timers q)) \<and>
    (timers q' \<noteq> [] \<longrightarrow> armed q' \<noteq> None)"
proof (cases "repeat t")
  case True
  let ?q = "q\<lparr>objs := (objs q)(p \<mapsto> restart t1 t)\<rparr>"
  have "wf_tq ?q" using assms by (simp add: wf_tq_update_unqueued)
  then obtain b q1 where q1: "insert_timer p ?q = Inr (b, q1)" "wf_tq q1" "objs q1 = objs ?q"
      "ran q1 = ran q" "set (timers q1) = insert (expiration (restart t1 t), p) (set (timers q))"
    using insert_timer_ok [of ?q p "restart t1 t"] assms(3) by auto
  obtain q' where "(case timers q1 of [] \<Rightarrow> Inr q1
      | e # _ \<Rightarrow> bindR (deref (snd e) q1) (\<lambda>t. Inr (resetTimerfd t2 (expiration t) q1))) = Inr q'"
      "objs q' = objs q1" "timers q' = timers q1" "ran q' = ran q1" "timers q1 \<noteq> [] \<longrightarrow> armed q' \<noteq> None"
    using rearm [OF q1(2)] by metis
  with q1 True assms show ?thesis
    by (auto simp: reset_entry_def deref_def Timestamp_now_def restart_def
        intro: wf_tq_cong [OF q1(2)])
next
  case False
  let ?q = "q\<lparr>objs := (objs q)(p := None)\<rparr>"
  have wf: "wf_tq ?q" using assms by (simp add: wf_tq_update_unqueued)
  obtain q' where "(case timers ?q of [] \<Rightarrow> Inr ?q
      | e # _ \<Rightarrow> bindR (deref (snd e) ?q) (\<lambda>t. Inr (resetTimerfd t2 (expiration t) ?q))) = Inr q'"
      "objs q' = objs ?q" "timers q' = timers ?q" "ran q' = ran ?q"
      "timers ?q \<noteq> [] \<longrightarrow> armed q' \<noteq> None"
    using rearm [OF wf] by metis
  with False assms wf show ?thesis
    by (auto simp: reset_entry_def deref_def intro: wf_tq_cong [OF wf])
qed

text \<open>What the loop of \<^verbatim>\<open>reset\<close> puts back: every repeating timer at its new expiration.\<close>

definition requeued :: "(nat \<Rightarrow> int \<times> int) \<Rightarrow> (timer_ptr \<Rightarrow> timer option) \<Rightarrow> nat \<Rightarrow> entry list \<Rightarrow> entry set"
  where
  "requeued clock ob k es =
     {(addTime (fst (clock i)) (interval t), p) | i w p t.
        (i, (w, p)) \<in> set (enumerate k es) \<and> ob p = Some t \<and> repeat t}"

lemma requeued_Nil [simp]: "requeued clock ob k [] = {}"
  by (simp add: requeued_def)

lemma requeued_Cons:
  "ob p = Some t \<Longrightarrow> requeued clock ob k ((w, p) # es) =
     (if repeat t then {(addTime (fst (clock k)) (interval t), p)} else {}) \<union>
     requeued clock ob (Suc k) es"
  by (auto simp: requeued_def)

lemma requeued_cong:
  "(\<And>e. e \<in> set es \<Longrightarrow> ob' (snd e) = ob (snd e)) \<Longrightarrow>
   requeued clock ob' k es = requeued clock ob k es"
  unfolding requeued_def enumerate_eq_zip by (metis (no_types, lifting) set_zip_rightD snd_conv)

lemma reset_loop_ok:
  assumes "wf_tq q" "distinct (map snd es)" "snd ` set es \<inter> snd ` set (timers q) = {}"
    and "\<forall>e \<in> set es. objs q (snd e) \<noteq> None \<and> snd e < UINTPTR_MAX"
  shows "\<exists>q'. foldR (\<lambda>(i, e). reset_entry (clock i) e) (enumerate k es) q = Inr q' \<and> wf_tq q' \<and>
    ran q' = ran q \<and> set (timers q') = set (timers q) \<union> requeued clock (objs q) k es \<and>
    (es \<noteq> [] \<and> timers q' \<noteq> [] \<longrightarrow> armed q' \<noteq> None) \<and> (es = [] \<longrightarrow> q' = q)"
  using assms
proof (induction es arbitrary: q k)
  case (Cons e es)
  obtain w p where e: "e = (w, p)" by (cases e)
  obtain t where t: "objs q p = Some t" using Cons.prems(4) by (auto simp: e)
  obtain q1 where q1: "reset_entry (clock k) e q = Inr q1" "wf_tq q1" "ran q1 = ran q"
      "objs q1 = (objs q)(p := if repeat t then Some (restart (fst (clock k)) t) else None)"
      "set (timers q1) = (if repeat t
         then insert (addTime (fst (clock k)) (interval t), p) (set (timers q))
         else set (timers q))" "timers q1 \<noteq> [] \<longrightarrow> armed q1 \<noteq> None"
    using reset_entry_ok [OF Cons.prems(1) t, of "fst (clock k)" "snd (clock k)" w] Cons.prems(3,4)
    by (auto simp: e)
  have p: "p \<notin> snd ` set es" using Cons.prems(2) by (simp add: e)
  then have same: "objs q1 (snd e') = objs q (snd e')" if "e' \<in> set es" for e'
    using that q1(4) by force
  have disj: "snd ` set es \<inter> snd ` set (timers q1) = {}"
    using Cons.prems(3) p q1(5) by (auto simp: e)
  have live: "\<forall>e' \<in> set es. objs q1 (snd e') \<noteq> None \<and> snd e' < UINTPTR_MAX"
    using Cons.prems(4) same by simp
  have dist: "distinct (map snd es)" using Cons.prems(2) by simp
  obtain q' where q': "foldR (\<lambda>(i, e). reset_entry (clock i) e) (enumerate (Suc k) es) q1 = Inr q'"
      "wf_tq q'" "ran q' = ran q1"
      "set (timers q') = set (timers q1) \<union> requeued clock (objs q1) (Suc k) es"
      "es \<noteq> [] \<and> timers q' \<noteq> [] \<longrightarrow> armed q' \<noteq> None" "es = [] \<longrightarrow> q' = q1"
    using Cons.IH [OF q1(2) dist disj live, of "Suc k"] by blast
  have "set (timers q') = set (timers q) \<union> requeued clock (objs q) k (e # es)"
    using q'(4) q1(5) requeued_cong [of es "objs q1" "objs q", OF same]
      requeued_Cons [of "objs q" p t clock k w es, OF t] by (auto simp: e)
  then show ?case
    using q' q1 by auto
qed simp

text \<open>The whole handler.\<close>

lemma handleRead_ok:
  fixes now :: int
  assumes wf: "wf_tq q"
  defines "due \<equiv> filter (\<lambda>e. fst e \<le> now) (timers q)"
  shows "\<exists>q'. handleRead now clock q = Inr q' \<and> wf_tq q' \<and>
    ran q' = ran q @ map (\<lambda>e. timerCallback (the (objs q (snd e)))) due \<and>
    set (timers q') = {e \<in> set (timers q). now < fst e} \<union> requeued clock (objs q) 0 due \<and>
    (due \<noteq> [] \<and> timers q' \<noteq> [] \<longrightarrow> armed q' \<noteq> None) \<and> (due = [] \<longrightarrow> armed q' = None)"
proof -
  let ?q0 = "q\<lparr>armed := None\<rparr>"
  let ?rest = "filter (\<lambda>e. \<not> fst e \<le> now) (timers q)"
  let ?q1 = "?q0\<lparr>timers := ?rest, callingExpiredTimers := True\<rparr>"
  let ?q2 = "?q1\<lparr>ran := ran q @ map (\<lambda>e. timerCallback (the (objs q (snd e)))) due,
                 callingExpiredTimers := False\<rparr>"
  have wf0: "wf_tq ?q0" using wf by (rule wf_tq_cong) simp_all
  have live: "\<forall>e \<in> set due. objs q (snd e) \<noteq> None \<and> snd e < UINTPTR_MAX"
    using wf_tqD [OF wf] by (fastforce simp: due_def)
  have run: "foldR run_entry due ?q1 = Inr (?q2\<lparr>callingExpiredTimers := True\<rparr>)"
    using run_entries [of due ?q1] live by simp
  have eq: "handleRead now clock q = reset_timers clock due ?q2"
    using getExpired_spec [OF wf0, of now] run
    by (simp add: handleRead_def Timestamp_now_def due_def)
  have wf2: "wf_tq ?q2"
    using wf_getExpired [OF wf] by (rule wf_tq_cong) simp_all
  have inj: "inj_on snd (set (timers q))" by (rule wf_tq_distinct_ptrs [OF wf])
  have "distinct (timers q)"
    using wf by (simp add: wf_tq_def strict_sorted_iff)
  then have dist: "distinct (map snd due)"
    using inj by (auto simp: due_def distinct_map intro: inj_on_subset)
  have disj: "snd ` set due \<inter> snd ` set ?rest = {}"
    using inj by (auto simp: due_def inj_on_def)
  show ?thesis
    using reset_loop_ok [OF wf2 dist, of clock 0] live disj
    by (auto simp: eq reset_timers_def not_le)
qed


section \<open>Properties\<close>



text \<open>
  Adding a timer. \<^verbatim>\<open>addTimer\<close> with the address of a new timer keeps the queue well-formed,
  adds exactly its entry, and sets the descriptor exactly when the new timer is earlier than
  every queued one.
\<close>

theorem addTimer_queues:
  assumes "wf_tq q" "objs q p = None" "p < UINTPTR_MAX"
  shows "\<exists>q'. addTimer now p cb when ivl q = Inr q' \<and> wf_tq q' \<and>
    set (timers q') = insert (when, p) (set (timers q)) \<and>
    objs q' p = Some (Timer_new cb when ivl) \<and>
    (if \<forall>e \<in> set (timers q). when < fst e then armed q' \<noteq> None else armed q' = armed q)"
proof -
  let ?t = "Timer_new cb when ivl"
  let ?q = "q\<lparr>objs := (objs q)(p \<mapsto> ?t)\<rparr>"
  have "p \<notin> snd ` set (timers q)"
    using assms(2) wf_tqD [OF assms(1)] by force
  then have wf: "wf_tq ?q" using assms(1) by (simp add: wf_tq_update_unqueued)
  then obtain b q1 where q1: "insert_timer p ?q = Inr (b, q1)" "wf_tq q1" "objs q1 = objs ?q"
      "armed q1 = armed q" "set (timers q1) = insert (when, p) (set (timers q))"
      "b \<longleftrightarrow> (\<forall>e \<in> set (timers q). when < fst e)"
    using insert_timer_ok [OF wf, of p ?t] assms(3) by (auto simp: Timer_new_def)
  then show ?thesis
    by (auto simp: addTimer_def addTimerInLoop_def deref_def Timer_new_def
        intro: wf_tq_cong [OF q1(2)])
qed

theorem addTimer_queues_witness:
  "\<exists>q'. addTimer 100 1 7 200 0 TimerQueue_init = Inr q' \<and> wf_tq q' \<and> set (timers q') = {(200, 1)} \<and>
     armed q' \<noteq> None"
  using addTimer_queues [OF wf_TimerQueue_init, of 1 100 7 200 0]
  by (auto simp: TimerQueue_init_def UINTPTR_MAX_def)

text \<open>
  C39: a timer that should fire after \<open>d\<close> seconds is lost. \<^verbatim>\<open>Timestamp::now()\<close> counts seconds,
  but \<^verbatim>\<open>addTime\<close> adds microseconds and \<^verbatim>\<open>resetTimerfd\<close> reads the difference as microseconds. On
  an empty queue \<^verbatim>\<open>runAfter(d)\<close> arms the descriptor for \<open>d\<close> seconds; when it expires, at any
  clock value up to a day later than that, \<^verbatim>\<open>handleRead\<close> finds no expired timer, runs no callback and
  leaves the descriptor disarmed although the timer is still queued.
\<close>

theorem runAfter_timer_lost:
  assumes "1 \<le> d" "t \<le> t0 + d + 86400" "p < UINTPTR_MAX"
  shows "\<exists>q q'. runAfter t0 p (of_int d) cb TimerQueue_init = Inr q \<and> armed q = Some (d, 0) \<and>
    handleRead t clock q = Inr q' \<and> ran q' = [] \<and> armed q' = None \<and>
    timers q' = [(t0 + d * 1000000, p)]"
proof -
  define w where "w = t0 + d * 1000000"
  let ?t = "Timer_new cb w 0"
  let ?q = "TimerQueue_init\<lparr>objs := (\<lambda>_. None)(p \<mapsto> ?t), timers := [(w, p)], armed := Some (d, 0)\<rparr>"
  have add: "addTime (Timestamp_now t0) (of_int d) = w"
    by (simp only: addTime_def trunc_to_int_of_int flip: of_int_mult)
      (simp add: Timestamp_now_def w_def kMicroSecondsPerSecond_def)
  have q: "runAfter t0 p (of_int d) cb TimerQueue_init = Inr ?q"
    using assms(1) add
    by (simp add: runAfter_def runAt_def addTimer_def addTimerInLoop_def insert_timer_def deref_def
        TimerQueue_init_def Timer_new_def set_insert_def resetTimerfd_def Timestamp_now_def w_def
        kMicroSecondsPerSecond_def Let_def)
  have later: "t < w" using assms(1,2) by (simp add: w_def)
  have "wf_tq ?q" using assms(3) by (simp add: wf_tq_def Timer_new_def)
  from getExpired_spec [OF wf_tq_cong [OF this, of "?q\<lparr>armed := None\<rparr>"], of t]
  have "handleRead t clock ?q = Inr (?q\<lparr>armed := None, callingExpiredTimers := False\<rparr>)"
    using later by (simp add: handleRead_def Timestamp_now_def reset_timers_def)
  with q show ?thesis by (simp add: w_def TimerQueue_init_def)
qed

theorem runAfter_timer_lost_witness:
  "\<exists>q q'. runAfter 1684000000 1 (of_int 3) 7 TimerQueue_init = Inr q \<and> armed q = Some (3, 0) \<and>
    handleRead 1684000003 (\<lambda>_. (0, 0)) q = Inr q' \<and> ran q' = [] \<and> armed q' = None \<and>
    timers q' = [(1684000000 + 3 * 1000000, 1)]"
  by (rule runAfter_timer_lost) (simp_all add: UINTPTR_MAX_def)

end
