(* ===== verification/ByteQueue.thy ===== *)
theory ByteQueue
  imports Prelude
begin

text \<open>
  The interface between the byte buffer and its clients: a first-in first-out queue of bytes
  that accepts a bounded number of further bytes. \<^verbatim>\<open>TcpConnection\<close> keeps its unsent output in
  one, \<^verbatim>\<open>HttpResponseTest::appendToBuffer\<close> writes a response into one piece by piece.
\<close>

locale byte_queue =
  fixes bytes_of :: "'q \<Rightarrow> char list"
    and invar :: "'q \<Rightarrow> bool"
    and space :: "'q \<Rightarrow> nat"
    and put :: "char list \<Rightarrow> 'q \<Rightarrow> 'q result"
    and skip :: "nat \<Rightarrow> 'q \<Rightarrow> 'q"
  assumes put_ok: "invar q \<Longrightarrow> length xs \<le> space q \<Longrightarrow>
      \<exists>q'. put xs q = Inr q' \<and> invar q' \<and> bytes_of q' = bytes_of q @ xs \<and>
           space q - length xs \<le> space q'"
    and bytes_of_skip: "invar q \<Longrightarrow> bytes_of (skip n q) = drop n (bytes_of q)"
    and invar_skip: "invar q \<Longrightarrow> invar (skip n q)"
    and space_skip: "invar q \<Longrightarrow> space q \<le> space (skip n q)"
begin

text \<open>Writing a message in pieces is writing their concatenation.\<close>

lemma put_pieces:
  assumes "invar q" "length (concat xss) \<le> space q"
  shows "\<exists>q'. foldR put xss q = Inr q' \<and> invar q' \<and> bytes_of q' = bytes_of q @ concat xss"
  using assms
proof (induction xss arbitrary: q)
  case Nil
  then show ?case by simp
next
  case (Cons xs xss)
  then obtain q1 where q1: "put xs q = Inr q1" "invar q1" "bytes_of q1 = bytes_of q @ xs"
      "space q - length xs \<le> space q1"
    using put_ok [of q xs] by auto
  moreover have "length (concat xss) \<le> space q1"
    using Cons.prems(2) q1(4) by simp
  ultimately show ?case
    using Cons.IH [of q1] by auto
qed

text \<open>
  Bytes leave in the order they entered: whatever was taken off the front, followed by what
  is left, is what was there before, followed by what was put in between.
\<close>

lemma skip_put_order:
  assumes "invar q" "n \<le> length (bytes_of q)" "length xs \<le> space q"
  shows "\<exists>q'. put xs (skip n q) = Inr q' \<and> invar q' \<and>
              take n (bytes_of q) @ bytes_of q' = bytes_of q @ xs"
proof -
  have "length xs \<le> space (skip n q)"
    using assms space_skip [of q n] by simp
  then obtain q' where "put xs (skip n q) = Inr q'" "invar q'"
      "bytes_of q' = bytes_of (skip n q) @ xs"
    using put_ok [OF invar_skip [OF assms(1)], of xs n] by auto
  then show ?thesis
    using assms(1) by (simp add: bytes_of_skip flip: append_assoc)
qed

end

end
