(* ===== verification/Buffer.thy ===== *)
theory Buffer
  imports ByteQueue
begin

text \<open>
  The byte buffer of \<^verbatim>\<open>src/net/Buffer.h\<close> and \<^verbatim>\<open>src/net/Buffer.cc\<close>: a vector with a
  reader and a writer index. A pointer into the vector (\<^verbatim>\<open>peek()\<close>, \<^verbatim>\<open>beginWrite()\<close>) is the
  index it points at. The two system calls of \<^verbatim>\<open>Buffer.cc\<close> are parameters: what
  \<^verbatim>\<open>readv\<close> delivers and what \<^verbatim>\<open>write\<close> accepts.
\<close>

section \<open>State and operations\<close>

record buffer =
  store :: "char list"
  readerIndex :: size_t
  writerIndex :: size_t

definition kCheapPrepend :: size_t where
  "kCheapPrepend = 8"

definition kInitialSize :: size_t where
  "kInitialSize = 1024"

text \<open>\<^verbatim>\<open>std::vector<char>\<close> holds at most \<open>2 ^ 63 - 1\<close> elements.\<close>

definition vector_max_size :: size_t where
  "vector_max_size = 2 ^ 63 - 1"

definition vector_resize :: "size_t \<Rightarrow> char list \<Rightarrow> char list result" where
  "vector_resize n xs =
     (if n > vector_max_size then Inl LengthError
      else Inr (take n xs @ replicate (n - length xs) (CHR 0x00)))"

definition Buffer_new :: "size_t \<Rightarrow> buffer" where
  "Buffer_new initialSize =
     \<lparr>store = replicate (szadd kCheapPrepend initialSize) (CHR 0x00),
      readerIndex = kCheapPrepend, writerIndex = kCheapPrepend\<rparr>"

definition readableBytes :: "buffer \<Rightarrow> size_t" where
  "readableBytes b = szsub (writerIndex b) (readerIndex b)"

definition writableBytes :: "buffer \<Rightarrow> size_t" where
  "writableBytes b = szsub (length (store b)) (writerIndex b)"

definition prependableBytes :: "buffer \<Rightarrow> size_t" where
  "prependableBytes b = readerIndex b"

definition peek :: "buffer \<Rightarrow> size_t" where
  "peek b = readerIndex b"

definition beginWrite :: "buffer \<Rightarrow> size_t" where
  "beginWrite b = writerIndex b"

definition retrieveAll :: "buffer \<Rightarrow> buffer" where
  "retrieveAll b = b\<lparr>readerIndex := kCheapPrepend, writerIndex := kCheapPrepend\<rparr>"

definition retrieve :: "size_t \<Rightarrow> buffer \<Rightarrow> buffer" where
  "retrieve len b =
     (if len < readableBytes b then b\<lparr>readerIndex := szadd (readerIndex b) len\<rparr>
      else retrieveAll b)"

definition retrieveUntil :: "size_t \<Rightarrow> buffer \<Rightarrow> buffer" where
  "retrieveUntil e b = retrieve (szsub e (peek b)) b"

text \<open>Reading \<open>len\<close> bytes from \<^verbatim>\<open>peek()\<close> stays inside the vector or is an error.\<close>

definition retrieveAsString :: "size_t \<Rightarrow> buffer \<Rightarrow> (string \<times> buffer) result" where
  "retrieveAsString len b =
     (if peek b + len \<le> length (store b)
      then Inr (take len (drop (peek b) (store b)), retrieve len b)
      else Inl OutOfBounds)"

definition retrieveAllAsString :: "buffer \<Rightarrow> (string \<times> buffer) result" where
  "retrieveAllAsString b = retrieveAsString (readableBytes b) b"

definition makeSpace :: "size_t \<Rightarrow> buffer \<Rightarrow> buffer result" where
  "makeSpace len b =
     (if szadd (writableBytes b) (prependableBytes b) < szadd len kCheapPrepend
      then bindR (vector_resize (szadd (writerIndex b) len) (store b))
             (\<lambda>v. Inr (b\<lparr>store := v\<rparr>))
      else let readable = readableBytes b in
        Inr (b\<lparr>store := copy_fwd (store b) (readerIndex b) kCheapPrepend
                           (writerIndex b - readerIndex b),
               readerIndex := kCheapPrepend,
               writerIndex := szadd kCheapPrepend readable\<rparr>))"

definition ensureWritableBytes :: "size_t \<Rightarrow> buffer \<Rightarrow> buffer result" where
  "ensureWritableBytes len b = (if writableBytes b < len then makeSpace len b else Inr b)"

text \<open>The copy of \<^verbatim>\<open>append\<close> writes at \<^verbatim>\<open>beginWrite()\<close>; past the vector's end it is an error.\<close>

definition append :: "char list \<Rightarrow> buffer \<Rightarrow> buffer result" where
  "append data b =
     bindR (ensureWritableBytes (length data) b) (\<lambda>b1.
       if beginWrite b1 + length data \<le> length (store b1)
       then Inr (b1\<lparr>store := blit (store b1) (beginWrite b1) data,
                    writerIndex := szadd (writerIndex b1) (length data)\<rparr>)
       else Inl OutOfBounds)"

definition extrabuf_size :: size_t where
  "extrabuf_size = 65536"

text \<open>
  \<open>readv_cap b\<close> is the total length of the vectors handed to \<^verbatim>\<open>readv\<close>. The kernel's answer
  \<open>rv\<close> is an errno, or the bytes it stored: first those that fit at the writer index, then
  the rest in \<^verbatim>\<open>extrabuf\<close>. The result is the returned count (\<open>-1\<close> on an error), the saved
  errno and the buffer.
\<close>

definition readv_cap :: "buffer \<Rightarrow> size_t" where
  "readv_cap b =
     (let writable = writableBytes b in
      if writable < extrabuf_size then writable + extrabuf_size else writable)"

definition readFd :: "(int + char list) \<Rightarrow> buffer \<Rightarrow> (int \<times> int option \<times> buffer) result" where
  "readFd rv b =
     (let writable = writableBytes b in
      case rv of
        Inl err \<Rightarrow> Inr (-1, Some err, b)
      | Inr bytes \<Rightarrow>
          let n = length bytes;
              b0 = b\<lparr>store := blit (store b) (writerIndex b) (take writable bytes)\<rparr> in
          if n \<le> writable
          then Inr (int n, None, b0\<lparr>writerIndex := szadd (writerIndex b0) n\<rparr>)
          else bindR (append (drop writable bytes)
                        (b0\<lparr>writerIndex := length (store b0)\<rparr>))
                 (\<lambda>b1. Inr (int n, None, b1)))"

text \<open>
  \<open>writFd wr b\<close>: the kernel's \<^verbatim>\<open>write\<close> is a function of the bytes offered to it, which returns
  an errno or the number of bytes taken. The buffer itself is not changed.
\<close>

definition writFd :: "(char list \<Rightarrow> int + nat) \<Rightarrow> buffer \<Rightarrow> (int \<times> int option) result" where
  "writFd wr b =
     (if peek b + readableBytes b \<le> length (store b)
      then (case wr (take (readableBytes b) (drop (peek b) (store b))) of
              Inl err \<Rightarrow> Inr (-1, Some err)
            | Inr n \<Rightarrow> Inr (int n, None))
      else Inl OutOfBounds)"

section \<open>Well-formedness and the readable content\<close>

definition wf_buffer :: "buffer \<Rightarrow> bool" where
  "wf_buffer b \<longleftrightarrow>
     kCheapPrepend \<le> readerIndex b \<and> readerIndex b \<le> writerIndex b \<and>
     writerIndex b \<le> length (store b) \<and> length (store b) \<le> vector_max_size"

definition content :: "buffer \<Rightarrow> char list" where
  "content b = window (store b) (readerIndex b) (writerIndex b)"

text \<open>How many bytes can still be appended before the vector reaches its maximum size.\<close>

definition room :: "buffer \<Rightarrow> nat" where
  "room b = vector_max_size - length (store b)"

lemmas buffer_consts = kCheapPrepend_def vector_max_size_def size_mod_def

lemma wf_bufferD:
  assumes "wf_buffer b"
  shows "8 \<le> readerIndex b" "readerIndex b \<le> writerIndex b"
    "writerIndex b \<le> length (store b)" "length (store b) < 2 ^ 63"
  using assms by (simp_all add: wf_buffer_def buffer_consts)

lemma readableBytes_exact:
  assumes "wf_buffer b"
  shows "readableBytes b = writerIndex b - readerIndex b"
  using wf_bufferD [OF assms] by (simp add: readableBytes_def szsub_exact size_mod_def)

lemma writableBytes_exact:
  assumes "wf_buffer b"
  shows "writableBytes b = length (store b) - writerIndex b"
  using wf_bufferD [OF assms] by (simp add: writableBytes_def szsub_exact size_mod_def)

lemma readableBytes_content: "wf_buffer b \<Longrightarrow> readableBytes b = length (content b)"
  by (simp add: readableBytes_exact content_def wf_bufferD)

lemma content_eq_take:
  "wf_buffer b \<Longrightarrow> take (readableBytes b) (drop (peek b) (store b)) = content b"
  by (simp add: readableBytes_exact content_def window_def peek_def)

lemma wf_Buffer_new [wf_intros]:
  "n \<le> vector_max_size - kCheapPrepend \<Longrightarrow> wf_buffer (Buffer_new n)"
  by (simp add: wf_buffer_def Buffer_new_def buffer_consts szadd_def)

lemma content_Buffer_new [simp]: "content (Buffer_new n) = []"
  by (simp add: content_def Buffer_new_def)

section \<open>Retrieving\<close>

lemma wf_retrieveAll [wf_intros]: "wf_buffer b \<Longrightarrow> wf_buffer (retrieveAll b)"
  by (auto simp: wf_buffer_def retrieveAll_def)

lemma content_retrieveAll [simp]: "content (retrieveAll b) = []"
  by (simp add: content_def retrieveAll_def)

lemma retrieve_less:
  assumes "wf_buffer b" "len < length (content b)"
  shows "retrieve len b = b\<lparr>readerIndex := readerIndex b + len\<rparr>"
proof -
  have "readerIndex b + len < size_mod"
    using assms wf_bufferD [OF assms(1)] by (simp add: content_def size_mod_def)
  then show ?thesis
    using assms by (simp add: retrieve_def readableBytes_content szadd_exact)
qed

lemma retrieve_ge:
  "wf_buffer b \<Longrightarrow> length (content b) \<le> len \<Longrightarrow> retrieve len b = retrieveAll b"
  by (simp add: retrieve_def readableBytes_content)

lemma wf_retrieve [wf_intros]: "wf_buffer b \<Longrightarrow> wf_buffer (retrieve len b)"
proof (cases "len < length (content b)")
  case True
  assume wf: "wf_buffer b"
  with True wf_bufferD [OF wf] show ?thesis
    by (simp add: retrieve_less wf_buffer_def content_def)
next
  case False
  assume "wf_buffer b"
  with False show ?thesis by (simp add: retrieve_ge wf_retrieveAll)
qed

lemma content_retrieve:
  assumes "wf_buffer b"
  shows "content (retrieve len b) = drop len (content b)"
proof (cases "len < length (content b)")
  case True
  then have "readerIndex b + len \<le> writerIndex b"
    using wf_bufferD [OF assms] by (simp add: content_def)
  then show ?thesis
    using True window_advance [of "readerIndex b" "readerIndex b + len" "writerIndex b" "store b"]
    by (simp add: retrieve_less assms content_def)
qed (simp add: retrieve_ge assms)

lemma length_buffer_retrieve [simp]: "length (store (retrieve len b)) = length (store b)"
  by (simp add: retrieve_def retrieveAll_def)

section \<open>Appending\<close>

text \<open>
  What growing does: the content is kept, and afterwards there is room for \<open>len\<close> bytes
  behind the writer index.
\<close>

lemma vector_resize_grow:
  "length xs \<le> n \<Longrightarrow> n \<le> vector_max_size \<Longrightarrow>
   vector_resize n xs = Inr (xs @ replicate (n - length xs) (CHR 0x00))"
  by (simp add: vector_resize_def)

text \<open>The only failure, for data that a C++ object can hold, is a vector that cannot grow.\<close>

lemma makeSpace_cases:
  assumes wf: "wf_buffer b" and short: "writableBytes b < len" and len: "len \<le> vector_max_size"
  obtains (fails) "makeSpace len b = Inl LengthError" "room b < len"
  | (grown) b' where "makeSpace len b = Inr b'" "wf_buffer b'" "content b' = content b"
    "writerIndex b' + len \<le> length (store b')" "length (store b') \<le> length (store b) + len"
proof -
  note w = wf_bufferD [OF wf]
  have total: "szadd (writableBytes b) (prependableBytes b)
      = length (store b) - writerIndex b + readerIndex b"
    using w by (simp add: writableBytes_exact wf prependableBytes_def szadd_exact size_mod_def)
  have need: "szadd len kCheapPrepend = len + 8"
    using len by (simp add: szadd_exact buffer_consts)
  show thesis
  proof (cases "length (store b) - writerIndex b + readerIndex b < len + 8")
    case True
    define n where "n = writerIndex b + len"
    have n: "szadd (writerIndex b) len = n" "length (store b) \<le> n"
      using w len short by (simp_all add: n_def szadd_exact buffer_consts writableBytes_exact wf)
    have m: "makeSpace len b =
        bindR (vector_resize n (store b)) (\<lambda>v. Inr (b\<lparr>store := v\<rparr>))"
      using True n by (simp add: makeSpace_def total need)
    show thesis
    proof (cases "n \<le> vector_max_size")
      case True
      let ?b = "b\<lparr>store := store b @ replicate (n - length (store b)) (CHR 0x00)\<rparr>"
      have "wf_buffer ?b"
        using wf n True by (simp add: wf_buffer_def)
      then show thesis
        using w n True m by (intro grown [of ?b]) (simp_all add: vector_resize_grow content_def n_def)
    next
      case False
      then show thesis
        using w m wf by (intro fails) (auto simp: vector_resize_def room_def n_def wf_buffer_def)
    qed
  next
    case False
    define m where "m = writerIndex b - readerIndex b"
    let ?v = "blit (store b) 8 (content b)"
    let ?b = "b\<lparr>store := ?v, readerIndex := 8, writerIndex := 8 + m\<rparr>"
    have m: "length (content b) = m" "8 + m \<le> length (store b)"
      using w by (simp_all add: content_def m_def)
    have cp: "copy_fwd (store b) (readerIndex b) kCheapPrepend m = ?v"
      using w by (simp add: copy_fwd_blit m_def kCheapPrepend_def content_def window_def)
    have "szadd kCheapPrepend m = 8 + m"
      using m w by (simp add: szadd_exact buffer_consts)
    then have "makeSpace len b = Inr ?b"
      using False cp by (simp add: makeSpace_def total need readableBytes_exact wf m_def [symmetric])
        (simp add: kCheapPrepend_def)
    moreover have "wf_buffer ?b"
      using wf m by (simp add: wf_buffer_def kCheapPrepend_def)
    moreover have "content ?b = content b"
      using m window_blit_start [of 8 "content b" "store b"] by (simp add: content_def)
    ultimately show thesis
      using False m w by (intro grown [of ?b]) (simp_all add: m_def)
  qed
qed

lemma append_cases:
  assumes "wf_buffer b" "length xs \<le> vector_max_size"
  obtains (fails) "append xs b = Inl LengthError" "room b < length xs"
  | (appended) b' where "append xs b = Inr b'" "wf_buffer b'" "content b' = content b @ xs"
    "room b - length xs \<le> room b'"
proof -
  consider (short) "ensureWritableBytes (length xs) b = Inl LengthError" "room b < length xs"
    | (fits) b1 where "ensureWritableBytes (length xs) b = Inr b1" "wf_buffer b1"
      "content b1 = content b" "writerIndex b1 + length xs \<le> length (store b1)"
      "length (store b1) \<le> length (store b) + length xs"
  proof (cases "writableBytes b < length xs")
    case True
    from assms(1) True assms(2) show thesis
      by (rule makeSpace_cases) (use True that in \<open>auto simp: ensureWritableBytes_def\<close>)
  next
    case False
    with assms wf_bufferD [OF assms(1)] show thesis
      by (intro that(2) [of b]) (simp_all add: ensureWritableBytes_def writableBytes_exact)
  qed
  then show thesis
  proof cases
    case short
    then show thesis by (intro fails) (simp_all add: append_def)
  next
    case b1: (fits b1)
    note w = wf_bufferD [OF b1(2)]
    have idx: "szadd (writerIndex b1) (length xs) = writerIndex b1 + length xs"
      using b1(4) w by (simp add: szadd_exact size_mod_def)
    let ?b = "b1\<lparr>store := blit (store b1) (writerIndex b1) xs,
                  writerIndex := writerIndex b1 + length xs\<rparr>"
    have "append xs b = Inr ?b"
      using b1 idx by (simp add: append_def beginWrite_def)
    moreover have "wf_buffer ?b"
      using b1 by (simp add: wf_buffer_def)
    moreover have "content ?b = content b @ xs"
      using b1 w window_blit_end [of "readerIndex b1" "writerIndex b1" xs "store b1"]
      by (simp add: content_def)
    ultimately show thesis
      using b1 by (intro appended [of ?b]) (simp_all add: room_def)
  qed
qed

lemma append_Inr:
  assumes "wf_buffer b" "length xs \<le> vector_max_size" "append xs b = Inr b'"
  shows "wf_buffer b'" "content b' = content b @ xs"
  by (rule append_cases [OF assms(1,2)]; use assms(3) in simp)+

lemma append_ok:
  assumes "wf_buffer b" "length xs \<le> room b"
  obtains b' where "append xs b = Inr b'" "wf_buffer b'" "content b' = content b @ xs"
    "room b - length xs \<le> room b'"
proof -
  have "length xs \<le> vector_max_size"
    using assms(2) by (simp add: room_def)
  from assms(1) this show thesis
    by (rule append_cases) (use assms that in auto)
qed


section \<open>The buffer is a byte queue\<close>

interpretation bq: byte_queue content wf_buffer room append retrieve
proof unfold_locales
  fix b :: buffer and xs :: "char list" and n :: nat
  show "\<exists>b'. append xs b = Inr b' \<and> wf_buffer b' \<and> content b' = content b @ xs \<and>
      room b - length xs \<le> room b'" if "wf_buffer b" "length xs \<le> room b"
    using append_ok [OF that] by metis
  show "content (retrieve n b) = drop n (content b)" if "wf_buffer b"
    using that by (rule content_retrieve)
  show "wf_buffer (retrieve n b)" if "wf_buffer b"
    using that by (rule wf_retrieve)
  show "room b \<le> room (retrieve n b)" if "wf_buffer b"
    by (simp add: room_def)
qed

section \<open>Reading from a descriptor\<close>

lemma blit_at_writer:
  assumes "wf_buffer b" "length ys \<le> writableBytes b"
    "k = writerIndex b + length ys"
  shows "wf_buffer (b\<lparr>store := blit (store b) (writerIndex b) ys, writerIndex := k\<rparr>)"
    "content (b\<lparr>store := blit (store b) (writerIndex b) ys, writerIndex := k\<rparr>) = content b @ ys"
proof -
  have fits: "writerIndex b + length ys \<le> length (store b)"
    using assms wf_bufferD [OF assms(1)] by (simp add: writableBytes_exact)
  show "wf_buffer (b\<lparr>store := blit (store b) (writerIndex b) ys, writerIndex := k\<rparr>)"
    using fits assms by (simp add: wf_buffer_def)
  show "content (b\<lparr>store := blit (store b) (writerIndex b) ys, writerIndex := k\<rparr>) = content b @ ys"
    using fits assms wf_bufferD [OF assms(1)] by (simp add: content_def window_blit_end)
qed

lemma readFd_ok:
  assumes wf: "wf_buffer b" and fit: "length bytes \<le> room b + writableBytes b"
  shows "\<exists>b'. readFd (Inr bytes) b = Inr (int (length bytes), None, b') \<and> wf_buffer b' \<and>
              content b' = content b @ bytes"
proof -
  note w = wf_bufferD [OF wf]
  let ?w = "writableBytes b"
  define ys where "ys = take ?w bytes"
  define b0 where "b0 = b\<lparr>store := blit (store b) (writerIndex b) ys\<rparr>"
  have ys: "length ys \<le> ?w" "writerIndex b + length ys \<le> length (store b)"
    using w by (auto simp: ys_def writableBytes_exact wf)
  show ?thesis
  proof (cases "length bytes \<le> ?w")
    case True
    then have "ys = bytes" by (simp add: ys_def)
    moreover have "szadd (writerIndex b) (length bytes) = writerIndex b + length bytes"
      using ys w \<open>ys = bytes\<close> by (simp add: szadd_exact size_mod_def)
    ultimately show ?thesis
      using True blit_at_writer [OF wf ys(1)] by (simp add: readFd_def Let_def)
  next
    case False
    then have full: "writerIndex b + length ys = length (store b)"
      using w by (simp add: ys_def writableBytes_exact wf)
    let ?b1 = "b0\<lparr>writerIndex := length (store b0)\<rparr>"
    have len0: "length (store b0) = writerIndex b + length ys"
      using ys full by (simp add: b0_def)
    have b1: "wf_buffer ?b1" "content ?b1 = content b @ ys" "room ?b1 = room b"
      using blit_at_writer [OF wf ys(1) len0] ys full by (simp_all add: b0_def room_def)
    moreover have "length (drop ?w bytes) \<le> room ?b1"
      using fit b1 by simp
    ultimately obtain b2 where "append (drop ?w bytes) ?b1 = Inr b2" "wf_buffer b2"
        "content b2 = (content b @ ys) @ drop ?w bytes"
      by (metis append_ok)
    then show ?thesis
      using False by (simp add: readFd_def b0_def ys_def Let_def)
  qed
qed

lemma readFd_wf:
  assumes wf: "wf_buffer b" and rd: "readFd rv b = Inr (n, e, b')"
    and len: "\<And>bytes. rv = Inr bytes \<Longrightarrow> length bytes \<le> vector_max_size"
  shows "wf_buffer b'"
proof (cases rv)
  case (Inl err)
  then show ?thesis using wf rd by (simp add: readFd_def Let_def)
next
  case (Inr bytes)
  let ?w = "writableBytes b" and ?b0 = "b\<lparr>store := blit (store b) (writerIndex b) (take (writableBytes b) bytes)\<rparr>"
  show ?thesis
  proof (cases "length bytes \<le> ?w")
    case True
    then show ?thesis using readFd_ok [OF wf, of bytes] rd by (auto simp: Inr)
  next
    case False
    note w = wf_bufferD [OF wf]
    have "length (store ?b0) = writerIndex b + length (take ?w bytes)"
      using False w by (simp add: writableBytes_exact wf)
    from blit_at_writer(1) [OF wf _ this] have "wf_buffer (?b0\<lparr>writerIndex := length (store ?b0)\<rparr>)" by simp
    moreover have "append (drop ?w bytes) (?b0\<lparr>writerIndex := length (store ?b0)\<rparr>) = Inr b'"
      using rd False by (auto simp: Inr readFd_def Let_def bindR_eq_Inr)
    moreover have "length (drop ?w bytes) \<le> vector_max_size" using len [OF Inr] by simp
    ultimately show ?thesis using append_Inr(1) by blast
  qed
qed

section \<open>Reachable buffers\<close>

text \<open>The buffers that the operations make, from a new one on; no vector is longer than a vector can be.\<close>

inductive buffer_reach :: "buffer \<Rightarrow> bool" where
  reach_new: "n + kCheapPrepend \<le> vector_max_size \<Longrightarrow> buffer_reach (Buffer_new n)"
| reach_append: "buffer_reach b \<Longrightarrow> length xs \<le> vector_max_size \<Longrightarrow> append xs b = Inr b' \<Longrightarrow> buffer_reach b'"
| reach_ensure: "buffer_reach b \<Longrightarrow> len \<le> vector_max_size \<Longrightarrow> ensureWritableBytes len b = Inr b' \<Longrightarrow> buffer_reach b'"
| reach_retrieve: "buffer_reach b \<Longrightarrow> buffer_reach (retrieve len b)"
| reach_until: "buffer_reach b \<Longrightarrow> buffer_reach (retrieveUntil e b)"
| reach_all: "buffer_reach b \<Longrightarrow> buffer_reach (retrieveAll b)"
| reach_string: "buffer_reach b \<Longrightarrow> retrieveAsString len b = Inr (str, b') \<Longrightarrow> buffer_reach b'"
| reach_all_string: "buffer_reach b \<Longrightarrow> retrieveAllAsString b = Inr (str, b') \<Longrightarrow> buffer_reach b'"
| reach_read: "buffer_reach b \<Longrightarrow> readFd rv b = Inr (n, err, b') \<Longrightarrow>
    (\<And>bytes. rv = Inr bytes \<Longrightarrow> length bytes \<le> vector_max_size) \<Longrightarrow> buffer_reach b'"

lemma ensure_wf:
  assumes "wf_buffer b" "len \<le> vector_max_size" "ensureWritableBytes len b = Inr b'"
  shows "wf_buffer b'"
proof (cases "writableBytes b < len")
  case True
  from assms(1) True assms(2) show ?thesis
    by (rule makeSpace_cases) (use assms(3) True in \<open>simp_all add: ensureWritableBytes_def\<close>)
qed (use assms in \<open>simp add: ensureWritableBytes_def\<close>)

lemma buffer_reach_wf: "buffer_reach b \<Longrightarrow> wf_buffer b"
proof (induction rule: buffer_reach.induct)
  case (reach_append b xs b')
  then show ?case using append_Inr(1) by blast
next
  case (reach_ensure b len b')
  then show ?case using ensure_wf by blast
next
  case (reach_read b rv n err b')
  then show ?case using readFd_wf by blast
qed (auto intro: wf_intros simp: retrieveUntil_def retrieveAsString_def retrieveAllAsString_def split: if_splits)

section \<open>Properties\<close>

text \<open>
  C8: \<^verbatim>\<open>Buffer::append\<close> never fails while the vector can hold the data, keeps the index
  invariant \<open>8 \<le> readerIndex \<le> writerIndex \<le> size\<close>, and the readable content
  afterwards is the old content followed by the data, whether it fitted, the readable bytes
  were moved to the front, or the vector was grown.
\<close>

theorem append_refines_queue:
  assumes "wf_buffer b" "length xs \<le> room b"
  shows "\<exists>b'. append xs b = Inr b' \<and> wf_buffer b' \<and> content b' = content b @ xs"
  using bq.put_ok [OF assms] by blast

theorem append_refines_queue_witness:
  "\<exists>b'. append ''abc'' (Buffer_new 2) = Inr b' \<and> wf_buffer b' \<and> content b' = ''abc''"
proof -
  have "wf_buffer (Buffer_new 2)" "length ''abc'' \<le> room (Buffer_new 2)"
    by (simp_all add: wf_buffer_def room_def Buffer_new_def buffer_consts szadd_def)
  from append_refines_queue [OF this] show ?thesis by simp
qed

text \<open>
  \<^verbatim>\<open>Buffer\<close> is first-in first-out: after any sequence of appends,
  \<^verbatim>\<open>retrieveAsString(len)\<close> for at most the readable length returns exactly the first \<open>len\<close>
  of the bytes, in order, and leaves the rest readable.
\<close>

theorem appends_retrieve_roundtrip:
  assumes "wf_buffer b" "length (concat xss) \<le> room b"
    and "len \<le> length (content b @ concat xss)"
  shows "\<exists>b1 b2. foldR append xss b = Inr b1 \<and>
      retrieveAsString len b1 = Inr (take len (content b @ concat xss), b2) \<and> wf_buffer b2 \<and>
      content b2 = drop len (content b @ concat xss)"
proof -
  obtain b1 where b1: "foldR append xss b = Inr b1" "wf_buffer b1"
      "content b1 = content b @ concat xss"
    using bq.put_pieces [OF assms(1,2)] by blast
  note w = wf_bufferD [OF b1(2)]
  have "len \<le> writerIndex b1 - readerIndex b1"
    using assms(3) w arg_cong [OF b1(3), of length] by (simp add: content_def)
  then have "retrieveAsString len b1 = Inr (take len (content b1), retrieve len b1)"
    using w by (simp add: retrieveAsString_def peek_def content_def window_def)
  then show ?thesis
    using b1 by (auto simp: content_retrieve intro: wf_retrieve)
qed

theorem appends_retrieve_roundtrip_witness:
  "\<exists>b1 b2. foldR append [''ab'', ''cd''] (Buffer_new 1) = Inr b1 \<and>
     retrieveAsString 3 b1 = Inr (''abc'', b2) \<and> wf_buffer b2 \<and> content b2 = ''d''"
proof -
  have "wf_buffer (Buffer_new 1)" "length (concat [''ab'', ''cd'']) \<le> room (Buffer_new 1)"
    "3 \<le> length (content (Buffer_new 1) @ concat [''ab'', ''cd''])"
    by (simp_all add: wf_buffer_def room_def Buffer_new_def buffer_consts szadd_def content_def)
  from appends_retrieve_roundtrip [OF this] show ?thesis by simp
qed

text \<open>
  \<^verbatim>\<open>Buffer::readFd\<close> with whatever \<^verbatim>\<open>readv\<close> delivers (at most the length of the vectors
  offered, as documented for \<^verbatim>\<open>readv\<close>): it returns the count and the readable content grows
  by exactly these bytes, also when they overflow into the 64 KiB stack buffer; on an error it
  returns \<open>-1\<close>, saves the errno and leaves the buffer as it was.
\<close>

theorem readFd_appends_exactly:
  assumes "wf_buffer b" "length bytes \<le> readv_cap b" "extrabuf_size \<le> room b"
  shows "(\<exists>b'. readFd (Inr bytes) b = Inr (int (length bytes), None, b') \<and> wf_buffer b' \<and>
               content b' = content b @ bytes) \<and>
         readFd (Inl err) b = Inr (-1, Some err, b)"
proof
  have "length bytes \<le> room b + writableBytes b"
    using assms(2,3) by (auto simp: readv_cap_def Let_def split: if_splits)
  with assms(1) show "\<exists>b'. readFd (Inr bytes) b = Inr (int (length bytes), None, b') \<and>
      wf_buffer b' \<and> content b' = content b @ bytes"
    by (rule readFd_ok)
  show "readFd (Inl err) b = Inr (-1, Some err, b)"
    by (simp add: readFd_def)
qed

theorem readFd_appends_exactly_witness:
  "(\<exists>b'. readFd (Inr ''hello'') (Buffer_new 2) = Inr (5, None, b') \<and> wf_buffer b' \<and>
         content b' = ''hello'') \<and>
   readFd (Inl 11) (Buffer_new 2) = Inr (-1, Some 11, Buffer_new 2)"
proof -
  have "wf_buffer (Buffer_new 2)" "length ''hello'' \<le> readv_cap (Buffer_new 2)"
    "extrabuf_size \<le> room (Buffer_new 2)"
    by (simp_all add: wf_buffer_def room_def Buffer_new_def buffer_consts szadd_def readv_cap_def
        writableBytes_def szsub_def extrabuf_size_def)
  from readFd_appends_exactly [OF this, of 11] show ?thesis by simp
qed



end
