(* ===== verification/Poller.thy ===== *)
theory Poller
  imports Prelude
begin

text \<open>
  Channels (\<^verbatim>\<open>src/net/Channel.h\<close>, \<^verbatim>\<open>Channel.cc\<close>) and the epoll poller
  (\<^verbatim>\<open>src/net/poller/EpollPoller.cc\<close>, \<^verbatim>\<open>Poller.cc\<close>). Channels live on a heap and are named
  by their pointers. \<^verbatim>\<open>epoll_ctl\<close> and \<^verbatim>\<open>epoll_wait\<close> are parameters; what the code relies on of
  \<^verbatim>\<open>epoll_ctl\<close> is \<open>epoll_spec\<close>.
\<close>

unbundle bit_operations_syntax

section \<open>Channels\<close>

type_synonym evmask = "32 word"

definition EPOLLIN :: evmask where "EPOLLIN = 1"
definition EPOLLPRI :: evmask where "EPOLLPRI = 2"
definition EPOLLOUT :: evmask where "EPOLLOUT = 4"
definition EPOLLERR :: evmask where "EPOLLERR = 8"
definition EPOLLHUP :: evmask where "EPOLLHUP = 16"

definition kNoneEvent :: evmask where
  "kNoneEvent = 0"

definition kReadEvent :: evmask where
  "kReadEvent = EPOLLIN OR EPOLLPRI"

definition kWriteEvent :: evmask where
  "kWriteEvent = EPOLLOUT"

text \<open>
  \<open>tie\<close> is the object the weak pointer refers to; the four flags say which callbacks are set.
\<close>

record channel =
  fd :: int
  events :: evmask
  revents :: evmask
  index :: int
  tie :: nat
  tied :: bool
  readCallback :: bool
  writeCallback :: bool
  closeCallback :: bool
  errorCallback :: bool

definition Channel_new :: "int \<Rightarrow> channel" where
  "Channel_new f =
     \<lparr>fd = f, events = 0, revents = 0, index = -1, tie = 0, tied = False,
      readCallback = False, writeCallback = False, closeCallback = False, errorCallback = False\<rparr>"

definition tie_to :: "nat \<Rightarrow> channel \<Rightarrow> channel" where
  "tie_to obj c = c\<lparr>tie := obj, tied := True\<rparr>"

definition isNonEvents :: "channel \<Rightarrow> bool" where
  "isNonEvents c \<longleftrightarrow> events c = kNoneEvent"

definition isWriting :: "channel \<Rightarrow> bool" where
  "isWriting c \<longleftrightarrow> events c AND kWriteEvent \<noteq> 0"

definition isReading :: "channel \<Rightarrow> bool" where
  "isReading c \<longleftrightarrow> events c AND kReadEvent \<noteq> 0"

datatype callback = CbClose | CbError | CbRead | CbWrite

text \<open>The callbacks a reported event mask invokes, in the order of the code.\<close>

definition handleEventWithGuard :: "channel \<Rightarrow> callback list" where
  "handleEventWithGuard c =
     (if revents c AND EPOLLHUP \<noteq> 0 \<and> revents c AND EPOLLIN = 0 \<and> closeCallback c
      then [CbClose] else []) @
     (if revents c AND EPOLLERR \<noteq> 0 \<and> errorCallback c then [CbError] else []) @
     (if revents c AND (EPOLLIN OR EPOLLPRI) \<noteq> 0 \<and> readCallback c then [CbRead] else []) @
     (if revents c AND EPOLLOUT \<noteq> 0 \<and> writeCallback c then [CbWrite] else [])"

definition handleEvent :: "(nat \<Rightarrow> bool) \<Rightarrow> channel \<Rightarrow> callback list" where
  "handleEvent alive c =
     (if tied c then (if alive (tie c) then handleEventWithGuard c else [])
      else handleEventWithGuard c)"

section \<open>The poller\<close>

definition kNew :: int where "kNew = -1"
definition kAdded :: int where "kAdded = 1"
definition kDeleted :: int where "kDeleted = 2"

definition kInitEventListSize :: nat where
  "kInitEventListSize = 16"

datatype ctl_op = EPOLL_CTL_ADD | EPOLL_CTL_MOD | EPOLL_CTL_DEL

type_synonym chan_ptr = nat
type_synonym 'k epoll_ctl = "ctl_op \<Rightarrow> int \<Rightarrow> evmask \<times> chan_ptr \<Rightarrow> 'k \<Rightarrow> bool \<times> 'k"

text \<open>\<open>kern\<close> is the state of the epoll instance, \<open>ev_size\<close> the size of the event vector.\<close>

record 'k poller =
  chan :: "chan_ptr \<Rightarrow> channel"
  channels :: "int \<Rightarrow> chan_ptr option"
  kern :: 'k
  ev_size :: nat

definition upd_chan :: "chan_ptr \<Rightarrow> (channel \<Rightarrow> channel) \<Rightarrow> 'k poller \<Rightarrow> 'k poller" where
  "upd_chan p f s = s\<lparr>chan := (chan s)(p := f (chan s p))\<rparr>"

definition hasChannel :: "chan_ptr \<Rightarrow> 'k poller \<Rightarrow> bool" where
  "hasChannel p s \<longleftrightarrow> channels s (fd (chan s p)) = Some p"

text \<open>\<^verbatim>\<open>EpollPoller::update\<close>: a failed removal is logged, a failed addition or change is fatal.\<close>

definition update :: "'k epoll_ctl \<Rightarrow> ctl_op \<Rightarrow> chan_ptr \<Rightarrow> 'k poller \<Rightarrow> 'k poller result" where
  "update ctl operation p s =
     (let c = chan s p;
          (ok, k) = ctl operation (fd c) (events c, p) (kern s)
      in if ok \<or> operation = EPOLL_CTL_DEL then Inr (s\<lparr>kern := k\<rparr>) else Inl FatalExit)"

definition updateChannel :: "'k epoll_ctl \<Rightarrow> chan_ptr \<Rightarrow> 'k poller \<Rightarrow> 'k poller result" where
  "updateChannel ctl p s =
     (let idx = index (chan s p) in
      if idx = kNew \<or> idx = kDeleted then
        let s1 = (if idx = kNew then s\<lparr>channels := (channels s)(fd (chan s p) \<mapsto> p)\<rparr> else s)
        in update ctl EPOLL_CTL_ADD p (upd_chan p (\<lambda>c. c\<lparr>index := kAdded\<rparr>) s1)
      else if isNonEvents (chan s p) then
        bindR (update ctl EPOLL_CTL_DEL p s) (\<lambda>s1.
          Inr (upd_chan p (\<lambda>c. c\<lparr>index := kDeleted\<rparr>) s1))
      else update ctl EPOLL_CTL_MOD p s)"

definition removeChannel :: "'k epoll_ctl \<Rightarrow> chan_ptr \<Rightarrow> 'k poller \<Rightarrow> 'k poller result" where
  "removeChannel ctl p s =
     (let s0 = s\<lparr>channels := (channels s)(fd (chan s p) := None)\<rparr> in
      bindR (if index (chan s0 p) = kAdded then update ctl EPOLL_CTL_DEL p s0 else Inr s0) (\<lambda>s1.
        Inr (upd_chan p (\<lambda>c. c\<lparr>index := kNew\<rparr>) s1)))"

text \<open>The operations of a channel that go through its loop to the poller.\<close>

definition enableReading :: "'k epoll_ctl \<Rightarrow> chan_ptr \<Rightarrow> 'k poller \<Rightarrow> 'k poller result" where
  "enableReading ctl p s =
     updateChannel ctl p (upd_chan p (\<lambda>c. c\<lparr>events := events c OR kReadEvent\<rparr>) s)"

definition disableReading :: "'k epoll_ctl \<Rightarrow> chan_ptr \<Rightarrow> 'k poller \<Rightarrow> 'k poller result" where
  "disableReading ctl p s =
     updateChannel ctl p (upd_chan p (\<lambda>c. c\<lparr>events := events c AND NOT kReadEvent\<rparr>) s)"

definition enableWriting :: "'k epoll_ctl \<Rightarrow> chan_ptr \<Rightarrow> 'k poller \<Rightarrow> 'k poller result" where
  "enableWriting ctl p s =
     updateChannel ctl p (upd_chan p (\<lambda>c. c\<lparr>events := events c OR kWriteEvent\<rparr>) s)"

definition disableWriting :: "'k epoll_ctl \<Rightarrow> chan_ptr \<Rightarrow> 'k poller \<Rightarrow> 'k poller result" where
  "disableWriting ctl p s =
     updateChannel ctl p (upd_chan p (\<lambda>c. c\<lparr>events := events c AND NOT kWriteEvent\<rparr>) s)"

definition disableAll :: "'k epoll_ctl \<Rightarrow> chan_ptr \<Rightarrow> 'k poller \<Rightarrow> 'k poller result" where
  "disableAll ctl p s = updateChannel ctl p (upd_chan p (\<lambda>c. c\<lparr>events := kNoneEvent\<rparr>) s)"

text \<open>
  \<^verbatim>\<open>poll\<close>: \<open>wait\<close> is what \<^verbatim>\<open>epoll_wait\<close> returned for the given vector size, an errno or the
  reported (mask, pointer) pairs. The result is the list of active channels.
\<close>

definition fillActiveChannels ::
    "(evmask \<times> chan_ptr) list \<Rightarrow> 'k poller \<Rightarrow> chan_ptr list \<times> 'k poller" where
  "fillActiveChannels evs s =
     fold (\<lambda>(ev, p) (act, s). (act @ [p], upd_chan p (\<lambda>c. c\<lparr>revents := ev\<rparr>) s)) evs ([], s)"

definition poll ::
    "(nat \<Rightarrow> int + (evmask \<times> chan_ptr) list) \<Rightarrow> 'k poller \<Rightarrow> chan_ptr list \<times> 'k poller" where
  "poll wait s =
     (case wait (ev_size s) of
        Inl err \<Rightarrow> ([], s)
      | Inr evs \<Rightarrow>
          if length evs > 0 then
            let (act, s1) = fillActiveChannels evs s
            in (act, if length evs = ev_size s1 then s1\<lparr>ev_size := ev_size s1 * 2\<rparr> else s1)
          else ([], s))"

section \<open>What the poller relies on of epoll\<close>

text \<open>
  The interest list of an epoll instance, as documented in \<^verbatim>\<open>epoll_ctl(2)\<close>: adding a valid
  descriptor that is not in the list, and changing or removing one that is, succeeds and does
  just that.
\<close>

definition epoll_spec ::
    "'k epoll_ctl \<Rightarrow> ('k \<Rightarrow> int \<Rightarrow> (evmask \<times> chan_ptr) option) \<Rightarrow> (int \<Rightarrow> bool) \<Rightarrow> bool" where
  "epoll_spec ctl interest valid \<longleftrightarrow>
     (\<forall>k f ev. valid f \<longrightarrow>
        (interest k f = None \<longrightarrow> fst (ctl EPOLL_CTL_ADD f ev k) \<and>
           interest (snd (ctl EPOLL_CTL_ADD f ev k)) = (interest k)(f \<mapsto> ev)) \<and>
        (interest k f \<noteq> None \<longrightarrow> fst (ctl EPOLL_CTL_MOD f ev k) \<and>
           interest (snd (ctl EPOLL_CTL_MOD f ev k)) = (interest k)(f \<mapsto> ev)) \<and>
        (interest k f \<noteq> None \<longrightarrow> fst (ctl EPOLL_CTL_DEL f ev k) \<and>
           interest (snd (ctl EPOLL_CTL_DEL f ev k)) = (interest k)(f := None)))"

text \<open>
  The poller and the kernel agree: for the channels \<open>U\<close>, on different valid descriptors, the
  index of a channel says whether it is in the map and in the interest list, and the interest
  list holds the channel's current event mask, except for the channel \<open>x\<close> whose mask was just
  changed.
\<close>

definition in_sync ::
    "('k \<Rightarrow> int \<Rightarrow> (evmask \<times> chan_ptr) option) \<Rightarrow> (int \<Rightarrow> bool) \<Rightarrow> chan_ptr set \<Rightarrow>
     chan_ptr option \<Rightarrow> 'k poller \<Rightarrow> bool" where
  "in_sync interest valid U x s \<longleftrightarrow>
     inj_on (\<lambda>p. fd (chan s p)) U \<and>
     (\<forall>p\<in>U. valid (fd (chan s p)) \<and> index (chan s p) \<in> {kNew, kAdded, kDeleted} \<and>
        (channels s (fd (chan s p)) = (if index (chan s p) = kNew then None else Some p)) \<and>
        (if index (chan s p) = kAdded
         then \<exists>m. interest (kern s) (fd (chan s p)) = Some (m, p) \<and>
                  (x = Some p \<or> m = events (chan s p))
         else interest (kern s) (fd (chan s p)) = None))"

lemma index_consts [simp]: "kNew \<noteq> kAdded" "kAdded \<noteq> kNew" "kDeleted \<noteq> kAdded" "kAdded \<noteq> kDeleted"
  "kNew \<noteq> kDeleted" "kDeleted \<noteq> kNew"
  by (simp_all add: kNew_def kAdded_def kDeleted_def)

lemma upd_chan_simps [simp]:
  "chan (upd_chan p f s) = (chan s)(p := f (chan s p))" "channels (upd_chan p f s) = channels s"
  "kern (upd_chan p f s) = kern s" "ev_size (upd_chan p f s) = ev_size s"
  by (simp_all add: upd_chan_def)

lemma in_sync_set_events:
  assumes s: "in_sync interest valid U None s" and p: "p \<in> U"
  shows "in_sync interest valid U (Some p) (upd_chan p (\<lambda>c. c\<lparr>events := f c\<rparr>) s)"
    (is "in_sync _ _ _ _ ?t")
proof -
  have inj: "inj_on (\<lambda>q. fd (chan s q)) U" using s by (simp add: in_sync_def)
  have same: "fd (chan ?t q) = fd (chan s q)" "index (chan ?t q) = index (chan s q)" for q
    by simp_all
  have ev: "events (chan ?t q) = events (chan s q)" if "q \<noteq> p" for q
    using that by simp
  show ?thesis
    unfolding in_sync_def same upd_chan_simps(2,3)
  proof (intro conjI ballI inj)
    fix q assume q: "q \<in> U"
    show "if index (chan s q) = kAdded
       then \<exists>m. interest (kern s) (fd (chan s q)) = Some (m, q) \<and>
                (Some p = Some q \<or> m = events (chan ?t q))
       else interest (kern s) (fd (chan s q)) = None"
      using s q ev [of q] by (cases "q = p") (auto simp: in_sync_def)
  qed (use s in \<open>simp_all add: in_sync_def\<close>)
qed

text \<open>The fields that \<open>in_sync\<close> looks at, after the kernel's list changed at one descriptor.\<close>

lemma in_sync_at:
  assumes s: "in_sync interest valid U (Some p) s" and p: "p \<in> U"
    and i: "i \<in> {kNew, kAdded, kDeleted}"
    and ch: "channels t = (channels s)(fd (chan s p) := if i = kNew then None else Some p)"
    and ck: "chan t = (chan s)(p := (chan s p)\<lparr>index := i\<rparr>)"
    and kn: "interest (kern t) = (interest (kern s))
               (fd (chan s p) := if i = kAdded then Some (events (chan s p), p) else None)"
  shows "in_sync interest valid U None t"
proof -
  have inj: "inj_on (\<lambda>q. fd (chan s q)) U" using s by (simp add: in_sync_def)
  have fds: "fd (chan t q) = fd (chan s q)" for q by (simp add: ck)
  have other: "fd (chan s q) \<noteq> fd (chan s p)" if "q \<in> U" "q \<noteq> p" for q
    using inj that p by (auto simp: inj_on_def)
  show ?thesis
    unfolding in_sync_def fds
  proof (intro conjI ballI inj)
    fix q assume q: "q \<in> U"
    show "valid (fd (chan s q))" using s q by (simp add: in_sync_def)
    show "index (chan t q) \<in> {kNew, kAdded, kDeleted}"
      using s q i by (simp add: in_sync_def ck)
    show "channels t (fd (chan s q)) = (if index (chan t q) = kNew then None else Some q)"
      using s q other [OF q] by (cases "q = p") (simp_all add: in_sync_def ck ch)
    show "if index (chan t q) = kAdded
       then \<exists>m. interest (kern t) (fd (chan s q)) = Some (m, q) \<and>
                (None = Some q \<or> m = events (chan t q))
       else interest (kern t) (fd (chan s q)) = None"
      using s q other [OF q] by (cases "q = p") (auto simp: in_sync_def ck kn)
  qed
qed


section \<open>Every operation keeps poller and kernel in agreement\<close>

lemma epoll_specD:
  assumes "epoll_spec ctl interest valid" "valid f"
  shows "interest k f = None \<Longrightarrow> fst (ctl EPOLL_CTL_ADD f ev k) \<and>
           interest (snd (ctl EPOLL_CTL_ADD f ev k)) = (interest k)(f \<mapsto> ev)"
    "interest k f \<noteq> None \<Longrightarrow> fst (ctl EPOLL_CTL_MOD f ev k) \<and>
           interest (snd (ctl EPOLL_CTL_MOD f ev k)) = (interest k)(f \<mapsto> ev)"
    "interest k f \<noteq> None \<Longrightarrow> fst (ctl EPOLL_CTL_DEL f ev k) \<and>
           interest (snd (ctl EPOLL_CTL_DEL f ev k)) = (interest k)(f := None)"
  using assms unfolding epoll_spec_def by blast+

lemma update_eq:
  assumes "fst (ctl op (fd (chan s p)) (events (chan s p), p) (kern s)) \<or> op = EPOLL_CTL_DEL"
  shows "update ctl op p s =
    Inr (s\<lparr>kern := snd (ctl op (fd (chan s p)) (events (chan s p), p) (kern s))\<rparr>)"
  using assms by (auto simp: update_def Let_def split: prod.splits)

lemma in_syncD:
  assumes "in_sync interest valid U x s" "p \<in> U"
  shows "valid (fd (chan s p))" "index (chan s p) \<in> {kNew, kAdded, kDeleted}"
    "channels s (fd (chan s p)) = (if index (chan s p) = kNew then None else Some p)"
    "index (chan s p) = kAdded \<Longrightarrow> \<exists>m. interest (kern s) (fd (chan s p)) = Some (m, p)"
    "index (chan s p) \<noteq> kAdded \<Longrightarrow> interest (kern s) (fd (chan s p)) = None"
  using assms by (auto simp: in_sync_def split: if_splits)

definition index_after :: "channel \<Rightarrow> int" where
  "index_after c = (if index c = kAdded \<and> events c = kNoneEvent then kDeleted else kAdded)"

lemma updateChannel_ok:
  assumes ep: "epoll_spec ctl interest valid" and s: "in_sync interest valid U (Some p) s"
    and p: "p \<in> U"
  shows "\<exists>t. updateChannel ctl p s = Inr t \<and> in_sync interest valid U None t \<and>
    chan t = (chan s)(p := (chan s p)\<lparr>index := index_after (chan s p)\<rparr>)"
proof -
  note sp = in_syncD [OF s p]
  note ctl = epoll_specD [OF ep sp(1)]
  let ?f = "fd (chan s p)" and ?ev = "(events (chan s p), p)"
  consider (add) "index (chan s p) = kNew \<or> index (chan s p) = kDeleted"
    | (del) "index (chan s p) = kAdded" "events (chan s p) = kNoneEvent"
    | (modif) "index (chan s p) = kAdded" "events (chan s p) \<noteq> kNoneEvent"
    using sp(2) by auto
  then show ?thesis
  proof cases
    case add
    then have none: "interest (kern s) ?f = None" using sp(5) by auto
    note c = ctl(1) [OF none, of ?ev]
    let ?t = "upd_chan p (\<lambda>c. c\<lparr>index := kAdded\<rparr>)
       (s\<lparr>channels := (channels s)(?f \<mapsto> p)\<rparr>)\<lparr>kern := snd (ctl EPOLL_CTL_ADD ?f ?ev (kern s))\<rparr>"
    have ch: "channels s = (channels s)(?f \<mapsto> p)" if "index (chan s p) = kDeleted"
      using sp(3) that by (simp add: fun_upd_idem)
    have "updateChannel ctl p s = Inr ?t"
      using add c ch
      by (auto simp: updateChannel_def Let_def update_eq upd_chan_def)
    moreover have "in_sync interest valid U None ?t"
      by (rule in_sync_at [OF s p, of kAdded]) (use c in \<open>simp_all\<close>)
    ultimately show ?thesis
      using add by (auto simp: index_after_def)
  next
    case del
    then have some: "interest (kern s) ?f \<noteq> None" using sp(4) by auto
    note c = ctl(3) [OF some, of ?ev]
    let ?t = "upd_chan p (\<lambda>c. c\<lparr>index := kDeleted\<rparr>)
       (s\<lparr>kern := snd (ctl EPOLL_CTL_DEL ?f ?ev (kern s))\<rparr>)"
    have "updateChannel ctl p s = Inr ?t"
      using del by (simp add: updateChannel_def Let_def update_eq isNonEvents_def)
    moreover have "in_sync interest valid U None ?t"
      by (rule in_sync_at [OF s p, of kDeleted]) (use c del sp(3) in \<open>simp_all add: fun_upd_idem\<close>)
    ultimately show ?thesis
      using del by (auto simp: index_after_def)
  next
    case modif
    then have some: "interest (kern s) ?f \<noteq> None" using sp(4) by auto
    note c = ctl(2) [OF some, of ?ev]
    let ?t = "s\<lparr>kern := snd (ctl EPOLL_CTL_MOD ?f ?ev (kern s))\<rparr>"
    have "updateChannel ctl p s = Inr ?t"
      using modif c by (simp add: updateChannel_def Let_def update_eq isNonEvents_def)
    moreover have "in_sync interest valid U None ?t"
      by (rule in_sync_at [OF s p, of kAdded])
        (use c modif sp(3) in \<open>simp_all add: fun_upd_idem\<close>)
    ultimately show ?thesis
      using modif by (simp add: index_after_def fun_upd_idem)
  qed
qed

lemma in_sync_weaken: "in_sync interest valid U None s \<Longrightarrow> in_sync interest valid U (Some p) s"
  by (auto simp: in_sync_def)

lemma removeChannel_ok:
  assumes ep: "epoll_spec ctl interest valid" and s: "in_sync interest valid U None s"
    and p: "p \<in> U"
  shows "\<exists>t. removeChannel ctl p s = Inr t \<and> in_sync interest valid U None t \<and>
    chan t = (chan s)(p := (chan s p)\<lparr>index := kNew\<rparr>)"
proof -
  note sp = in_syncD [OF s p]
  let ?f = "fd (chan s p)" and ?ev = "(events (chan s p), p)"
  define k where "k = (if index (chan s p) = kAdded
     then snd (ctl EPOLL_CTL_DEL ?f ?ev (kern s)) else kern s)"
  have kn: "interest k = (interest (kern s))(?f := None)"
    using epoll_specD(3) [OF ep sp(1), of "kern s" ?ev] sp(4,5)
    by (cases "index (chan s p) = kAdded") (auto simp: k_def fun_upd_idem)
  let ?t = "upd_chan p (\<lambda>c. c\<lparr>index := kNew\<rparr>) (s\<lparr>channels := (channels s)(?f := None), kern := k\<rparr>)"
  have "removeChannel ctl p s = Inr ?t"
    by (simp add: removeChannel_def Let_def update_eq k_def)
  moreover have "in_sync interest valid U None ?t"
    by (rule in_sync_at [OF in_sync_weaken [OF s] p, of kNew]) (simp_all add: kn)
  ultimately show ?thesis by auto
qed


section \<open>The interface: a registry of channels\<close>

datatype chan_op =
    EnableReading | DisableReading | EnableWriting | DisableWriting | DisableAll | Remove

fun chan_step :: "'k epoll_ctl \<Rightarrow> chan_op \<Rightarrow> chan_ptr \<Rightarrow> 'k poller \<Rightarrow> 'k poller result" where
  "chan_step ctl EnableReading p s = enableReading ctl p s"
| "chan_step ctl DisableReading p s = disableReading ctl p s"
| "chan_step ctl EnableWriting p s = enableWriting ctl p s"
| "chan_step ctl DisableWriting p s = disableWriting ctl p s"
| "chan_step ctl DisableAll p s = disableAll ctl p s"
| "chan_step ctl Remove p s = removeChannel ctl p s"

text \<open>
  What the owners of channels (event loop, acceptor, connection, timer queue) rely on: any
  operation on a channel succeeds and keeps the registry's invariant.
\<close>

locale channel_registry =
  fixes step :: "'o \<Rightarrow> 'p \<Rightarrow> 's \<Rightarrow> 's result"
    and inv :: "'s \<Rightarrow> bool"
    and members :: "'p set"
  assumes step_ok: "inv s \<Longrightarrow> p \<in> members \<Longrightarrow> \<exists>t. step x p s = Inr t \<and> inv t"
begin

lemma run_ok:
  assumes "inv s" "snd ` set ops \<subseteq> members"
  shows "\<exists>t. foldR (\<lambda>(x, p). step x p) ops s = Inr t \<and> inv t"
  using assms
proof (induction ops arbitrary: s)
  case (Cons xp ops)
  obtain x p where xp: "xp = (x, p)" by (cases xp)
  with Cons.prems obtain t where "step x p s = Inr t" "inv t"
    using step_ok [of s p x] by auto
  with Cons show ?case by (simp add: xp)
qed simp

end

lemma chan_step_ok:
  assumes ep: "epoll_spec ctl interest valid" and s: "in_sync interest valid U None s"
    and p: "p \<in> U"
  shows "\<exists>t. chan_step ctl x p s = Inr t \<and> in_sync interest valid U None t"
proof -
  have upd: "\<exists>t. updateChannel ctl p (upd_chan p (\<lambda>c. c\<lparr>events := f c\<rparr>) s) = Inr t \<and>
      in_sync interest valid U None t" for f
    using updateChannel_ok [OF ep in_sync_set_events [OF s p] p] by blast
  show ?thesis
    using upd removeChannel_ok [OF ep s p]
    by (cases x) (auto simp: enableReading_def disableReading_def enableWriting_def
        disableWriting_def disableAll_def)
qed

interpretation reg: channel_registry "chan_step ctl"
    "\<lambda>s. epoll_spec ctl interest valid \<and> in_sync interest valid U None s" U
  for ctl interest valid U
  by unfold_locales (use chan_step_ok in blast)

text \<open>Whether or not the kernel cooperates, a channel operation touches one channel's mask and index.\<close>

lemma update_chan: "update ctl operation p s = Inr t \<Longrightarrow> chan t = chan s"
  by (auto simp: update_def Let_def split: prod.splits if_splits)

lemma updateChannel_chan:
  assumes "updateChannel ctl p s = Inr t"
  shows "\<exists>i. chan t = (chan s)(p := (chan s p)\<lparr>index := i\<rparr>)"
proof -
  have same: "chan s = (chan s)(p := (chan s p)\<lparr>index := index (chan s p)\<rparr>)" by simp
  consider "index (chan s p) = kNew \<or> index (chan s p) = kDeleted"
    | "index (chan s p) \<noteq> kNew" "index (chan s p) \<noteq> kDeleted" "isNonEvents (chan s p)"
    | "index (chan s p) \<noteq> kNew" "index (chan s p) \<noteq> kDeleted" "\<not> isNonEvents (chan s p)"
    by blast
  then show ?thesis
  proof cases
    case 1
    then have "chan t = (chan s)(p := (chan s p)\<lparr>index := kAdded\<rparr>)"
      using assms by (auto simp: updateChannel_def Let_def dest!: update_chan)
    then show ?thesis by blast
  next
    case 2
    then have "chan t = (chan s)(p := (chan s p)\<lparr>index := kDeleted\<rparr>)"
      using assms by (auto simp: updateChannel_def Let_def bindR_eq_Inr dest!: update_chan)
    then show ?thesis by blast
  next
    case 3
    then have "chan t = chan s"
      using assms by (simp add: updateChannel_def Let_def update_chan)
    then show ?thesis using same by metis
  qed
qed

fun mask_after :: "chan_op \<Rightarrow> evmask \<Rightarrow> evmask" where
  "mask_after EnableReading m = m OR kReadEvent"
| "mask_after DisableReading m = m AND NOT kReadEvent"
| "mask_after EnableWriting m = m OR kWriteEvent"
| "mask_after DisableWriting m = m AND NOT kWriteEvent"
| "mask_after DisableAll m = kNoneEvent"
| "mask_after Remove m = m"

lemma chan_step_chan:
  assumes "chan_step ctl x p s = Inr t"
  shows "\<exists>i. chan t = (chan s)(p := (chan s p)\<lparr>events := mask_after x (events (chan s p)), index := i\<rparr>)"
  using assms
  by (cases x)
    (auto simp: enableReading_def disableReading_def enableWriting_def disableWriting_def
      disableAll_def removeChannel_def Let_def bindR_eq_Inr
      dest!: updateChannel_chan update_chan split: if_splits)

lemma only_EnableWriting_sets_writing:
  assumes "x \<noteq> EnableWriting" "m AND kWriteEvent = 0"
  shows "mask_after x m AND kWriteEvent = 0"
proof -
  have clear: "(m AND y) AND kWriteEvent = 0" for y
  proof -
    have "(m AND y) AND kWriteEvent = (m AND kWriteEvent) AND y"
      by (simp only: and.assoc and.commute [of y])
    then show ?thesis by (simp add: assms(2))
  qed
  have "(m OR kReadEvent) AND kWriteEvent = m AND kWriteEvent OR kReadEvent AND kWriteEvent"
    by (simp add: bit.conj_disj_distrib2)
  also have "kReadEvent AND kWriteEvent = 0"
    by (simp add: kReadEvent_def kWriteEvent_def EPOLLIN_def EPOLLPRI_def EPOLLOUT_def)
  finally show ?thesis using assms clear by (cases x) (simp_all add: kNoneEvent_def)
qed

section \<open>Polling\<close>

lemma fillActiveChannels_spec:
  "fold (\<lambda>(ev, p) (act, s). (act @ [p], upd_chan p (\<lambda>c. c\<lparr>revents := ev\<rparr>) s)) evs (act, s) =
    (act @ map snd evs,
     s\<lparr>chan := (\<lambda>p. case map_of (map prod.swap (rev evs)) p of None \<Rightarrow> chan s p
                    | Some ev \<Rightarrow> (chan s p)\<lparr>revents := ev\<rparr>)\<rparr>)"
proof (induction evs arbitrary: act s)
  case (Cons e evs)
  then show ?case
    by (cases e) (auto simp: upd_chan_def map_add_def fun_eq_iff split: option.splits)
qed simp

section \<open>Properties\<close>

text \<open>
  C10: channels, poller and kernel stay in agreement. Starting from a synchronized poller, any
  sequence of the six channel operations on its channels succeeds (no \<^verbatim>\<open>LOG_FAT\<close> exit for a
  rejected \<^verbatim>\<open>epoll_ctl\<close>), and afterwards the epoll interest list holds every channel whose index
  is \<^verbatim>\<open>kAdded\<close> with exactly its current event mask, and none of the others.
\<close>

theorem channel_operations_in_sync:
  assumes "epoll_spec ctl interest valid" "in_sync interest valid U None s"
    and "snd ` set ops \<subseteq> U"
  shows "\<exists>t. foldR (\<lambda>(x, p). chan_step ctl x p) ops s = Inr t \<and> in_sync interest valid U None t \<and>
    (\<forall>p\<in>U. interest (kern t) (fd (chan t p)) =
       (if index (chan t p) = kAdded then Some (events (chan t p), p) else None))"
proof -
  obtain t where "foldR (\<lambda>(x, p). chan_step ctl x p) ops s = Inr t" "in_sync interest valid U None t"
    using reg.run_ok [of ctl interest valid U s ops] assms by blast
  then show ?thesis by (auto simp: in_sync_def)
qed

definition simple_epoll :: "(int \<Rightarrow> (evmask \<times> chan_ptr) option) epoll_ctl" where
  "simple_epoll op f ev k =
     (case op of EPOLL_CTL_ADD \<Rightarrow> (k f = None, k(f \<mapsto> ev))
      | EPOLL_CTL_MOD \<Rightarrow> (k f \<noteq> None, k(f \<mapsto> ev))
      | EPOLL_CTL_DEL \<Rightarrow> (k f \<noteq> None, k(f := None)))"

lemma simple_epoll_spec: "epoll_spec simple_epoll id (\<lambda>f. 0 \<le> f)"
  by (simp add: epoll_spec_def simple_epoll_def)

theorem channel_operations_in_sync_witness:
  "\<exists>t. foldR (\<lambda>(x, p). chan_step simple_epoll x p)
         [(EnableReading, 1), (EnableWriting, 1), (EnableReading, 2), (DisableAll, 1)]
         \<lparr>chan = (\<lambda>p. Channel_new (int p)), channels = (\<lambda>_. None), kern = (\<lambda>_. None), ev_size = 16\<rparr>
       = Inr t \<and>
     (\<forall>p\<in>{1, 2}. kern t (fd (chan t p)) =
       (if index (chan t p) = kAdded then Some (events (chan t p), p) else None))"
proof -
  let ?s = "\<lparr>chan = (\<lambda>p. Channel_new (int p)), channels = (\<lambda>_. None),
             kern = (\<lambda>_ :: int. None :: (evmask \<times> chan_ptr) option), ev_size = 16\<rparr>"
  let ?ops = "[(EnableReading, 1), (EnableWriting, 1), (EnableReading, 2), (DisableAll, 1)]"
  have "in_sync id (\<lambda>f. 0 \<le> f) {1, 2} None ?s"
    by (simp add: in_sync_def Channel_new_def kNew_def kAdded_def)
  from channel_operations_in_sync [OF simple_epoll_spec this, of ?ops] show ?thesis
    by (auto simp: id_def)
qed

text \<open>
  \<^verbatim>\<open>EpollPoller::poll\<close> reports the channels of the kernel's events in the kernel's order,
  stores each reported mask as the channel's \<^verbatim>\<open>revents\<close> (the last one, should a channel be
  reported twice), changes no other channel and no registration, and doubles the event vector
  exactly when it came back full; an error or a timeout changes nothing.
\<close>

theorem poll_reports:
  "poll wait s =
    (case wait (ev_size s) of Inl err \<Rightarrow> ([], s) | Inr evs \<Rightarrow>
       (map snd evs,
        s\<lparr>chan := (\<lambda>p. case map_of (map prod.swap (rev evs)) p of None \<Rightarrow> chan s p
                       | Some ev \<Rightarrow> (chan s p)\<lparr>revents := ev\<rparr>),
          ev_size := if evs \<noteq> [] \<and> length evs = ev_size s then 2 * ev_size s else ev_size s\<rparr>))"
  by (cases "wait (ev_size s)")
    (auto simp: poll_def fillActiveChannels_def fillActiveChannels_spec)

end
