(* ===== verification/EventLoop.thy ===== *)
theory EventLoop
  imports Prelude
begin

text \<open>
  The event loop (\<^verbatim>\<open>src/net/EventLoop.cc\<close>): its pending functors, the wake-up descriptor and
  the phases of \<^verbatim>\<open>loop()\<close>, first as operations, then as a step relation in which other threads
  queue functors at any moment between the steps of the loop thread. The thread id is that of
  \<^verbatim>\<open>src/base/CurrentThread.cc\<close>. The eventfd is a parameter with a write, a read and a
  readiness test.
\<close>

section \<open>Thread ids\<close>

text \<open>
  \<^verbatim>\<open>CurrentThread::tid()\<close>: the cached id of the calling thread; an empty cache (0) is filled
  with \<^verbatim>\<open>syscall(SYS_getpid)\<close>. The result is the id and the new cache.
\<close>

definition cachedTid :: "int \<Rightarrow> int \<Rightarrow> int" where
  "cachedTid sys_getpid t_cachedTid = (if t_cachedTid = 0 then sys_getpid else t_cachedTid)"

definition CurrentThread_tid :: "int \<Rightarrow> int \<Rightarrow> int \<times> int" where
  "CurrentThread_tid sys_getpid t_cachedTid =
     (let t = (if t_cachedTid = 0 then cachedTid sys_getpid t_cachedTid else t_cachedTid)
      in (t, t))"

section \<open>State and operations\<close>

text \<open>
  \<open>todo\<close> are the functors taken over by the current call of \<^verbatim>\<open>doPendingFunctors\<close>, \<open>executed\<close> and
  \<open>queued\<close> record the functors run and queued so far.
\<close>

record ('f, 'e) event_loop =
  quit_flag :: bool
  callingPendingFunctors :: bool
  threadId :: int
  wakeupFd :: 'e
  pendingFunctors :: "'f list"
  todo :: "'f list"
  executed :: "'f list"
  queued :: "'f list"

definition EventLoop_new :: "int \<Rightarrow> 'e \<Rightarrow> ('f, 'e) event_loop" where
  "EventLoop_new tid efd =
     \<lparr>quit_flag = False, callingPendingFunctors = False, threadId = tid, wakeupFd = efd,
      pendingFunctors = [], todo = [], executed = [], queued = []\<rparr>"

definition isInLoopThread :: "int \<Rightarrow> ('f, 'e) event_loop \<Rightarrow> bool" where
  "isInLoopThread tid l \<longleftrightarrow> threadId l = tid"

definition wakeup :: "('e \<Rightarrow> 'e) \<Rightarrow> ('f, 'e) event_loop \<Rightarrow> ('f, 'e) event_loop" where
  "wakeup efd_write l = l\<lparr>wakeupFd := efd_write (wakeupFd l)\<rparr>"

definition loop_handleRead :: "('e \<Rightarrow> 'e) \<Rightarrow> ('f, 'e) event_loop \<Rightarrow> ('f, 'e) event_loop" where
  "loop_handleRead efd_read l = l\<lparr>wakeupFd := efd_read (wakeupFd l)\<rparr>"

text \<open>\<^verbatim>\<open>quit\<close> is a store to the atomic flag followed by the decision to wake up.\<close>

definition quit_store :: "('f, 'e) event_loop \<Rightarrow> ('f, 'e) event_loop" where
  "quit_store l = l\<lparr>quit_flag := True\<rparr>"

definition quit_notify :: "('e \<Rightarrow> 'e) \<Rightarrow> int \<Rightarrow> ('f, 'e) event_loop \<Rightarrow> ('f, 'e) event_loop" where
  "quit_notify efd_write tid l = (if \<not> isInLoopThread tid l then wakeup efd_write l else l)"

definition quit :: "('e \<Rightarrow> 'e) \<Rightarrow> int \<Rightarrow> ('f, 'e) event_loop \<Rightarrow> ('f, 'e) event_loop" where
  "quit efd_write tid l = quit_notify efd_write tid (quit_store l)"

text \<open>\<^verbatim>\<open>queueInLoop\<close> is a push under the mutex followed, outside it, by the decision to wake up.\<close>

definition queueInLoop_push :: "'f \<Rightarrow> ('f, 'e) event_loop \<Rightarrow> ('f, 'e) event_loop" where
  "queueInLoop_push cb l =
     l\<lparr>pendingFunctors := pendingFunctors l @ [cb], queued := queued l @ [cb]\<rparr>"

definition queueInLoop_notify ::
    "('e \<Rightarrow> 'e) \<Rightarrow> int \<Rightarrow> ('f, 'e) event_loop \<Rightarrow> ('f, 'e) event_loop" where
  "queueInLoop_notify efd_write tid l =
     (if \<not> isInLoopThread tid l \<or> callingPendingFunctors l then wakeup efd_write l else l)"

definition queueInLoop ::
    "('e \<Rightarrow> 'e) \<Rightarrow> int \<Rightarrow> 'f \<Rightarrow> ('f, 'e) event_loop \<Rightarrow> ('f, 'e) event_loop" where
  "queueInLoop efd_write tid cb l = queueInLoop_notify efd_write tid (queueInLoop_push cb l)"

text \<open>\<^verbatim>\<open>runInLoop\<close>: \<open>run\<close> is the effect of the functor when it is called right away.\<close>

definition runInLoop ::
    "('e \<Rightarrow> 'e) \<Rightarrow> ('f \<Rightarrow> ('f, 'e) event_loop \<Rightarrow> ('f, 'e) event_loop) \<Rightarrow> int \<Rightarrow> 'f \<Rightarrow>
     ('f, 'e) event_loop \<Rightarrow> ('f, 'e) event_loop" where
  "runInLoop efd_write run tid cb l =
     (if isInLoopThread tid l then run cb l else queueInLoop efd_write tid cb l)"

text \<open>\<^verbatim>\<open>doPendingFunctors\<close> in its steps: announce, swap under the mutex, call one by one, finish.\<close>

definition doPending_announce :: "('f, 'e) event_loop \<Rightarrow> ('f, 'e) event_loop" where
  "doPending_announce l = l\<lparr>callingPendingFunctors := True\<rparr>"

definition doPending_swap :: "('f, 'e) event_loop \<Rightarrow> ('f, 'e) event_loop" where
  "doPending_swap l = l\<lparr>todo := pendingFunctors l, pendingFunctors := []\<rparr>"

definition doPending_call :: "('f, 'e) event_loop \<Rightarrow> ('f, 'e) event_loop" where
  "doPending_call l =
     (case todo l of [] \<Rightarrow> l
      | f # fs \<Rightarrow> l\<lparr>todo := fs, executed := executed l @ [f]\<rparr>)"

definition doPending_finish :: "('f, 'e) event_loop \<Rightarrow> ('f, 'e) event_loop" where
  "doPending_finish l = l\<lparr>callingPendingFunctors := False\<rparr>"

text \<open>The whole function; \<open>run\<close> is what a functor does to the loop beside being called.\<close>

fun call_all ::
    "('f \<Rightarrow> ('f, 'e) event_loop \<Rightarrow> ('f, 'e) event_loop) \<Rightarrow> 'f list \<Rightarrow> ('f, 'e) event_loop \<Rightarrow>
     ('f, 'e) event_loop" where
  "call_all run [] l = l"
| "call_all run (f # fs) l = call_all run fs (run f (doPending_call l))"

definition doPendingFunctors ::
    "('f \<Rightarrow> ('f, 'e) event_loop \<Rightarrow> ('f, 'e) event_loop) \<Rightarrow> ('f, 'e) event_loop \<Rightarrow> ('f, 'e) event_loop"
  where
  "doPendingFunctors run l =
     (let l1 = doPending_swap (doPending_announce l)
      in doPending_finish (call_all run (todo l1) l1))"

section \<open>Interleavings\<close>

text \<open>
  The phases of \<^verbatim>\<open>loop()\<close>: blocked in or returning from \<^verbatim>\<open>poll\<close>; handling active channels; the
  two parts of \<^verbatim>\<open>doPendingFunctors\<close> before and after the swap; left.
\<close>

datatype phase = Polling | Handling | Announced | Calling | Stopped

text \<open>
  \<open>notifying\<close> and \<open>quitting\<close> are the other threads between the two parts of \<^verbatim>\<open>queueInLoop\<close> and
  of \<^verbatim>\<open>quit\<close>.
\<close>

record ('f, 'e) system =
  loop :: "('f, 'e) event_loop"
  phase :: phase
  notifying :: "nat set"
  quitting :: "nat set"

text \<open>
  \<open>tid t\<close> is the thread id that thread \<open>t\<close> sees; thread 0 runs the loop. Its steps are the
  \<open>l_\<close> rules, those of the others the \<open>o_\<close> rules. \<^verbatim>\<open>poll\<close> may return at any time, for the
  wake-up descriptor, another descriptor or the timeout.
\<close>

inductive sys_step ::
    "('e \<Rightarrow> 'e) \<Rightarrow> ('e \<Rightarrow> 'e) \<Rightarrow> (nat \<Rightarrow> int) \<Rightarrow> ('f, 'e) system \<Rightarrow> ('f, 'e) system \<Rightarrow> bool"
  for efd_write efd_read tid where
  l_poll: "phase s = Polling \<Longrightarrow> sys_step efd_write efd_read tid s (s\<lparr>phase := Handling\<rparr>)"
| l_read: "phase s = Handling \<Longrightarrow>
    sys_step efd_write efd_read tid s (s\<lparr>loop := loop_handleRead efd_read (loop s)\<rparr>)"
| l_queue: "phase s = Handling \<or> phase s = Calling \<Longrightarrow>
    sys_step efd_write efd_read tid s (s\<lparr>loop := queueInLoop efd_write (tid 0) f (loop s)\<rparr>)"
| l_quit: "phase s = Handling \<or> phase s = Calling \<Longrightarrow>
    sys_step efd_write efd_read tid s (s\<lparr>loop := quit efd_write (tid 0) (loop s)\<rparr>)"
| l_announce: "phase s = Handling \<Longrightarrow>
    sys_step efd_write efd_read tid s (s\<lparr>loop := doPending_announce (loop s), phase := Announced\<rparr>)"
| l_swap: "phase s = Announced \<Longrightarrow>
    sys_step efd_write efd_read tid s (s\<lparr>loop := doPending_swap (loop s), phase := Calling\<rparr>)"
| l_call: "phase s = Calling \<Longrightarrow> todo (loop s) \<noteq> [] \<Longrightarrow>
    sys_step efd_write efd_read tid s (s\<lparr>loop := doPending_call (loop s)\<rparr>)"
| l_finish: "phase s = Calling \<Longrightarrow> todo (loop s) = [] \<Longrightarrow>
    sys_step efd_write efd_read tid s
      (s\<lparr>loop := doPending_finish (loop s),
         phase := if quit_flag (loop s) then Stopped else Polling\<rparr>)"
| o_push: "0 < t \<Longrightarrow> t \<notin> notifying s \<Longrightarrow>
    sys_step efd_write efd_read tid s
      (s\<lparr>loop := queueInLoop_push f (loop s), notifying := insert t (notifying s)\<rparr>)"
| o_notify: "t \<in> notifying s \<Longrightarrow>
    sys_step efd_write efd_read tid s
      (s\<lparr>loop := queueInLoop_notify efd_write (tid t) (loop s), notifying := notifying s - {t}\<rparr>)"
| o_quit: "0 < t \<Longrightarrow> t \<notin> quitting s \<Longrightarrow>
    sys_step efd_write efd_read tid s
      (s\<lparr>loop := quit_store (loop s), quitting := insert t (quitting s)\<rparr>)"
| o_quit_notify: "t \<in> quitting s \<Longrightarrow>
    sys_step efd_write efd_read tid s
      (s\<lparr>loop := quit_notify efd_write (tid t) (loop s), quitting := quitting s - {t}\<rparr>)"

definition sys_init :: "(nat \<Rightarrow> int) \<Rightarrow> 'e \<Rightarrow> ('f, 'e) system" where
  "sys_init tid efd = \<lparr>loop = EventLoop_new (tid 0) efd, phase = Polling, notifying = {}, quitting = {}\<rparr>"

inductive sys_reach ::
    "('e \<Rightarrow> 'e) \<Rightarrow> ('e \<Rightarrow> 'e) \<Rightarrow> (nat \<Rightarrow> int) \<Rightarrow> 'e \<Rightarrow> ('f, 'e) system \<Rightarrow> bool"
  for efd_write efd_read tid efd where
  reach_init: "sys_reach efd_write efd_read tid efd (sys_init tid efd)"
| reach_step: "sys_reach efd_write efd_read tid efd s \<Longrightarrow> sys_step efd_write efd_read tid s t \<Longrightarrow>
    sys_reach efd_write efd_read tid efd t"

lemmas loop_op_defs = queueInLoop_def queueInLoop_push_def queueInLoop_notify_def quit_def
  quit_store_def quit_notify_def
  wakeup_def loop_handleRead_def doPending_announce_def doPending_swap_def doPending_call_def
  doPending_finish_def isInLoopThread_def

section \<open>Invariants\<close>

text \<open>The functors run, taken over and pending are, in this order, those queued.\<close>

definition fifo_inv :: "('f, 'e) system \<Rightarrow> bool" where
  "fifo_inv s \<longleftrightarrow>
     executed (loop s) @ todo (loop s) @ pendingFunctors (loop s) = queued (loop s) \<and>
     (phase s \<noteq> Calling \<longrightarrow> todo (loop s) = [])"

lemma fifo_init: "fifo_inv (sys_init tid efd)"
  by (simp add: fifo_inv_def sys_init_def EventLoop_new_def)

lemma fifo_step: "sys_step w r tid s t \<Longrightarrow> fifo_inv s \<Longrightarrow> fifo_inv t"
proof (induction rule: sys_step.induct)
  case (l_call s)
  then show ?case
    by (cases "todo (loop s)") (auto simp: fifo_inv_def loop_op_defs)
qed (auto simp: fifo_inv_def loop_op_defs Let_def simp flip: append_assoc)

lemma reach_fifo: "sys_reach w r tid efd s \<Longrightarrow> fifo_inv s"
  by (induction rule: sys_reach.induct) (auto intro: fifo_init fifo_step)

text \<open>
  Once the functors are swapped out, whoever queues another one has woken the loop or is about
  to, so that the next \<^verbatim>\<open>poll\<close> returns; likewise for a request to quit.
\<close>

definition wake_inv :: "('e \<Rightarrow> bool) \<Rightarrow> (nat \<Rightarrow> int) \<Rightarrow> ('f, 'e) system \<Rightarrow> bool" where
  "wake_inv readable tid s \<longleftrightarrow>
     threadId (loop s) = tid 0 \<and>
     (callingPendingFunctors (loop s) \<longleftrightarrow> phase s \<in> {Announced, Calling}) \<and>
     0 \<notin> notifying s \<and> 0 \<notin> quitting s \<and>
     (phase s \<in> {Calling, Polling} \<and> pendingFunctors (loop s) \<noteq> [] \<longrightarrow>
        readable (wakeupFd (loop s)) \<or> notifying s \<noteq> {}) \<and>
     (phase s = Polling \<and> quit_flag (loop s) \<longrightarrow>
        readable (wakeupFd (loop s)) \<or> quitting s \<noteq> {})"

lemma wake_init: "wake_inv readable tid (sys_init tid efd)"
  by (simp add: wake_inv_def sys_init_def EventLoop_new_def)

lemma wake_step:
  assumes "sys_step w r tid s t" "\<forall>e. readable (w e)" "\<forall>u>0. tid u \<noteq> tid 0" "wake_inv readable tid s"
  shows "wake_inv readable tid t"
  using assms
proof (induction rule: sys_step.induct)
  case (l_call s)
  then show ?case by (cases "todo (loop s)") (auto simp: wake_inv_def loop_op_defs)
next
  case (o_notify t s)
  then have "tid t \<noteq> tid 0" by (metis gr0I wake_inv_def)
  with o_notify show ?case by (auto simp: wake_inv_def loop_op_defs)
next
  case (o_quit_notify t s)
  then have "tid t \<noteq> tid 0" by (metis gr0I wake_inv_def)
  with o_quit_notify show ?case by (auto simp: wake_inv_def loop_op_defs)
qed (auto simp: wake_inv_def loop_op_defs)

lemma reach_wake:
  assumes "sys_reach w r tid efd s" "\<forall>e. readable (w e)" "\<forall>u>0. tid u \<noteq> tid 0"
  shows "wake_inv readable tid s"
  using assms by (induction rule: sys_reach.induct) (auto intro: wake_init wake_step)

text \<open>
  C2: if thread ids tell the loop's thread from every other, then in every interleaving the
  functors executed, taken over and pending are exactly those queued, in the order of their
  queueing; and whenever the loop is about to block in \<^verbatim>\<open>poll\<close> while no other thread is inside
  \<^verbatim>\<open>queueInLoop\<close> or \<^verbatim>\<open>quit\<close>, a pending functor or a request to quit has left the wake-up
  descriptor readable, so that \<^verbatim>\<open>poll\<close> returns: no wake-up is lost.
\<close>

theorem no_lost_wakeup:
  assumes "\<forall>e. readable (efd_write e)" "\<forall>u>0. tid u \<noteq> tid 0"
    and "sys_reach efd_write efd_read tid efd s"
  shows "executed (loop s) @ todo (loop s) @ pendingFunctors (loop s) = queued (loop s) \<and>
    (phase s = Polling \<and> notifying s = {} \<and> quitting s = {} \<and>
     (pendingFunctors (loop s) \<noteq> [] \<or> quit_flag (loop s)) \<longrightarrow> readable (wakeupFd (loop s)))"
  using reach_fifo [OF assms(3)] reach_wake [OF assms(3,1,2)]
  by (auto simp: fifo_inv_def wake_inv_def)

text \<open>
  With an eventfd counter and thread ids equal to the thread numbers: thread 1 queues a functor
  while the loop is in \<^verbatim>\<open>poll\<close>, and the descriptor is readable afterwards.
\<close>

lemmas reach_ops = queueInLoop_def queueInLoop_push_def queueInLoop_notify_def isInLoopThread_def
  wakeup_def sys_init_def EventLoop_new_def

lemma reach_push_notify:
  assumes "t > 0"
  shows "sys_reach w r tid efd
    (sys_init tid efd\<lparr>loop := queueInLoop_notify w (tid t) (queueInLoop_push f (EventLoop_new (tid 0) efd))\<rparr>)"
proof -
  let ?s = "sys_init tid efd"
  have "sys_step w r tid ?s (?s\<lparr>loop := queueInLoop_push f (loop ?s), notifying := insert t (notifying ?s)\<rparr>)"
    using sys_step.o_push [of t ?s w r tid f] assms by (simp add: sys_init_def)
  note sys_reach.reach_step [OF sys_reach.reach_init this]
  from sys_reach.reach_step [OF this sys_step.o_notify [where t = t]] show ?thesis
    by (simp add: sys_init_def)
qed

theorem no_lost_wakeup_witness:
  "\<exists>s :: (nat, nat) system.
     sys_reach Suc (\<lambda>_. 0) int 0 s \<and> phase s = Polling \<and> pendingFunctors (loop s) = [7] \<and>
     executed (loop s) @ todo (loop s) @ pendingFunctors (loop s) = queued (loop s) \<and>
     0 < wakeupFd (loop s)"
proof -
  define s :: "(nat, nat) system" where "s = sys_init int 0\<lparr>loop :=
    queueInLoop_notify Suc (int 1) (queueInLoop_push 7 (EventLoop_new (int 0) 0))\<rparr>"
  have r: "sys_reach Suc (\<lambda>_. 0) int 0 s"
    unfolding s_def by (rule reach_push_notify) simp
  have p: "phase s = Polling" "notifying s = {}" "quitting s = {}" "pendingFunctors (loop s) = [7]"
    by (simp_all add: s_def reach_ops)
  show ?thesis
    using no_lost_wakeup [of "\<lambda>e. 0 < e" Suc int, OF _ _ r] p r
    by (intro exI [of _ s]) simp
qed

text \<open>
  C38: with the thread id as \<^verbatim>\<open>CurrentThread.cc\<close> computes it (\<^verbatim>\<open>SYS_getpid\<close>, the same number in every
  thread of the process) a wake-up is lost: a functor that another thread has queued is pending,
  nobody is going to wake the loop, and the loop is about to block in \<^verbatim>\<open>poll\<close> with the wake-up
  descriptor as it was created.
\<close>

theorem getpid_loses_wakeup:
  "\<exists>s. sys_reach efd_write efd_read (\<lambda>t. fst (CurrentThread_tid pid 0)) efd s \<and>
     phase s = Polling \<and> notifying s = {} \<and> quitting s = {} \<and>
     pendingFunctors (loop s) = [f] \<and> wakeupFd (loop s) = efd"
  by (rule exI, rule conjI, rule reach_push_notify [where t = 1 and f = f])
    (simp_all add: reach_ops)

end
