(* ===== verification/TcpConnection.thy ===== *)
theory TcpConnection
  imports Buffer Poller EventLoop
begin

text \<open>
  A connection (\<^verbatim>\<open>src/net/TcpConnection.h\<close>, \<^verbatim>\<open>TcpConnection.cc\<close>), composed from the byte buffer,
  the channel with its poller, and the event loop it queues functors on. \<^verbatim>\<open>write\<close>, \<^verbatim>\<open>readv\<close> and
  \<^verbatim>\<open>getsockopt\<close> appear as their answers; the callbacks a user installs are parameters that act
  on the connection through its public operations.
\<close>

section \<open>State\<close>

datatype stateE = kDisConnected | kConnecting | kConnected | kDisConnecting

text \<open>
  The functors a connection queues on its loop. \<open>FSendPtr len\<close> is \<^verbatim>\<open>sendInLoop\<close> bound to the
  pointer \<^verbatim>\<open>buf.c_str()\<close> of the caller's string and its length, \<open>FSendString\<close> the overload that
  owns its string.
\<close>

datatype conn_functor =
    FWriteComplete
  | FHighWaterMark size_t
  | FShutdownInLoop
  | FSendPtr size_t
  | FSendString string

text \<open>What a connection calls outside itself: \<^verbatim>\<open>epoll_ctl\<close>, the eventfd, the current thread's id.\<close>

record ('k, 'e) net_env =
  env_ctl :: "'k epoll_ctl"
  env_efd_write :: "'e \<Rightarrow> 'e"
  env_tid :: int

text \<open>
  \<open>wire\<close> are the bytes the kernel has taken from the connection so far, \<open>accepted\<close> those that
  \<^verbatim>\<open>sendInLoop\<close> has taken over from the user, \<open>shut\<close> says whether \<^verbatim>\<open>shutdown(SHUT_WR)\<close> was called.
\<close>

record ('k, 'e) tcp_connection =
  cname :: string
  state :: stateE
  reading :: bool
  cpoller :: "'k poller"
  cloop :: "(conn_functor, 'e) event_loop"
  channel_ptr :: chan_ptr
  inputBuffer :: buffer
  outputBuffer :: buffer
  highWaterMark :: size_t
  wire :: "char list"
  accepted :: "char list"
  shut :: bool

record 'c user_callbacks =
  connectionCallback :: "('c \<Rightarrow> 'c result) option"
  messageCallback :: "(int \<Rightarrow> 'c \<Rightarrow> 'c result) option"
  writeCompleteCallback :: "('c \<Rightarrow> 'c result) option"
  closeCallbackU :: "('c \<Rightarrow> 'c result) option"
  highWaterMarkCallback :: "(size_t \<Rightarrow> 'c \<Rightarrow> 'c result) option"

definition EWOULDBLOCK :: int where "EWOULDBLOCK = 11"
definition EPIPE :: int where "EPIPE = 32"
definition ECONNRESET :: int where "ECONNRESET = 104"

text \<open>Calling a \<^verbatim>\<open>std::function\<close>: an empty one throws \<^verbatim>\<open>std::bad_function_call\<close>.\<close>

definition call :: "('c \<Rightarrow> 'c result) option \<Rightarrow> 'c \<Rightarrow> 'c result" where
  "call cb c = (case cb of None \<Rightarrow> Inl BadFunctionCall | Some f \<Rightarrow> f c)"

definition queue_functor ::
    "('k, 'e) net_env \<Rightarrow> conn_functor \<Rightarrow> ('k, 'e) tcp_connection \<Rightarrow> ('k, 'e) tcp_connection" where
  "queue_functor E f c = c\<lparr>cloop := queueInLoop (env_efd_write E) (env_tid E) f (cloop c)\<rparr>"

definition the_channel :: "('k, 'e) tcp_connection \<Rightarrow> channel" where
  "the_channel c = chan (cpoller c) (channel_ptr c)"

definition on_channel ::
    "('k, 'e) net_env \<Rightarrow> chan_op \<Rightarrow> ('k, 'e) tcp_connection \<Rightarrow> ('k, 'e) tcp_connection result" where
  "on_channel E x c =
     bindR (chan_step (env_ctl E) x (channel_ptr c) (cpoller c)) (\<lambda>s. Inr (c\<lparr>cpoller := s\<rparr>))"

section \<open>Operations\<close>

text \<open>The constructor; a null loop is fatal.\<close>

definition TcpConnection_new ::
    "(conn_functor, 'e) event_loop option \<Rightarrow> 'k poller \<Rightarrow> string \<Rightarrow> int \<Rightarrow> chan_ptr \<Rightarrow>
     ('k, 'e) tcp_connection result" where
  "TcpConnection_new lp s nameArg sockfd p =
     (case lp of None \<Rightarrow> Inl FatalExit
      | Some l \<Rightarrow> Inr
          \<lparr>cname = nameArg, state = kConnecting, reading = True,
           cpoller = upd_chan p (\<lambda>_. (Channel_new sockfd)
             \<lparr>readCallback := True, writeCallback := True, closeCallback := True,
              errorCallback := True\<rparr>) s,
           cloop = l, channel_ptr = p,
           inputBuffer = Buffer_new kInitialSize, outputBuffer = Buffer_new kInitialSize,
           highWaterMark = 64 * 1024 * 1024, wire = [], accepted = [], shut = False\<rparr>)"

text \<open>
  \<^verbatim>\<open>sendInLoop\<close>: \<open>wr data\<close> is the answer of \<^verbatim>\<open>write\<close>, an errno or the count. The first part gives
  \<^verbatim>\<open>nwrote\<close>, \<^verbatim>\<open>remaining\<close> and \<^verbatim>\<open>faultError\<close>.
\<close>

definition sendInLoop_write ::
    "('k, 'e) net_env \<Rightarrow> ('k, 'e) tcp_connection user_callbacks \<Rightarrow> (char list \<Rightarrow> int + nat) \<Rightarrow>
     char list \<Rightarrow> ('k, 'e) tcp_connection \<Rightarrow> nat \<times> size_t \<times> bool \<times> ('k, 'e) tcp_connection" where
  "sendInLoop_write E U wr data c =
     (let len = length data in
      if \<not> isWriting (the_channel c) \<and> readableBytes (outputBuffer c) = 0 then
        (case wr data of
           Inr nwrote \<Rightarrow>
             let remaining = szsub len nwrote;
                 c1 = c\<lparr>wire := wire c @ take nwrote data\<rparr>
             in (nwrote, remaining, False,
                 if remaining = 0 \<and> writeCompleteCallback U \<noteq> None
                 then queue_functor E FWriteComplete c1 else c1)
         | Inl err \<Rightarrow>
             (0, len, err \<noteq> EWOULDBLOCK \<and> (err = EPIPE \<or> err = ECONNRESET), c))
      else (0, len, False, c))"

definition sendInLoop ::
    "('k, 'e) net_env \<Rightarrow> ('k, 'e) tcp_connection user_callbacks \<Rightarrow> (char list \<Rightarrow> int + nat) \<Rightarrow>
     char list \<Rightarrow> ('k, 'e) tcp_connection \<Rightarrow> ('k, 'e) tcp_connection result" where
  "sendInLoop E U wr data c =
     (if state c = kDisConnected then Inr c
      else
        let (nwrote, remaining, faultError, c0) = sendInLoop_write E U wr data c;
            c1 = (if faultError then c0 else c0\<lparr>accepted := accepted c0 @ data\<rparr>)
        in if \<not> faultError \<and> remaining > 0 then
             let oldLen = readableBytes (outputBuffer c1);
                 c2 = (if szadd oldLen remaining \<ge> highWaterMark c1 \<and> oldLen < highWaterMark c1 \<and>
                          highWaterMarkCallback U \<noteq> None
                       then queue_functor E (FHighWaterMark (szadd oldLen remaining)) c1 else c1)
             in bindR (append (take remaining (drop nwrote data)) (outputBuffer c2)) (\<lambda>b.
                  let c3 = c2\<lparr>outputBuffer := b\<rparr>
                  in if isWriting (the_channel c3) then on_channel E EnableWriting c3 else Inr c3)
           else Inr c1)"

text \<open>
  The two public \<^verbatim>\<open>send\<close>s. Outside the loop's thread \<^verbatim>\<open>runInLoop\<close> queues the functor: the string
  overload binds a pointer, the buffer overload a string of its own.
\<close>

definition send_string ::
    "('k, 'e) net_env \<Rightarrow> ('k, 'e) tcp_connection user_callbacks \<Rightarrow> (char list \<Rightarrow> int + nat) \<Rightarrow>
     string \<Rightarrow> ('k, 'e) tcp_connection \<Rightarrow> ('k, 'e) tcp_connection result" where
  "send_string E U wr buf c =
     (if state c = kConnected then
        if isInLoopThread (env_tid E) (cloop c) then sendInLoop E U wr buf c
        else Inr (queue_functor E (FSendPtr (length buf)) c)
      else Inr c)"

definition send_buffer ::
    "('k, 'e) net_env \<Rightarrow> ('k, 'e) tcp_connection user_callbacks \<Rightarrow> (char list \<Rightarrow> int + nat) \<Rightarrow>
     buffer \<Rightarrow> ('k, 'e) tcp_connection \<Rightarrow> (buffer \<times> ('k, 'e) tcp_connection) result" where
  "send_buffer E U wr b c =
     (if state c = kConnected then
        if isInLoopThread (env_tid E) (cloop c) then
          bindR (retrieveAsString (readableBytes b) b) (\<lambda>(data, _).
          bindR (sendInLoop E U wr data c) (\<lambda>c1. Inr (retrieveAll b, c1)))
        else
          bindR (retrieveAllAsString b) (\<lambda>(data, b1).
          Inr (b1, queue_functor E (FSendString data) c))
      else Inr (b, c))"

definition shutdown ::
    "('k, 'e) net_env \<Rightarrow> ('k, 'e) tcp_connection \<Rightarrow> ('k, 'e) tcp_connection" where
  "shutdown E c =
     (if state c = kConnected
      then queue_functor E FShutdownInLoop (c\<lparr>state := kDisConnecting\<rparr>) else c)"

definition shutdownInLoop :: "('k, 'e) tcp_connection \<Rightarrow> ('k, 'e) tcp_connection" where
  "shutdownInLoop c = (if \<not> isWriting (the_channel c) then c\<lparr>shut := True\<rparr> else c)"

text \<open>\<open>self\<close> is the connection object that \<^verbatim>\<open>shared_from_this()\<close> points to.\<close>

definition connectEstablished ::
    "('k, 'e) net_env \<Rightarrow> ('k, 'e) tcp_connection user_callbacks \<Rightarrow> nat \<Rightarrow>
     ('k, 'e) tcp_connection \<Rightarrow> ('k, 'e) tcp_connection result" where
  "connectEstablished E U self c =
     (let c1 = c\<lparr>state := kConnected\<rparr>;
          c2 = c1\<lparr>cpoller := upd_chan (channel_ptr c1) (tie_to self) (cpoller c1)\<rparr>
      in bindR (on_channel E EnableReading c2) (call (connectionCallback U)))"

definition connectDestroyed ::
    "('k, 'e) net_env \<Rightarrow> ('k, 'e) tcp_connection user_callbacks \<Rightarrow>
     ('k, 'e) tcp_connection \<Rightarrow> ('k, 'e) tcp_connection result" where
  "connectDestroyed E U c =
     bindR (if state c = kConnected
            then bindR (on_channel E DisableAll (c\<lparr>state := kDisConnected\<rparr>))
                   (call (connectionCallback U))
            else Inr c)
       (on_channel E Remove)"

definition handleClose ::
    "('k, 'e) net_env \<Rightarrow> ('k, 'e) tcp_connection user_callbacks \<Rightarrow>
     ('k, 'e) tcp_connection \<Rightarrow> ('k, 'e) tcp_connection result" where
  "handleClose E U c =
     bindR (on_channel E DisableAll (c\<lparr>state := kDisConnected\<rparr>)) (\<lambda>c1.
     bindR (call (connectionCallback U) c1) (call (closeCallbackU U)))"

text \<open>\<^verbatim>\<open>handleError\<close> only logs; its result is the error code of the log line.\<close>

definition handleError :: "int + int \<Rightarrow> ('k, 'e) tcp_connection \<Rightarrow> int \<times> ('k, 'e) tcp_connection"
  where
  "handleError getsockopt c =
     ((case getsockopt of Inl errno \<Rightarrow> errno | Inr optval \<Rightarrow> optval), c)"

definition conn_handleRead ::
    "('k, 'e) net_env \<Rightarrow> ('k, 'e) tcp_connection user_callbacks \<Rightarrow> int + char list \<Rightarrow> int + int \<Rightarrow>
     int \<Rightarrow> ('k, 'e) tcp_connection \<Rightarrow> ('k, 'e) tcp_connection result" where
  "conn_handleRead E U rv getsockopt receiveTime c =
     bindR (readFd rv (inputBuffer c)) (\<lambda>(n, saveErrno, b).
       let c1 = c\<lparr>inputBuffer := b\<rparr> in
       if n > 0 then call (map_option (\<lambda>f. f receiveTime) (messageCallback U)) c1
       else if n = 0 then handleClose E U c1
       else Inr (snd (handleError getsockopt c1)))"

definition handleWrite ::
    "('k, 'e) net_env \<Rightarrow> ('k, 'e) tcp_connection user_callbacks \<Rightarrow> (char list \<Rightarrow> int + nat) \<Rightarrow>
     ('k, 'e) tcp_connection \<Rightarrow> ('k, 'e) tcp_connection result" where
  "handleWrite E U wr c =
     (if isWriting (the_channel c) then
        bindR (writFd wr (outputBuffer c)) (\<lambda>(n, saveErrno).
          if n > 0 then
            let c1 = c\<lparr>wire := wire c @ take (nat n) (content (outputBuffer c)),
                       outputBuffer := retrieve (nat n) (outputBuffer c)\<rparr>
            in if readableBytes (outputBuffer c1) = 0 then
                 bindR (on_channel E DisableWriting c1) (\<lambda>c2.
                   let c3 = (if writeCompleteCallback U \<noteq> None
                             then queue_functor E FWriteComplete c2 else c2)
                   in Inr (if state c3 = kDisConnecting then shutdownInLoop c3 else c3))
               else Inr c1
          else Inr c)
      else Inr c)"

text \<open>
  What the loop does with a functor of the connection; \<open>mem len\<close> are the \<open>len\<close> bytes found, when
  the functor runs, where the pointer of the caller's string pointed.
\<close>

definition run_functor ::
    "('k, 'e) net_env \<Rightarrow> ('k, 'e) tcp_connection user_callbacks \<Rightarrow> (char list \<Rightarrow> int + nat) \<Rightarrow>
     (size_t \<Rightarrow> char list) \<Rightarrow> conn_functor \<Rightarrow> ('k, 'e) tcp_connection \<Rightarrow>
     ('k, 'e) tcp_connection result" where
  "run_functor E U wr mem f c =
     (case f of
        FWriteComplete \<Rightarrow> call (writeCompleteCallback U) c
      | FHighWaterMark n \<Rightarrow> call (map_option (\<lambda>g. g n) (highWaterMarkCallback U)) c
      | FShutdownInLoop \<Rightarrow> Inr (shutdownInLoop c)
      | FSendPtr len \<Rightarrow> sendInLoop E U wr (mem len) c
      | FSendString data \<Rightarrow> sendInLoop E U wr data c)"

text \<open>The connection's handlers as its channel dispatches them (\<^verbatim>\<open>Channel::handleEvent\<close>).\<close>

definition run_callback ::
    "('k, 'e) net_env \<Rightarrow> ('k, 'e) tcp_connection user_callbacks \<Rightarrow> (char list \<Rightarrow> int + nat) \<Rightarrow>
     int + char list \<Rightarrow> int + int \<Rightarrow> int \<Rightarrow> callback \<Rightarrow> ('k, 'e) tcp_connection \<Rightarrow>
     ('k, 'e) tcp_connection result" where
  "run_callback E U wr rv getsockopt receiveTime cb c =
     (case cb of
        CbClose \<Rightarrow> handleClose E U c
      | CbError \<Rightarrow> Inr (snd (handleError getsockopt c))
      | CbRead \<Rightarrow> conn_handleRead E U rv getsockopt receiveTime c
      | CbWrite \<Rightarrow> handleWrite E U wr c)"

definition dispatch ::
    "('k, 'e) net_env \<Rightarrow> ('k, 'e) tcp_connection user_callbacks \<Rightarrow> (char list \<Rightarrow> int + nat) \<Rightarrow>
     int + char list \<Rightarrow> int + int \<Rightarrow> int \<Rightarrow> (nat \<Rightarrow> bool) \<Rightarrow> ('k, 'e) tcp_connection \<Rightarrow>
     ('k, 'e) tcp_connection result" where
  "dispatch E U wr rv getsockopt receiveTime alive c =
     foldR (run_callback E U wr rv getsockopt receiveTime) (handleEvent alive (the_channel c)) c"

section \<open>Everything that can happen to a connection\<close>

text \<open>
  \<^verbatim>\<open>write(2)\<close> takes at most the bytes offered. A user's callback acts on the connection only
  through its public operations; whatever it does to the input buffer is left open.
\<close>

definition write_ok :: "(char list \<Rightarrow> int + nat) \<Rightarrow> bool" where
  "write_ok wr \<longleftrightarrow> (\<forall>d n. wr d = Inr n \<longrightarrow> n \<le> length d)"

inductive api_step ::
    "('k, 'e) net_env \<Rightarrow> ('k, 'e) tcp_connection user_callbacks \<Rightarrow> ('k, 'e) tcp_connection \<Rightarrow>
     ('k, 'e) tcp_connection \<Rightarrow> bool" for E U where
  api_send: "write_ok wr \<Longrightarrow> length d \<le> vector_max_size \<Longrightarrow> send_string E U wr d c = Inr c' \<Longrightarrow>
    api_step E U c c'"
| api_send_buffer: "write_ok wr \<Longrightarrow> wf_buffer b \<Longrightarrow> send_buffer E U wr b c = Inr (b', c') \<Longrightarrow>
    api_step E U c c'"
| api_shutdown: "api_step E U c (shutdown E c)"
| api_input: "api_step E U c (c\<lparr>inputBuffer := b\<rparr>)"

definition acts_by_api ::
    "('k, 'e) net_env \<Rightarrow> ('k, 'e) tcp_connection user_callbacks \<Rightarrow>
     (('k, 'e) tcp_connection \<Rightarrow> ('k, 'e) tcp_connection result) \<Rightarrow> bool" where
  "acts_by_api E U f \<longleftrightarrow> (\<forall>c c'. f c = Inr c' \<longrightarrow> (api_step E U)\<^sup>*\<^sup>* c c')"

definition user_ok ::
    "('k, 'e) net_env \<Rightarrow> ('k, 'e) tcp_connection user_callbacks \<Rightarrow> bool" where
  "user_ok E U \<longleftrightarrow>
     (\<forall>f. connectionCallback U = Some f \<longrightarrow> acts_by_api E U f) \<and>
     (\<forall>f t. messageCallback U = Some f \<longrightarrow> acts_by_api E U (f t)) \<and>
     (\<forall>f. writeCompleteCallback U = Some f \<longrightarrow> acts_by_api E U f) \<and>
     (\<forall>f. closeCallbackU U = Some f \<longrightarrow> acts_by_api E U f) \<and>
     (\<forall>f n. highWaterMarkCallback U = Some f \<longrightarrow> acts_by_api E U (f n))"

text \<open>
  One event in the life of a connection: a public operation, the server establishing or
  destroying it, a handler called by its channel, a queued functor. The server establishes a
  connection once, when it is new.
\<close>

inductive conn_step ::
    "('k, 'e) net_env \<Rightarrow> ('k, 'e) tcp_connection user_callbacks \<Rightarrow> ('k, 'e) tcp_connection \<Rightarrow>
     ('k, 'e) tcp_connection \<Rightarrow> bool" for E U where
  cs_api: "api_step E U c c' \<Longrightarrow> conn_step E U c c'"
| cs_establish: "state c = kConnecting \<Longrightarrow> connectEstablished E U self c = Inr c' \<Longrightarrow>
    conn_step E U c c'"
| cs_destroy: "connectDestroyed E U c = Inr c' \<Longrightarrow> conn_step E U c c'"
| cs_callback: "write_ok wr \<Longrightarrow> run_callback E U wr rv gso receiveTime cb c = Inr c' \<Longrightarrow>
    conn_step E U c c'"
| cs_functor: "write_ok wr \<Longrightarrow> \<forall>n. length (mem n) \<le> vector_max_size \<Longrightarrow>
    \<forall>d. f = FSendString d \<longrightarrow> length d \<le> vector_max_size \<Longrightarrow>
    run_functor E U wr mem f c = Inr c' \<Longrightarrow> conn_step E U c c'"

section \<open>Invariants of connections\<close>

text \<open>
  A contract shared by all handlers: a predicate that the elementary changes keep is kept by
  every event, whatever the user's callbacks do through the public operations. The order of
  the states is connecting, connected, disconnecting, disconnected.
\<close>

fun rank :: "stateE \<Rightarrow> nat" where
  "rank kConnecting = 0"
| "rank kConnected = 1"
| "rank kDisConnecting = 2"
| "rank kDisConnected = 3"

locale conn_invariant =
  fixes E :: "('k, 'e) net_env"
    and U :: "('k, 'e) tcp_connection user_callbacks"
    and inv :: "('k, 'e) tcp_connection \<Rightarrow> bool"
  assumes user: "inv c \<Longrightarrow> user_ok E U"
    and on_send: "inv c \<Longrightarrow> write_ok wr \<Longrightarrow> length d \<le> vector_max_size \<Longrightarrow>
          sendInLoop E U wr d c = Inr c' \<Longrightarrow> inv c'"
    and on_queue: "inv c \<Longrightarrow> inv (queue_functor E f c)"
    and on_state: "inv c \<Longrightarrow> rank (state c) \<le> rank s \<Longrightarrow> inv (c\<lparr>state := s\<rparr>)"
    and on_chan: "inv c \<Longrightarrow> x \<noteq> EnableWriting \<Longrightarrow> on_channel E x c = Inr c' \<Longrightarrow> inv c'"
    and on_tie: "inv c \<Longrightarrow> inv (c\<lparr>cpoller := upd_chan (channel_ptr c) (tie_to obj) (cpoller c)\<rparr>)"
    and on_shut: "inv c \<Longrightarrow> inv (c\<lparr>shut := True\<rparr>)"
    and on_input: "inv c \<Longrightarrow> inv (c\<lparr>inputBuffer := b\<rparr>)"
    and on_flush: "inv c \<Longrightarrow> isWriting (the_channel c) \<Longrightarrow> write_ok wr \<Longrightarrow>
          writFd wr (outputBuffer c) = Inr (int n, e) \<Longrightarrow>
          inv (c\<lparr>wire := wire c @ take n (content (outputBuffer c)),
                 outputBuffer := retrieve n (outputBuffer c)\<rparr>)"
begin

lemma api_step_inv:
  assumes "api_step E U c c'" "inv c"
  shows "inv c'"
  using assms
proof (induction rule: api_step.induct)
  case (api_send wr d c c')
  then show ?case
    by (auto simp: send_string_def intro: on_send on_queue split: if_splits)
next
  case (api_send_buffer wr b c b' c')
  have "length data \<le> vector_max_size" if "retrieveAsString n b = Inr (data, b1)" for n data b1
    using that api_send_buffer.hyps(2)
    by (auto simp: retrieveAsString_def wf_buffer_def split: if_splits)
  with api_send_buffer show ?case
    by (auto simp: send_buffer_def retrieveAllAsString_def bindR_eq_Inr
        intro: on_send on_queue split: if_splits)
next
  case (api_shutdown c)
  then show ?case
    using on_queue [OF on_state [of c kDisConnecting]] by (simp add: shutdown_def)
next
  case (api_input c b)
  then show ?case by (rule on_input)
qed

lemma api_steps_inv: "(api_step E U)\<^sup>*\<^sup>* c c' \<Longrightarrow> inv c \<Longrightarrow> inv c'"
  by (induction rule: rtranclp_induct) (auto intro: api_step_inv)

lemma call_inv:
  assumes "call cb c = Inr c'" "inv c" "\<And>f. cb = Some f \<Longrightarrow> acts_by_api E U f"
  shows "inv c'"
  using assms api_steps_inv by (auto simp: call_def acts_by_api_def split: option.splits)

lemma callback_inv:
  "inv c \<Longrightarrow> call (connectionCallback U) c = Inr c' \<Longrightarrow> inv c'"
  "inv c \<Longrightarrow> call (writeCompleteCallback U) c = Inr c' \<Longrightarrow> inv c'"
  "inv c \<Longrightarrow> call (closeCallbackU U) c = Inr c' \<Longrightarrow> inv c'"
  "inv c \<Longrightarrow> call (map_option (\<lambda>f. f t) (messageCallback U)) c = Inr c' \<Longrightarrow> inv c'"
  "inv c \<Longrightarrow> call (map_option (\<lambda>f. f n) (highWaterMarkCallback U)) c = Inr c' \<Longrightarrow> inv c'"
  by (frule user, rule call_inv, assumption, assumption, force simp: user_ok_def)+

lemma close_state_inv: "inv c \<Longrightarrow> inv (c\<lparr>state := kDisConnected\<rparr>)"
  by (erule on_state) (cases "state c"; simp)

lemma handleClose_inv:
  assumes "handleClose E U c = Inr c'" "inv c"
  shows "inv c'"
  using assms(1) on_chan [OF close_state_inv [OF assms(2)], of DisableAll]
  by (auto simp: handleClose_def bindR_eq_Inr dest: callback_inv)

lemma shutdownInLoop_inv: "inv c \<Longrightarrow> inv (shutdownInLoop c)"
  by (simp add: shutdownInLoop_def on_shut)

lemma handleWrite_inv:
  assumes "handleWrite E U wr c = Inr c'" "inv c" "write_ok wr"
  shows "inv c'"
proof (cases "isWriting (the_channel c)")
  case True
  then obtain n e where w: "writFd wr (outputBuffer c) = Inr (n, e)"
    using assms(1) by (auto simp: handleWrite_def bindR_eq_Inr)
  show ?thesis
  proof (cases "n > 0")
    case pos: True
    let ?c = "c\<lparr>wire := wire c @ take (nat n) (content (outputBuffer c)),
      outputBuffer := retrieve (nat n) (outputBuffer c)\<rparr>"
    have inv1: "inv ?c"
      using on_flush [OF assms(2) True assms(3), of "nat n" e] w pos by simp
    have "inv c2" if "on_channel E DisableWriting ?c = Inr c2" for c2
      using that by (rule on_chan [OF inv1, rotated]) simp
    then show ?thesis
      using assms(1) True w pos inv1
      by (auto simp: handleWrite_def bindR_eq_Inr Let_def intro!: shutdownInLoop_inv on_queue
          split: if_splits)
  qed (use assms True w in \<open>simp add: handleWrite_def\<close>)
qed (use assms in \<open>simp add: handleWrite_def\<close>)

lemma handleRead_inv:
  assumes "conn_handleRead E U rv gso t c = Inr c'" "inv c"
  shows "inv c'"
proof -
  obtain n e b where "readFd rv (inputBuffer c) = Inr (n, e, b)"
    using assms(1) by (auto simp: conn_handleRead_def bindR_eq_Inr)
  with assms(1) on_input [OF assms(2), of b] show ?thesis
    by (auto simp: conn_handleRead_def handleError_def Let_def split: if_splits
        dest: callback_inv handleClose_inv)
qed

lemma run_callback_inv:
  assumes "run_callback E U wr rv gso t cb c = Inr c'" "inv c" "write_ok wr"
  shows "inv c'"
  using assms by (cases cb)
    (auto simp: run_callback_def handleError_def dest: handleClose_inv handleRead_inv handleWrite_inv)

lemma connectEstablished_inv:
  assumes "connectEstablished E U obj c = Inr c'" "state c = kConnecting" "inv c"
  shows "inv c'"
proof -
  have "inv (c\<lparr>state := kConnected\<rparr>)"
    using assms(3) by (rule on_state) (simp add: assms(2))
  from on_chan [OF on_tie [OF this, of obj], of EnableReading] assms(1) show ?thesis
    by (auto simp: connectEstablished_def bindR_eq_Inr Let_def dest: callback_inv)
qed

lemma connectDestroyed_inv:
  assumes "connectDestroyed E U c = Inr c'" "inv c"
  shows "inv c'"
  using assms(1) on_chan [OF close_state_inv [OF assms(2)], of DisableAll] on_chan [of _ Remove]
    assms(2)
  by (auto simp: connectDestroyed_def bindR_eq_Inr dest: callback_inv split: if_splits)

lemma run_functor_inv:
  assumes "run_functor E U wr mem f c = Inr c'" "inv c" "write_ok wr"
    "\<forall>n. length (mem n) \<le> vector_max_size" "\<forall>d. f = FSendString d \<longrightarrow> length d \<le> vector_max_size"
  shows "inv c'"
  using assms by (cases f)
    (auto simp: run_functor_def dest: callback_inv intro: shutdownInLoop_inv on_send)

theorem conn_step_inv: "conn_step E U c c' \<Longrightarrow> inv c \<Longrightarrow> inv c'"
  by (induction rule: conn_step.induct)
    (auto intro: api_step_inv connectEstablished_inv connectDestroyed_inv run_callback_inv
      run_functor_inv)

theorem conn_steps_inv: "(conn_step E U)\<^sup>*\<^sup>* c c' \<Longrightarrow> inv c \<Longrightarrow> inv c'"
  by (induction rule: rtranclp_induct) (auto intro: conn_step_inv)

end

section \<open>What \<open>sendInLoop\<close> does\<close>

lemma queue_functor_simps [simp]:
  "state (queue_functor E f c) = state c" "cpoller (queue_functor E f c) = cpoller c"
  "channel_ptr (queue_functor E f c) = channel_ptr c"
  "outputBuffer (queue_functor E f c) = outputBuffer c" "wire (queue_functor E f c) = wire c"
  "accepted (queue_functor E f c) = accepted c"
  "the_channel (queue_functor E f c) = the_channel c"
  "highWaterMark (queue_functor E f c) = highWaterMark c"
  "inputBuffer (queue_functor E f c) = inputBuffer c"
  by (simp_all add: queue_functor_def the_channel_def)

lemma the_channel_simps [simp]:
  "the_channel (c\<lparr>state := s\<rparr>) = the_channel c" "the_channel (c\<lparr>wire := w\<rparr>) = the_channel c"
  "the_channel (c\<lparr>accepted := a\<rparr>) = the_channel c"
  "the_channel (c\<lparr>inputBuffer := b\<rparr>) = the_channel c"
  "the_channel (c\<lparr>outputBuffer := b\<rparr>) = the_channel c"
  "the_channel (c\<lparr>shut := b'\<rparr>) = the_channel c"
  by (simp_all add: the_channel_def)

lemma on_channel_InrD:
  assumes "on_channel E x c = Inr c'"
  shows "\<exists>s. chan_step (env_ctl E) x (channel_ptr c) (cpoller c) = Inr s \<and> c' = c\<lparr>cpoller := s\<rparr>"
  using assms by (auto simp: on_channel_def bindR_eq_Inr)

lemma sendInLoop_write_spec:
  assumes "sendInLoop_write E U wr d c = (n, r, fault, c0)" "write_ok wr"
    "length d \<le> vector_max_size" "wf_buffer (outputBuffer c)"
  shows "n \<le> length d" "r = length d - n" "wire c0 = wire c @ take n d"
    "n > 0 \<Longrightarrow> content (outputBuffer c) = []" "fault \<Longrightarrow> n = 0"
    "outputBuffer c0 = outputBuffer c" "cpoller c0 = cpoller c" "channel_ptr c0 = channel_ptr c"
    "state c0 = state c" "accepted c0 = accepted c" "the_channel c0 = the_channel c"
proof -
  have "szsub (length d) k = length d - k" if "k \<le> length d" for k
    using that assms(3) by (simp add: szsub_exact buffer_consts)
  moreover have "k \<le> length d" if "wr d = Inr k" for k
    using assms(2) that by (simp add: write_ok_def)
  moreover have "content (outputBuffer c) = []" if "readableBytes (outputBuffer c) = 0"
    using that assms(4) by (simp add: readableBytes_content)
  ultimately show "n \<le> length d" "r = length d - n" "wire c0 = wire c @ take n d"
    "n > 0 \<Longrightarrow> content (outputBuffer c) = []" "fault \<Longrightarrow> n = 0"
    "outputBuffer c0 = outputBuffer c" "cpoller c0 = cpoller c" "channel_ptr c0 = channel_ptr c"
    "state c0 = state c" "accepted c0 = accepted c" "the_channel c0 = the_channel c"
    using assms(1) by (auto simp: sendInLoop_write_def Let_def split: if_splits sum.splits)
qed

text \<open>
  A message is either dropped as a whole (disconnected, or a broken connection) or appended to
  the stream of bytes on the wire and in the output buffer.
\<close>

lemma sendInLoop_stream:
  assumes r: "sendInLoop E U wr d c = Inr c'" and wr: "write_ok wr"
    and d: "length d \<le> vector_max_size" and wf: "wf_buffer (outputBuffer c)"
  shows "wf_buffer (outputBuffer c') \<and> state c' = state c \<and> channel_ptr c' = channel_ptr c \<and>
    (\<exists>ds \<in> {[], d}. accepted c' = accepted c @ ds \<and>
       wire c' @ content (outputBuffer c') = wire c @ content (outputBuffer c) @ ds \<and>
       (state c = kDisConnected \<longrightarrow> ds = [])) \<and>
    (content (outputBuffer c) \<noteq> [] \<longrightarrow> wire c' = wire c) \<and>
    (cpoller c' = cpoller c \<or>
       isWriting (the_channel c) \<and>
       chan_step (env_ctl E) EnableWriting (channel_ptr c) (cpoller c) = Inr (cpoller c'))"
proof (cases "state c = kDisConnected")
  case True
  then show ?thesis using r wf by (simp add: sendInLoop_def)
next
  case False
  obtain n m fault c0 where w: "sendInLoop_write E U wr d c = (n, m, fault, c0)"
    by (metis prod_cases4)
  note ws = sendInLoop_write_spec [OF w wr d wf]
  show ?thesis
  proof (cases "\<not> fault \<and> m > 0")
    case True
    define rest where "rest = take m (drop n d)"
    obtain b where b: "append rest (outputBuffer c) = Inr b"
      using r False True w ws by (auto simp: sendInLoop_def Let_def bindR_eq_Inr rest_def split: if_splits)
    have "length rest \<le> vector_max_size" using d by (simp add: rest_def)
    note ab = append_Inr [OF wf this b]
    have rest: "rest = drop n d" using ws by (simp add: rest_def)
    have ord: "take n d @ content b = content (outputBuffer c) @ d"
      using ab ws(4) by (cases "n > 0") (simp_all add: rest)
    have "wire c' = wire c @ take n d" "outputBuffer c' = b" "accepted c' = accepted c @ d"
      "state c' = state c" "channel_ptr c' = channel_ptr c"
      "cpoller c' = cpoller c \<or>
       isWriting (the_channel c) \<and>
       chan_step (env_ctl E) EnableWriting (channel_ptr c) (cpoller c) = Inr (cpoller c')"
      using r False True w ws b
      by (auto simp: sendInLoop_def Let_def bindR_eq_Inr rest_def dest!: on_channel_InrD
          split: if_splits)
    moreover have "content (outputBuffer c) \<noteq> [] \<Longrightarrow> n = 0" using ws(4) by blast
    ultimately show ?thesis
      using ab ord False by auto
  next
    case f: False
    then have "c' = (if fault then c0 else c0\<lparr>accepted := accepted c0 @ d\<rparr>)"
      using r False w by (auto simp: sendInLoop_def)
    moreover have "take n d = d" if "\<not> fault" using f ws that by simp
    moreover have "content (outputBuffer c) = [] \<or> d = []" if "\<not> fault"
      using f ws that by (cases "n > 0") auto
    ultimately show ?thesis
      using ws wf f False by auto
  qed
qed

section \<open>Four invariants\<close>

text \<open>The bytes taken over from the user are those on the wire, followed by those still buffered.\<close>

definition stream_inv :: "('k, 'e) tcp_connection \<Rightarrow> bool" where
  "stream_inv c \<longleftrightarrow>
     wf_buffer (outputBuffer c) \<and> accepted c = wire c @ content (outputBuffer c)"

text \<open>The channel is not registered for writing.\<close>

definition quiet_inv :: "('k, 'e) tcp_connection \<Rightarrow> bool" where
  "quiet_inv c \<longleftrightarrow> stream_inv c \<and> \<not> isWriting (the_channel c)"

text \<open>Bytes are waiting in the output buffer and the wire is stuck at \<open>w\<close>.\<close>

definition stalled_inv :: "char list \<Rightarrow> ('k, 'e) tcp_connection \<Rightarrow> bool" where
  "stalled_inv w c \<longleftrightarrow> quiet_inv c \<and> content (outputBuffer c) \<noteq> [] \<and> wire c = w"

text \<open>The life cycle has come at least as far as \<open>r\<close>, and a closed connection stays as it is.\<close>

definition progress_inv ::
    "nat \<Rightarrow> char list \<Rightarrow> ('k, 'e) tcp_connection \<Rightarrow> bool" where
  "progress_inv r a c \<longleftrightarrow>
     quiet_inv c \<and> r \<le> rank (state c) \<and> (r = 3 \<longrightarrow> state c = kDisConnected \<and> accepted c = a)"

definition sync_inv ::
    "('k, 'e) net_env \<Rightarrow> ('k \<Rightarrow> int \<Rightarrow> (evmask \<times> chan_ptr) option) \<Rightarrow> (int \<Rightarrow> bool) \<Rightarrow>
     chan_ptr set \<Rightarrow> ('k, 'e) tcp_connection \<Rightarrow> bool" where
  "sync_inv E interest valid Ch c \<longleftrightarrow>
     epoll_spec (env_ctl E) interest valid \<and> in_sync interest valid Ch None (cpoller c) \<and>
     channel_ptr c \<in> Ch \<and> wf_buffer (outputBuffer c)"

lemma stream_send:
  assumes "stream_inv c" "write_ok wr" "length d \<le> vector_max_size" "sendInLoop E U wr d c = Inr c'"
  shows "stream_inv c'"
  using assms sendInLoop_stream [OF assms(4,2,3)] by (auto simp: stream_inv_def)

lemma stream_flush:
  "stream_inv c \<Longrightarrow> stream_inv (c\<lparr>wire := wire c @ take n (content (outputBuffer c)),
     outputBuffer := retrieve n (outputBuffer c)\<rparr>)"
  by (simp add: stream_inv_def content_retrieve wf_retrieve)

lemma stream_chan: "stream_inv c \<Longrightarrow> on_channel E x c = Inr c' \<Longrightarrow> stream_inv c'"
  by (auto simp: stream_inv_def dest!: on_channel_InrD)

interpretation str: conn_invariant E U "\<lambda>c. user_ok E U \<and> stream_inv c" for E U
  by unfold_locales
    (auto intro: stream_send stream_flush stream_chan, auto simp: stream_inv_def)

lemma quiet_send:
  assumes "quiet_inv c" "write_ok wr" "length d \<le> vector_max_size" "sendInLoop E U wr d c = Inr c'"
  shows "quiet_inv c'" "the_channel c' = the_channel c"
proof -
  have "wf_buffer (outputBuffer c)" "\<not> isWriting (the_channel c)"
    using assms(1) by (simp_all add: quiet_inv_def stream_inv_def)
  from sendInLoop_stream [OF assms(4,2,3) this(1)] this(2)
  show "the_channel c' = the_channel c" by (simp add: the_channel_def)
  then show "quiet_inv c'"
    using assms stream_send [OF _ assms(2,3,4)] by (simp add: quiet_inv_def)
qed

lemma quiet_chan:
  assumes "quiet_inv c" "x \<noteq> EnableWriting" "on_channel E x c = Inr c'"
  shows "quiet_inv c'"
proof -
  obtain s where s: "chan_step (env_ctl E) x (channel_ptr c) (cpoller c) = Inr s"
      "c' = c\<lparr>cpoller := s\<rparr>"
    using on_channel_InrD [OF assms(3)] by blast
  have "events (the_channel c') = mask_after x (events (the_channel c))"
    using chan_step_chan [OF s(1)] s(2) by (auto simp: the_channel_def)
  then show ?thesis
    using assms only_EnableWriting_sets_writing [OF assms(2)] stream_chan [OF _ assms(3)]
    by (simp add: quiet_inv_def isWriting_def)
qed

lemma quiet_frame:
  "quiet_inv c \<Longrightarrow> quiet_inv (queue_functor E f c)" "quiet_inv c \<Longrightarrow> quiet_inv (c\<lparr>state := s\<rparr>)"
  "quiet_inv c \<Longrightarrow> quiet_inv (c\<lparr>shut := x\<rparr>)" "quiet_inv c \<Longrightarrow> quiet_inv (c\<lparr>inputBuffer := b\<rparr>)"
  "quiet_inv c \<Longrightarrow>
     quiet_inv (c\<lparr>cpoller := upd_chan (channel_ptr c) (tie_to obj) (cpoller c)\<rparr>)"
  by (simp_all add: quiet_inv_def stream_inv_def the_channel_def isWriting_def tie_to_def)

lemma quiet_not_writing: "quiet_inv c \<Longrightarrow> \<not> isWriting (the_channel c)"
  by (simp add: quiet_inv_def)

interpretation qu: conn_invariant E U "\<lambda>c. user_ok E U \<and> quiet_inv c" for E U
  by unfold_locales (auto intro: quiet_send quiet_chan quiet_frame dest: quiet_not_writing)

lemma stalled_send:
  assumes "stalled_inv w c" "write_ok wr" "length d \<le> vector_max_size" "sendInLoop E U wr d c = Inr c'"
  shows "stalled_inv w c'"
proof -
  have c: "quiet_inv c" "wf_buffer (outputBuffer c)" "content (outputBuffer c) \<noteq> []" "wire c = w"
    using assms(1) by (simp_all add: stalled_inv_def quiet_inv_def stream_inv_def)
  from sendInLoop_stream [OF assms(4,2,3) c(2)] c show ?thesis
    using quiet_send(1) [OF c(1) assms(2,3,4)] by (auto simp: stalled_inv_def)
qed

lemma on_channel_frame:
  assumes "on_channel E x c = Inr c'"
  shows "state c' = state c" "wire c' = wire c" "accepted c' = accepted c"
    "outputBuffer c' = outputBuffer c" "channel_ptr c' = channel_ptr c"
  using on_channel_InrD [OF assms] by auto

interpretation stl: conn_invariant E U "\<lambda>c. user_ok E U \<and> stalled_inv w c" for E U w
proof unfold_locales
  fix c c' wr d
  assume "user_ok E U \<and> stalled_inv w c" "write_ok wr" "length d \<le> vector_max_size"
    "sendInLoop E U wr d c = Inr c'"
  then show "user_ok E U \<and> stalled_inv w c'" by (auto intro: stalled_send)
qed (auto simp: stalled_inv_def on_channel_frame intro: quiet_chan quiet_frame
    dest: quiet_not_writing)

lemma progress_send:
  assumes "progress_inv r a c" "write_ok wr" "length d \<le> vector_max_size"
    "sendInLoop E U wr d c = Inr c'"
  shows "progress_inv r a c'"
proof -
  have c: "quiet_inv c" "wf_buffer (outputBuffer c)"
    using assms(1) by (simp_all add: progress_inv_def quiet_inv_def stream_inv_def)
  from sendInLoop_stream [OF assms(4,2,3) c(2)] show ?thesis
    using quiet_send(1) [OF c(1) assms(2,3,4)] assms(1) by (auto simp: progress_inv_def)
qed

lemma rank_3: "3 \<le> rank s \<longleftrightarrow> s = kDisConnected"
  by (cases s) simp_all

interpretation prg: conn_invariant E U "\<lambda>c. user_ok E U \<and> progress_inv r a c" for E U r a
proof unfold_locales
  fix c c' wr d
  assume "user_ok E U \<and> progress_inv r a c" "write_ok wr" "length d \<le> vector_max_size"
    "sendInLoop E U wr d c = Inr c'"
  then show "user_ok E U \<and> progress_inv r a c'" using progress_send by blast
qed (auto simp: progress_inv_def on_channel_frame rank_3 intro: quiet_chan quiet_frame
    dest: quiet_not_writing)

lemma in_sync_tie:
  assumes "in_sync interest valid Ch None s"
  shows "in_sync interest valid Ch None (upd_chan p (tie_to obj) s)"
proof -
  have same: "fd (chan (upd_chan p (tie_to obj) s) q) = fd (chan s q)"
    "index (chan (upd_chan p (tie_to obj) s) q) = index (chan s q)"
    "events (chan (upd_chan p (tie_to obj) s) q) = events (chan s q)" for q
    by (simp_all add: tie_to_def)
  show ?thesis
    using assms unfolding in_sync_def same upd_chan_simps(2,3) .
qed

lemma sync_chan:
  assumes "sync_inv E interest valid Ch c" "on_channel E x c = Inr c'"
  shows "sync_inv E interest valid Ch c'"
proof -
  have c: "epoll_spec (env_ctl E) interest valid \<and> in_sync interest valid Ch None (cpoller c)"
      "channel_ptr c \<in> Ch" "wf_buffer (outputBuffer c)"
    using assms(1) by (simp_all add: sync_inv_def)
  from reg.step_ok [OF c(1,2), of x] on_channel_InrD [OF assms(2)] c show ?thesis
    by (auto simp: sync_inv_def)
qed

lemma sync_send:
  assumes "sync_inv E interest valid Ch c" "write_ok wr" "length d \<le> vector_max_size"
    "sendInLoop E U wr d c = Inr c'"
  shows "sync_inv E interest valid Ch c'"
proof -
  have c: "epoll_spec (env_ctl E) interest valid \<and> in_sync interest valid Ch None (cpoller c)"
      "channel_ptr c \<in> Ch" "wf_buffer (outputBuffer c)"
    using assms(1) by (simp_all add: sync_inv_def)
  from sendInLoop_stream [OF assms(4,2,3) c(3)] reg.step_ok [OF c(1,2), of EnableWriting] c
  show ?thesis by (auto simp: sync_inv_def)
qed

interpretation syn: conn_invariant E U "\<lambda>c. user_ok E U \<and> sync_inv E interest valid Ch c"
  for E U interest valid Ch
  by unfold_locales
    (auto intro: sync_send sync_chan,
     auto simp: sync_inv_def intro: in_sync_tie wf_retrieve)

section \<open>Properties\<close>

lemma new_quiet:
  assumes "TcpConnection_new lp s nameArg sockfd p = Inr c"
  shows "quiet_inv c" "wire c = []" "accepted c = []" "state c = kConnecting"
  using assms
  by (auto simp: TcpConnection_new_def quiet_inv_def stream_inv_def the_channel_def isWriting_def
      Channel_new_def kInitialSize_def buffer_consts intro!: wf_Buffer_new split: option.splits)

text \<open>A send on an idle connection of which the kernel takes only the first \<open>k\<close> bytes.\<close>

lemma send_partial:
  assumes "state c = kConnected" "isInLoopThread (env_tid E) (cloop c)" "quiet_inv c"
    "content (outputBuffer c) = []" "wr d = Inr k" "k < length d" "length d \<le> room (outputBuffer c)"
  obtains c1 where "send_string E U wr d c = Inr c1" "wire c1 = wire c @ take k d"
    "content (outputBuffer c1) = drop k d" "state c1 = kConnected"
    "the_channel c1 = the_channel c" "accepted c1 = accepted c @ d"
proof -
  have wf: "wf_buffer (outputBuffer c)" and nw: "\<not> isWriting (the_channel c)"
    using assms(3) by (simp_all add: quiet_inv_def stream_inv_def)
  have r: "readableBytes (outputBuffer c) = 0"
    by (simp add: readableBytes_content wf assms(4))
  have "length d \<le> vector_max_size" using assms(7) by (simp add: room_def)
  then have sub: "szsub (length d) k = length d - k"
    using assms(6) by (simp add: szsub_exact buffer_consts)
  have "length (drop k d) \<le> room (outputBuffer c)" using assms(7) by simp
  then obtain b where b: "append (drop k d) (outputBuffer c) = Inr b" "content b = drop k d"
    using append_ok [OF wf, of "drop k d"] assms(4) by (metis append_Nil)
  define c1 where "c1 = (let c0 = c\<lparr>wire := wire c @ take k d, accepted := accepted c @ d\<rparr>;
      m = szadd 0 (length d - k);
      c2 = (if highWaterMark c0 \<le> m \<and> 0 < highWaterMark c0 \<and> highWaterMarkCallback U \<noteq> None
            then queue_functor E (FHighWaterMark m) c0 else c0)
      in c2\<lparr>outputBuffer := b\<rparr>)"
  have "send_string E U wr d c = Inr c1"
    using assms nw r sub b(1)
    by (auto simp: send_string_def sendInLoop_def sendInLoop_write_def Let_def c1_def)
  then show thesis
    using that [of c1] b assms(1) by (simp add: c1_def Let_def)
qed

text \<open>
  C1: stream integrity. From the construction of a connection on, through any sequence of
  sends, shutdowns, reads, write events, closes, queued functors, establishment and
  destruction, with user callbacks that act through the public operations and any partial
  writes of the kernel: the bytes taken over by \<^verbatim>\<open>sendInLoop\<close> are exactly the bytes the kernel has
  received followed by those in the output buffer. Nothing is reordered, duplicated or dropped
  from the middle.
\<close>

theorem connection_stream_integrity:
  assumes "user_ok E U" "TcpConnection_new lp s nameArg sockfd p = Inr c0"
    "(conn_step E U)\<^sup>*\<^sup>* c0 c"
  shows "accepted c = wire c @ content (outputBuffer c)"
proof -
  have "user_ok E U \<and> stream_inv c0"
    using assms(1) new_quiet(1) [OF assms(2)] by (simp add: quiet_inv_def)
  from str.conn_steps_inv [OF assms(3) this] show ?thesis
    by (simp add: stream_inv_def)
qed

text \<open>
  C37: a partial write is never continued. Because \<^verbatim>\<open>sendInLoop\<close> calls \<^verbatim>\<open>enableWriting\<close> only when
  the channel is already writing, no connection ever registers for write events, and once a
  byte has stayed behind in the output buffer the kernel receives nothing more from this
  connection, whatever is sent or happens later.
\<close>

theorem partial_write_stalls:
  assumes "user_ok E U" "TcpConnection_new lp s nameArg sockfd p = Inr c0"
    "(conn_step E U)\<^sup>*\<^sup>* c0 c" "content (outputBuffer c) \<noteq> []" "(conn_step E U)\<^sup>*\<^sup>* c c'"
  shows "wire c' = wire c \<and> content (outputBuffer c') \<noteq> [] \<and> \<not> isWriting (the_channel c')"
proof -
  have "user_ok E U \<and> quiet_inv c"
    using qu.conn_steps_inv [OF assms(3)] assms(1) new_quiet(1) [OF assms(2)] by blast
  then have "user_ok E U \<and> stalled_inv (wire c) c"
    using assms(4) by (simp add: stalled_inv_def)
  from stl.conn_steps_inv [OF assms(5) this] show ?thesis
    by (simp add: stalled_inv_def quiet_inv_def)
qed

text \<open>
  C30: the life cycle only moves forward (connecting, connected, disconnecting, disconnected), and
  once a connection is disconnected it stays so and takes no more data.
\<close>

theorem connection_life_cycle:
  assumes "user_ok E U" "TcpConnection_new lp s nameArg sockfd p = Inr c0"
    "(conn_step E U)\<^sup>*\<^sup>* c0 c" "(conn_step E U)\<^sup>*\<^sup>* c c'"
  shows "rank (state c) \<le> rank (state c') \<and>
    (state c = kDisConnected \<longrightarrow> state c' = kDisConnected \<and> accepted c' = accepted c)"
proof -
  have "user_ok E U \<and> quiet_inv c"
    using qu.conn_steps_inv [OF assms(3)] assms(1) new_quiet(1) [OF assms(2)] by blast
  moreover have "state c = kDisConnected" if "rank (state c) = 3"
    using that by (cases "state c") simp_all
  ultimately have "user_ok E U \<and> progress_inv (rank (state c)) (accepted c) c"
    by (auto simp: progress_inv_def)
  from prg.conn_steps_inv [OF assms(4) this] show ?thesis
    by (auto simp: progress_inv_def)
qed

text \<open>
  C29: a closed connection is always cleaned up. If the connection's channel is one of the
  channels that poller and kernel agree on, the agreement survives everything that happens to
  the connection, and once it is disconnected \<^verbatim>\<open>connectDestroyed\<close> succeeds, calls no user callback
  and leaves the descriptor neither in the poller's map nor in the kernel's interest list.
\<close>

theorem closed_connection_is_removed:
  assumes "user_ok E U" "epoll_spec (env_ctl E) interest valid"
    "in_sync interest valid Ch None (cpoller c0)" "channel_ptr c0 \<in> Ch"
    "wf_buffer (outputBuffer c0)" "(conn_step E U)\<^sup>*\<^sup>* c0 c" "state c = kDisConnected"
  shows "\<exists>s. connectDestroyed E U c = Inr (c\<lparr>cpoller := s\<rparr>) \<and> in_sync interest valid Ch None s \<and>
    channels s (fd (the_channel c)) = None \<and> interest (kern s) (fd (the_channel c)) = None"
proof -
  have "user_ok E U \<and> sync_inv E interest valid Ch c"
    using syn.conn_steps_inv [OF assms(6)] assms(1-5) by (simp add: sync_inv_def)
  then have c: "in_sync interest valid Ch None (cpoller c)" "channel_ptr c \<in> Ch"
    by (simp_all add: sync_inv_def)
  obtain s where s: "removeChannel (env_ctl E) (channel_ptr c) (cpoller c) = Inr s"
      "in_sync interest valid Ch None s"
      "chan s = (chan (cpoller c))(channel_ptr c := (the_channel c)\<lparr>index := kNew\<rparr>)"
    using removeChannel_ok [OF assms(2) c] by (auto simp: the_channel_def)
  have "channels s (fd (the_channel c)) = None" "interest (kern s) (fd (the_channel c)) = None"
    using in_syncD(3,5) [OF s(2) c(2)] s(3) by simp_all
  with s(1,2) show ?thesis
    by (auto simp: connectDestroyed_def assms(7) on_channel_def)
qed

text \<open>
  Shutting down loses what is still buffered. If the kernel takes only part of a message
  and the user then calls \<^verbatim>\<open>shutdown\<close>, the queued \<^verbatim>\<open>shutdownInLoop\<close> closes the write side at once,
  although the rest of the message sits in the output buffer: the test \<^verbatim>\<open>!isWriting()\<close> that is
  meant to say that all output has been sent holds on every connection.
\<close>

theorem shutdown_drops_pending:
  assumes "state c = kConnected" "isInLoopThread (env_tid E) (cloop c)" "quiet_inv c"
    "content (outputBuffer c) = []" "wr d = Inr k" "k < length d" "length d \<le> room (outputBuffer c)"
  shows "\<exists>c1 c2. send_string E U wr d c = Inr c1 \<and>
    run_functor E U wr mem FShutdownInLoop (shutdown E c1) = Inr c2 \<and>
    shut c2 \<and> wire c2 = wire c @ take k d \<and> content (outputBuffer c2) = drop k d"
proof -
  obtain c1 where c1: "send_string E U wr d c = Inr c1" "wire c1 = wire c @ take k d"
      "content (outputBuffer c1) = drop k d" "the_channel c1 = the_channel c" "state c1 = kConnected"
    using send_partial [of c E wr d k U] assms by metis
  moreover have "\<not> isWriting (the_channel c)" using assms(3) by (simp add: quiet_inv_def)
  ultimately show ?thesis
    by (auto simp: run_functor_def shutdownInLoop_def shutdown_def)
qed

section \<open>A run of a connection\<close>

text \<open>
  The hypotheses of the properties above hold together: a connection on a plain epoll instance,
  with callbacks that do nothing, is established, and a message of five bytes is sent of which
  the kernel takes two.
\<close>

definition demo_env :: "(int \<Rightarrow> (evmask \<times> chan_ptr) option, nat) net_env" where
  "demo_env = \<lparr>env_ctl = simple_epoll, env_efd_write = Suc, env_tid = 0\<rparr>"

definition demo_user ::
    "(int \<Rightarrow> (evmask \<times> chan_ptr) option, nat) tcp_connection user_callbacks" where
  "demo_user =
     \<lparr>connectionCallback = Some Inr, messageCallback = Some (\<lambda>_. Inr), writeCompleteCallback = None,
      closeCallbackU = Some Inr, highWaterMarkCallback = None\<rparr>"

definition demo_poller :: "(int \<Rightarrow> (evmask \<times> chan_ptr) option) poller" where
  "demo_poller =
     \<lparr>chan = (\<lambda>_. Channel_new 0), channels = (\<lambda>_. None), kern = (\<lambda>_. None), ev_size = 16\<rparr>"

definition demo_write :: "char list \<Rightarrow> int + nat" where
  "demo_write d = Inr (min 2 (length d))"

lemma demo_user_ok: "user_ok demo_env demo_user"
  by (simp add: user_ok_def demo_user_def acts_by_api_def)

lemma demo_write_ok: "write_ok demo_write"
  by (auto simp: write_ok_def demo_write_def)

lemmas demo_defs = TcpConnection_new_def connectEstablished_def on_channel_def call_def Let_def
  enableReading_def updateChannel_def update_def simple_epoll_def demo_env_def demo_user_def
  demo_poller_def Channel_new_def tie_to_def isNonEvents_def kNew_def kDeleted_def

lemma demo_established:
  obtains c0 c where
    "TcpConnection_new (Some (EventLoop_new 0 0)) demo_poller ''c'' 5 1 = Inr c0"
    "conn_step demo_env demo_user c0 c" "state c = kConnected" "wire c = []" "accepted c = []"
    "outputBuffer c = Buffer_new kInitialSize" "isInLoopThread (env_tid demo_env) (cloop c)"
    "channel_ptr c0 = 1" "wf_buffer (outputBuffer c0)" "quiet_inv c"
    "in_sync id (\<lambda>f. 0 \<le> f) {1} None (cpoller c0)"
proof -
  define c0 where "c0 = projr (TcpConnection_new (Some (EventLoop_new 0 (0 :: nat))) demo_poller ''c'' 5 1)"
  define c where "c = projr (connectEstablished demo_env demo_user 7 c0)"
  have new: "TcpConnection_new (Some (EventLoop_new 0 0)) demo_poller ''c'' 5 1 = Inr c0"
    by (simp add: c0_def TcpConnection_new_def)
  have est: "connectEstablished demo_env demo_user 7 c0 = Inr c"
    by (simp add: c_def c0_def demo_defs)
  have step: "conn_step demo_env demo_user c0 c"
    by (rule cs_establish [OF _ est]) (rule new_quiet(4) [OF new])
  have "user_ok demo_env demo_user \<and> quiet_inv c"
    using qu.conn_step_inv [OF step] demo_user_ok new_quiet(1) [OF new] by blast
  moreover have "in_sync id (\<lambda>f. 0 \<le> f) {1} None (cpoller c0)"
    by (simp add: c0_def TcpConnection_new_def demo_poller_def in_sync_def Channel_new_def kNew_def
        kAdded_def)
  moreover have "wf_buffer (outputBuffer c0)"
    using new_quiet(1) [OF new] by (simp add: quiet_inv_def stream_inv_def)
  moreover have "state c = kConnected" "wire c = []" "accepted c = []" "channel_ptr c0 = 1"
    "outputBuffer c = Buffer_new kInitialSize" "isInLoopThread (env_tid demo_env) (cloop c)"
    by (simp_all add: c_def c0_def demo_defs isInLoopThread_def EventLoop_new_def)
  ultimately show thesis using new step that by blast
qed

lemma demo_room: "length ''hello'' \<le> room (Buffer_new kInitialSize)"
  by (simp add: room_def Buffer_new_def buffer_consts szadd_def kInitialSize_def)

lemma demo_sent:
  obtains c0 c1 where
    "TcpConnection_new (Some (EventLoop_new 0 0)) demo_poller ''c'' 5 1 = Inr c0"
    "(conn_step demo_env demo_user)\<^sup>*\<^sup>* c0 c1" "wire c1 = ''he''"
    "content (outputBuffer c1) = ''llo''" "accepted c1 = ''hello''" "state c1 = kConnected"
proof -
  obtain c0 c where c: "TcpConnection_new (Some (EventLoop_new 0 0)) demo_poller ''c'' 5 1 = Inr c0"
    "conn_step demo_env demo_user c0 c" "state c = kConnected" "wire c = []" "accepted c = []"
    "outputBuffer c = Buffer_new kInitialSize" "isInLoopThread (env_tid demo_env) (cloop c)"
    "quiet_inv c"
    using demo_established by metis
  obtain c1 where c1: "send_string demo_env demo_user demo_write ''hello'' c = Inr c1"
      "wire c1 = wire c @ take 2 ''hello''" "content (outputBuffer c1) = drop 2 ''hello''"
      "accepted c1 = accepted c @ ''hello''" "state c1 = kConnected"
    using send_partial [OF c(3,7,8), of demo_write "''hello''" 2 demo_user] c(6) demo_room
    by (auto simp: demo_write_def)
  have "conn_step demo_env demo_user c c1"
    by (rule cs_api [OF api_send [OF demo_write_ok _ c1(1)]]) (simp add: vector_max_size_def)
  with c c1 show thesis
    by (intro that [of c0 c1]) auto
qed

theorem connection_stream_integrity_witness:
  "\<exists>c0 c. TcpConnection_new (Some (EventLoop_new 0 0)) demo_poller ''c'' 5 1 = Inr c0 \<and>
     (conn_step demo_env demo_user)\<^sup>*\<^sup>* c0 c \<and> accepted c = ''hello'' \<and> wire c = ''he'' \<and>
     accepted c = wire c @ content (outputBuffer c)"
  using demo_sent connection_stream_integrity [OF demo_user_ok] by metis

theorem partial_write_stalls_witness:
  "\<exists>c0 c. TcpConnection_new (Some (EventLoop_new 0 0)) demo_poller ''c'' 5 1 = Inr c0 \<and>
     (conn_step demo_env demo_user)\<^sup>*\<^sup>* c0 c \<and> content (outputBuffer c) = ''llo'' \<and>
     wire (shutdown demo_env c) = wire c \<and> content (outputBuffer (shutdown demo_env c)) \<noteq> []"
proof -
  obtain c0 c1 where c: "TcpConnection_new (Some (EventLoop_new 0 0)) demo_poller ''c'' 5 1 = Inr c0"
    "(conn_step demo_env demo_user)\<^sup>*\<^sup>* c0 c1" "content (outputBuffer c1) = ''llo''"
    using demo_sent by metis
  have "(conn_step demo_env demo_user)\<^sup>*\<^sup>* c1 (shutdown demo_env c1)"
    by (rule r_into_rtranclp) (rule cs_api [OF api_shutdown])
  from partial_write_stalls [OF demo_user_ok c(1,2) _ this] c show ?thesis
    by auto
qed

theorem connection_life_cycle_witness:
  "\<exists>c0 c. TcpConnection_new (Some (EventLoop_new 0 0)) demo_poller ''c'' 5 1 = Inr c0 \<and>
     (conn_step demo_env demo_user)\<^sup>*\<^sup>* c0 c \<and> state c = kConnected \<and>
     rank (state c0) \<le> rank (state c)"
  using demo_sent connection_life_cycle [OF demo_user_ok _ rtranclp.rtrancl_refl] by metis

theorem shutdown_drops_pending_witness:
  "\<exists>c c1 c2. send_string demo_env demo_user demo_write ''hello'' c = Inr c1 \<and>
     run_functor demo_env demo_user demo_write (\<lambda>_. []) FShutdownInLoop (shutdown demo_env c1) = Inr c2 \<and>
     shut c2 \<and> wire c2 = wire c @ ''he'' \<and> content (outputBuffer c2) = ''llo''"
proof -
  obtain c0 c where "conn_step demo_env demo_user c0 c" and c: "state c = kConnected"
    "outputBuffer c = Buffer_new kInitialSize"
    "isInLoopThread (env_tid demo_env) (cloop c)" "quiet_inv c"
    by (rule demo_established)
  have w: "demo_write ''hello'' = Inr 2" and k: "2 < length ''hello''"
    by (simp_all add: demo_write_def)
  have o: "content (outputBuffer c) = []" "length ''hello'' \<le> room (outputBuffer c)"
    using c(2) demo_room by simp_all
  obtain c1 c2 where "send_string demo_env demo_user demo_write ''hello'' c = Inr c1"
      "run_functor demo_env demo_user demo_write (\<lambda>_. []) FShutdownInLoop (shutdown demo_env c1) = Inr c2"
      "shut c2" "wire c2 = wire c @ take 2 ''hello''" "content (outputBuffer c2) = drop 2 ''hello''"
    using shutdown_drops_pending [of c demo_env demo_write "''hello''" 2 demo_user "\<lambda>_. []"]
      c(1,3,4) o w k by blast
  then show ?thesis
    by (intro exI [of _ c] exI [of _ c1] exI [of _ c2]) simp
qed

text \<open>The established connection is closed by its peer, and then destroyed by the server.\<close>

theorem closed_connection_is_removed_witness:
  "\<exists>c s. state c = kDisConnected \<and> connectDestroyed demo_env demo_user c = Inr (c\<lparr>cpoller := s\<rparr>) \<and>
     channels s (fd (the_channel c)) = None \<and> kern s (fd (the_channel c)) = None"
proof -
  obtain c0 c where c: "conn_step demo_env demo_user c0 c" "channel_ptr c0 = 1"
    "wf_buffer (outputBuffer c0)" "in_sync id (\<lambda>f. 0 \<le> f) {1} None (cpoller c0)"
    using demo_established by metis
  have ep: "epoll_spec (env_ctl demo_env) id (\<lambda>f. 0 \<le> f)"
    using simple_epoll_spec by (simp add: demo_env_def)
  have "user_ok demo_env demo_user \<and> sync_inv demo_env id (\<lambda>f. 0 \<le> f) {1} c"
    by (rule syn.conn_step_inv [OF c(1)]) (use c demo_user_ok ep in \<open>simp add: sync_inv_def\<close>)
  then obtain s where s: "chan_step simple_epoll DisableAll (channel_ptr c) (cpoller c) = Inr s"
    using reg.step_ok [of simple_epoll id "\<lambda>f. 0 \<le> f" "{1}" "cpoller c" "channel_ptr c" DisableAll] ep
    by (auto simp: sync_inv_def demo_env_def)
  define c1 where "c1 = c\<lparr>state := kDisConnected, cpoller := s\<rparr>"
  have "run_callback demo_env demo_user demo_write (Inl 0) (Inl 0) 0 CbClose c = Inr c1"
    using s by (simp add: run_callback_def handleClose_def on_channel_def call_def demo_user_def
        demo_env_def c1_def)
  from cs_callback [OF demo_write_ok this] c(1)
  have "(conn_step demo_env demo_user)\<^sup>*\<^sup>* c0 c1" by auto
  moreover have closed: "state c1 = kDisConnected" by (simp add: c1_def)
  ultimately obtain t where "connectDestroyed demo_env demo_user c1 = Inr (c1\<lparr>cpoller := t\<rparr>)"
      "channels t (fd (the_channel c1)) = None" "id (kern t) (fd (the_channel c1)) = None"
    using closed_connection_is_removed [OF demo_user_ok ep c(4) _ c(3)] c(2) by blast
  with closed show ?thesis by auto
qed

end
