(* ===== verification/HttpContext.thy ===== *)
theory HttpContext
  imports Buffer "HOL-Library.Signed_Division"
begin

text \<open>
  HTTP requests (\<^verbatim>\<open>src/http/HttpRequest_test.h\<close>) and their parser (\<^verbatim>\<open>src/http/HttpContext.h\<close>,
  \<^verbatim>\<open>HttpContext.cc\<close>): a state machine that takes one line after the other from the front of a
  byte buffer. The two regular expressions of the parser are written out as the splits of a
  line that they describe. The methods keep the names of the class without the final underscore.
\<close>

section \<open>Requests\<close>

datatype Method = kInvalid | kGet | kPost | kHead | kPut | kDelete

datatype Version = kUnknownVersion | kHttp10 | kHttp11

record request =
  req_method :: Method
  version :: Version
  path :: string
  query :: string
  body :: string
  receiveTime :: int
  header :: "string \<Rightarrow> string option"
  post :: "string \<Rightarrow> string option"

definition HttpRequest_new :: request where
  "HttpRequest_new =
     \<lparr>req_method = kInvalid, version = kUnknownVersion, path = [], query = [], body = [],
      receiveTime = 0, header = Map.empty, post = Map.empty\<rparr>"

definition DEFAULT_HTML :: "string list" where
  "DEFAULT_HTML = [''/index'', ''/welcome'', ''/video'', ''/picture'']"

definition setMethod :: "Method \<Rightarrow> request \<Rightarrow> request result" where
  "setMethod m r = bindR (assertR (m \<noteq> kInvalid)) (\<lambda>_. Inr (r\<lparr>req_method := m\<rparr>))"

definition methodString :: "request \<Rightarrow> string" where
  "methodString r =
     (case req_method r of kGet \<Rightarrow> ''GET'' | kPost \<Rightarrow> ''POST'' | kHead \<Rightarrow> ''HEAD''
      | kPut \<Rightarrow> ''PUT'' | kDelete \<Rightarrow> ''DELETE'' | kInvalid \<Rightarrow> ''UNKNOWN'')"

definition setPath :: "string \<Rightarrow> request \<Rightarrow> request" where
  "setPath p r = r\<lparr>path := p\<rparr>"

definition push_back_setPath :: "string \<Rightarrow> request \<Rightarrow> request" where
  "push_back_setPath p r = r\<lparr>path := path r @ p\<rparr>"

definition setVersion :: "Version \<Rightarrow> request \<Rightarrow> request" where
  "setVersion v r = r\<lparr>version := v\<rparr>"

definition addHeader :: "string \<Rightarrow> string \<Rightarrow> request \<Rightarrow> request" where
  "addHeader key val r = r\<lparr>header := (header r)(key \<mapsto> val)\<rparr>"

definition addPost :: "string \<Rightarrow> string \<Rightarrow> request \<Rightarrow> request" where
  "addPost key val r = r\<lparr>post := (post r)(key \<mapsto> val)\<rparr>"

definition getHeader :: "string \<Rightarrow> request \<Rightarrow> string" where
  "getHeader field r = (case header r field of None \<Rightarrow> [] | Some v \<Rightarrow> v)"

definition setBody :: "string \<Rightarrow> request \<Rightarrow> request" where
  "setBody b r = r\<lparr>body := b\<rparr>"

text \<open>\<^verbatim>\<open>swap\<close> exchanges all fields with a copy of \<open>that\<close>, except \<^verbatim>\<open>body_\<close> and \<^verbatim>\<open>post_\<close>.\<close>

definition swap_request :: "request \<Rightarrow> request \<Rightarrow> request" where
  "swap_request that r =
     r\<lparr>req_method := req_method that, version := version that, path := path that,
       receiveTime := receiveTime that, query := query that, header := header that\<rparr>"

definition isKeepAlive :: "request \<Rightarrow> bool" where
  "isKeepAlive r =
     (case header r ''Connection'' of
        Some v \<Rightarrow> v = ''keep-alive'' \<and> version r = kHttp11
      | None \<Rightarrow> False)"

definition getPost :: "string \<Rightarrow> request \<Rightarrow> string" where
  "getPost key r = (case post r key of None \<Rightarrow> [] | Some v \<Rightarrow> v)"

section \<open>The parser's lines\<close>

datatype PARSE_STATE = REQUEST_LINE | HEADERS | BODY | FINISH

record http_context =
  req :: request
  pstate :: PARSE_STATE

definition HttpContext_new :: http_context where
  "HttpContext_new = \<lparr>req = HttpRequest_new, pstate = REQUEST_LINE\<rparr>"

definition gotAll :: "http_context \<Rightarrow> bool" where
  "gotAll c \<longleftrightarrow> pstate c = FINISH"

definition reset :: "http_context \<Rightarrow> http_context" where
  "reset c = c\<lparr>pstate := REQUEST_LINE, req := swap_request HttpRequest_new (req c)\<rparr>"

definition CR :: char where "CR = CHR 0x0D"
definition LF :: char where "LF = CHR 0x0A"
definition CRLF :: string where "CRLF = [CR, LF]"

text \<open>
  \<^verbatim>\<open>std::search\<close> for \<^verbatim>\<open>CRLF\<close>: the offset of its first occurrence, or the length of the range.
\<close>

fun search_CRLF :: "string \<Rightarrow> nat" where
  "search_CRLF [] = 0"
| "search_CRLF [x] = 1"
| "search_CRLF (x # y # xs) = (if x = CR \<and> y = LF then 0 else Suc (search_CRLF (y # xs)))"

text \<open>\<open>split_at c xs\<close> is what stands before and after the first \<open>c\<close>.\<close>

fun split_at :: "char \<Rightarrow> string \<Rightarrow> (string \<times> string) option" where
  "split_at c [] = None"
| "split_at c (x # xs) =
     (if x = c then Some ([], xs) else map_option (\<lambda>(a, b). (x # a, b)) (split_at c xs))"

text \<open>
  The matches of \<^verbatim>\<open>^([^ ]*) ([^ ]*) HTTP/([^ ]*)$\<close>: three fields without spaces, the third after
  \<^verbatim>\<open>HTTP/\<close>. The first space ends the first field and the second the second, so there is at most
  one match.
\<close>

definition match_request_line :: "string \<Rightarrow> (string \<times> string \<times> string) option" where
  "match_request_line line =
     (case split_at CHR '' '' line of None \<Rightarrow> None
      | Some (m, rest) \<Rightarrow>
          (case split_at CHR '' '' rest of None \<Rightarrow> None
           | Some (p, v) \<Rightarrow>
               if take 5 v = ''HTTP/'' \<and> CHR '' '' \<notin> set v then Some (m, p, drop 5 v) else None))"

text \<open>
  The matches of \<^verbatim>\<open>^([^:]*): ?(.*)$\<close>: the text before the first colon and the text after it, less
  one space; a dot matches no line terminator.
\<close>

definition match_header :: "string \<Rightarrow> (string \<times> string) option" where
  "match_header line =
     (case split_at CHR '':'' line of None \<Rightarrow> None
      | Some (k, rest) \<Rightarrow>
          let v = (case rest of x # xs \<Rightarrow> if x = CHR '' '' then xs else rest | [] \<Rightarrow> [])
          in if CR \<in> set v \<or> LF \<in> set v then None else Some (k, v))"

definition parsePath :: "http_context \<Rightarrow> http_context" where
  "parsePath c =
     (if path (req c) = ''/'' then c\<lparr>req := setPath ''/index.html'' (req c)\<rparr>
      else if path (req c) \<in> set DEFAULT_HTML
      then c\<lparr>req := push_back_setPath ''.html'' (req c)\<rparr> else c)"

definition parseRequestLine :: "string \<Rightarrow> http_context \<Rightarrow> (bool \<times> http_context) result" where
  "parseRequestLine line c =
     (case match_request_line line of None \<Rightarrow> Inr (False, c)
      | Some (m, p, v) \<Rightarrow>
          bindR (if m = ''GET'' then setMethod kGet (req c) else Inr (req c)) (\<lambda>r.
            let r1 = setPath p r;
                r2 = (if v = ''1.1'' then setVersion kHttp11 r1
                      else if v = ''1.0'' then setVersion kHttp10 r1 else r1)
            in Inr (True, c\<lparr>req := r2, pstate := HEADERS\<rparr>)))"

definition parseRequestHeader :: "string \<Rightarrow> http_context \<Rightarrow> http_context" where
  "parseRequestHeader line c =
     (case match_header line of
        Some (k, v) \<Rightarrow> c\<lparr>req := addHeader k v (req c)\<rparr>
      | None \<Rightarrow> c\<lparr>pstate := BODY\<rparr>)"

text \<open>A \<^verbatim>\<open>char\<close> as the signed number it is promoted to, and back.\<close>

definition char_int :: "char \<Rightarrow> int" where
  "char_int ch = (let n = of_char ch in if n < 128 then n else n - 256)"

definition int_char :: "int \<Rightarrow> char" where
  "int_char i = char_of (nat (i mod 256))"

definition convertHex :: "char \<Rightarrow> int" where
  "convertHex ch =
     (let c = char_int ch in
      if 65 \<le> c \<and> c \<le> 70 then c - 65 + 10
      else if 97 \<le> c \<and> c \<le> 102 then c - 97 + 10
      else c)"

text \<open>
  The loop of \<^verbatim>\<open>parsePost_\<close> over the body; \<^verbatim>\<open>body[size()]\<close> reads as a null character, but writing
  there or accessing anything beyond is out of bounds.
\<close>

function parsePost_loop ::
    "nat \<Rightarrow> nat \<Rightarrow> string \<Rightarrow> string \<Rightarrow> request \<Rightarrow> (string \<times> request) result" where
  "parsePost_loop i j key bdy r =
     (if i < length bdy then
        let ch = bdy ! i in
        if ch = CHR ''='' then
          parsePost_loop (Suc i) (i + 1) (take (i - j) (drop j bdy)) bdy r
        else if ch = CHR ''+'' then parsePost_loop (Suc i) j key (bdy[i := CHR '' '']) r
        else if ch = CHR ''%'' then
          if i + 2 < length bdy then
            let num = convertHex (bdy ! (i + 1)) * 16 + convertHex (bdy ! (i + 2));
                b1 = bdy[i + 2 := int_char (num smod 10 + 48), i + 1 := int_char (num sdiv 10 + 48)]
            in parsePost_loop (Suc (i + 2)) j key b1 r
          else Inl OutOfBounds
        else if ch = CHR ''&'' then
          parsePost_loop (Suc i) (i + 1) key bdy (addPost key (take (i - j) (drop j bdy)) r)
        else parsePost_loop (Suc i) j key bdy r
      else Inr (bdy, r))"
  by pat_completeness auto
termination
  by (relation "measure (\<lambda>(i, j, key, bdy, r). length bdy - i)") (auto simp: Let_def)

definition parsePost :: "http_context \<Rightarrow> http_context result" where
  "parsePost c =
     (if req_method (req c) = kPost \<and>
         getHeader ''Content-Type'' (req c) = ''application/x-www-form-urlencoded'' then
        if body (req c) = [] then Inr c
        else bindR (parsePost_loop 0 0 [] (body (req c)) (req c)) (\<lambda>(b, r).
               Inr (c\<lparr>req := setBody b r\<rparr>))
      else Inr c)"

definition parseDataBody :: "string \<Rightarrow> http_context \<Rightarrow> http_context result" where
  "parseDataBody line c =
     bindR (parsePost (c\<lparr>req := setBody line (req c)\<rparr>)) (\<lambda>c1. Inr (c1\<lparr>pstate := FINISH\<rparr>))"

section \<open>The parser\<close>

text \<open>
  One line in the current state; \<open>readable\<close> is the number of readable bytes before the line is
  taken off. The result says whether parsing goes on.
\<close>

definition parse_line :: "size_t \<Rightarrow> string \<Rightarrow> http_context \<Rightarrow> (bool \<times> http_context) result" where
  "parse_line readable line c =
     (case pstate c of
        REQUEST_LINE \<Rightarrow>
          bindR (parseRequestLine line c) (\<lambda>(ok, c1).
            Inr (if ok then (True, parsePath c1) else (False, c1)))
      | HEADERS \<Rightarrow>
          let c1 = parseRequestHeader line c
          in Inr (True, if readable \<le> 2 then c1\<lparr>pstate := FINISH\<rparr> else c1)
      | BODY \<Rightarrow> bindR (parseDataBody line c) (\<lambda>c1. Inr (True, c1))
      | FINISH \<Rightarrow> Inr (True, c))"

text \<open>
  The loop of \<^verbatim>\<open>parseRequest\<close>, with fuel. Its values are the parser's answer, the context and the
  buffer; \<^verbatim>\<open>None\<close> means that the fuel ran out.
\<close>

fun parse_loop :: "nat \<Rightarrow> http_context \<Rightarrow> buffer \<Rightarrow> (bool \<times> http_context \<times> buffer) result option" where
  "parse_loop 0 c b = None"
| "parse_loop (Suc fuel) c b =
     (if readableBytes b \<noteq> 0 \<and> pstate c \<noteq> FINISH then
        let text = window (store b) (peek b) (beginWrite b);
            lineEnd = peek b + search_CRLF text;
            line = take (search_CRLF text) text
        in (case parse_line (readableBytes b) line c of
              Inl e \<Rightarrow> Some (Inl e)
            | Inr (False, c1) \<Rightarrow> Some (Inr (False, c1, b))
            | Inr (True, c1) \<Rightarrow>
                if lineEnd = beginWrite b then Some (Inr (True, c1, b))
                else parse_loop fuel c1 (retrieveUntil (lineEnd + 2) b))
      else Some (Inr (True, c, b)))"

text \<open>Every turn takes at least two bytes off the buffer, so one turn per readable byte is enough.\<close>

definition parseRequest :: "http_context \<Rightarrow> buffer \<Rightarrow> (bool \<times> http_context \<times> buffer) result option" where
  "parseRequest c b =
     (if readableBytes b \<le> 0 then Some (Inr (False, c, b))
      else parse_loop (Suc (readableBytes b)) c b)"

section \<open>The parser on plain text\<close>

lemma search_CRLF_bounds: "search_CRLF xs = length xs \<or> search_CRLF xs + 2 \<le> length xs"
  by (induction xs rule: search_CRLF.induct) auto

text \<open>The specification: the same parser, reading a string instead of a buffer.\<close>

function parse_text :: "http_context \<Rightarrow> string \<Rightarrow> (bool \<times> http_context \<times> string) result" where
  "parse_text c xs =
     (if xs \<noteq> [] \<and> pstate c \<noteq> FINISH then
        (case parse_line (length xs) (take (search_CRLF xs) xs) c of
           Inl e \<Rightarrow> Inl e
         | Inr (False, c1) \<Rightarrow> Inr (False, c1, xs)
         | Inr (True, c1) \<Rightarrow>
             if search_CRLF xs = length xs then Inr (True, c1, xs)
             else parse_text c1 (drop (search_CRLF xs + 2) xs))
      else Inr (True, c, xs))"
  by pat_completeness auto
termination
  by (relation "measure (\<lambda>(c, xs). length xs)") auto

declare parse_text.simps [simp del]

definition abs_parse :: "(bool \<times> http_context \<times> buffer) result \<Rightarrow> (bool \<times> http_context \<times> string) result"
  where "abs_parse = map_sum id (\<lambda>(ok, c, b). (ok, c, content b))"

lemma content_window: "window (store b) (peek b) (beginWrite b) = content b"
  by (simp add: content_def peek_def beginWrite_def)

lemma lineEnd_is_end:
  assumes "wf_buffer b"
  shows "peek b + n = beginWrite b \<longleftrightarrow> n = length (content b)"
  using wf_bufferD [OF assms] by (auto simp: peek_def beginWrite_def content_def)

lemma retrieveUntil_line:
  assumes "wf_buffer b" "n + 2 \<le> length (content b)"
  shows "retrieveUntil (peek b + n + 2) b = retrieve (n + 2) b"
proof -
  have "szsub (peek b + n + 2) (peek b) = n + 2"
    using assms wf_bufferD [OF assms(1)]
    by (simp add: szsub_exact peek_def content_def size_mod_def)
  then show ?thesis by (simp add: retrieveUntil_def)
qed

lemma parse_loop_refines:
  assumes "wf_buffer b" "length (content b) < fuel"
  shows "map_option abs_parse (parse_loop fuel c b) = Some (parse_text c (content b))"
  using assms
proof (induction fuel arbitrary: c b)
  case (Suc fuel)
  let ?xs = "content b" and ?n = "search_CRLF (content b)"
  have readable: "readableBytes b = length ?xs"
    using Suc.prems(1) by (rule readableBytes_content)
  have tail: "map_option abs_parse (parse_loop fuel c1 (retrieveUntil (peek b + ?n + 2) b)) =
      Some (parse_text c1 (drop (?n + 2) ?xs))" if "?n \<noteq> length ?xs" for c1
  proof -
    have "?n + 2 \<le> length ?xs" using search_CRLF_bounds [of ?xs] that by simp
    then have "retrieveUntil (peek b + ?n + 2) b = retrieve (?n + 2) b"
      by (rule retrieveUntil_line [OF Suc.prems(1)])
    moreover have "length (content (retrieve (?n + 2) b)) < fuel"
      using Suc.prems \<open>?n + 2 \<le> length ?xs\<close> by (simp add: content_retrieve)
    ultimately show ?thesis
      using Suc.prems Suc.IH [of "retrieve (?n + 2) b" c1]
      by (simp only: content_retrieve wf_retrieve)
  qed
  show ?case
    using tail
    by (auto simp: parse_text.simps [of c ?xs] readable content_window Let_def abs_parse_def
        lineEnd_is_end [OF Suc.prems(1)] split: sum.splits bool.splits)
qed simp

lemma parse_loop_wf:
  "wf_buffer b \<Longrightarrow> parse_loop fuel c b = Some (Inr (ok, c', b')) \<Longrightarrow> wf_buffer b'"
proof (induction fuel arbitrary: c b)
  case (Suc fuel)
  have "wf_buffer (retrieveUntil n b)" for n
    using Suc.prems(1) by (simp add: retrieveUntil_def wf_retrieve)
  with Suc show ?case
    by (simp add: Let_def split: if_splits sum.splits bool.splits prod.splits) blast+
qed simp

section \<open>Lines\<close>

lemma search_CRLF_line: "CR \<notin> set l \<Longrightarrow> search_CRLF (l @ CRLF @ rest) = length l"
proof (induction l)
  case (Cons x l)
  then show ?case by (cases l) (auto simp: CRLF_def)
qed (simp add: CRLF_def)

lemma parse_text_line:
  assumes "CR \<notin> set l" "pstate c \<noteq> FINISH"
    "parse_line (length l + 2 + length rest) l c = Inr (True, c1)"
  shows "parse_text c (l @ CRLF @ rest) = parse_text c1 rest"
proof -
  have "search_CRLF (l @ CRLF @ rest) = length l"
    using assms(1) by (rule search_CRLF_line)
  moreover have "l @ CRLF @ rest \<noteq> []" "length (l @ CRLF @ rest) = length l + 2 + length rest"
    "take (length l) (l @ CRLF @ rest) = l" "drop (length l + 2) (l @ CRLF @ rest) = rest"
    by (simp_all add: CRLF_def)
  ultimately show ?thesis
    using assms(2,3) by (simp add: parse_text.simps [of c])
qed

lemma parse_text_FINISH: "pstate c = FINISH \<Longrightarrow> parse_text c xs = Inr (True, c, xs)"
  by (simp add: parse_text.simps)

lemma split_at_first: "x \<notin> set a \<Longrightarrow> split_at x (a @ x # b) = Some (a, b)"
  by (induction a) auto

lemma split_at_None: "split_at x xs = None \<longleftrightarrow> x \<notin> set xs"
  by (induction xs) auto

lemma match_request_line_render:
  assumes "CHR '' '' \<notin> set m" "CHR '' '' \<notin> set p" "CHR '' '' \<notin> set v"
  shows "match_request_line (m @ '' '' @ p @ '' HTTP/'' @ v) = Some (m, p, v)"
  using split_at_first [OF assms(1), of "p @ CHR '' '' # ''HTTP/'' @ v"]
    split_at_first [OF assms(2), of "''HTTP/'' @ v"] assms(3)
  by (simp add: match_request_line_def)

lemma match_header_render:
  assumes "CHR '':'' \<notin> set k" "CR \<notin> set v" "LF \<notin> set v"
  shows "match_header (k @ '': '' @ v) = Some (k, v)"
  using split_at_first [OF assms(1), of "CHR '' '' # v"] assms(2,3)
  by (simp add: match_header_def)

section \<open>Rendered requests\<close>

definition render_line :: "string \<Rightarrow> string" where
  "render_line p = ''GET'' @ '' '' @ p @ '' HTTP/'' @ ''1.1''"

definition render_header :: "string \<times> string \<Rightarrow> string" where
  "render_header kv = fst kv @ '': '' @ snd kv"

definition render_request :: "string \<Rightarrow> (string \<times> string) list \<Rightarrow> string" where
  "render_request p hs =
     render_line p @ CRLF @ concat (map (\<lambda>h. render_header h @ CRLF) hs) @ CRLF"

definition ok_path :: "string \<Rightarrow> bool" where
  "ok_path p \<longleftrightarrow> CHR '' '' \<notin> set p \<and> CR \<notin> set p"

definition ok_header :: "string \<times> string \<Rightarrow> bool" where
  "ok_header kv \<longleftrightarrow> CHR '':'' \<notin> set (fst kv) \<and> CR \<notin> set (fst kv) \<and>
     CR \<notin> set (snd kv) \<and> LF \<notin> set (snd kv)"

definition add_headers :: "(string \<times> string) list \<Rightarrow> http_context \<Rightarrow> http_context" where
  "add_headers hs c = c\<lparr>req := (req c)\<lparr>header := header (req c) ++ map_of (rev hs)\<rparr>\<rparr>"

lemma parse_text_header:
  assumes "ok_header h" "pstate c = HEADERS"
  shows "parse_text c (render_header h @ CRLF @ rest) =
    parse_text (c\<lparr>req := addHeader (fst h) (snd h) (req c)\<rparr>) rest"
proof (rule parse_text_line)
  show "CR \<notin> set (render_header h)"
    using assms(1) by (simp add: ok_header_def render_header_def CR_def)
  have "match_header (render_header h) = Some (fst h, snd h)"
    using assms(1) match_header_render unfolding ok_header_def render_header_def by blast
  then show "parse_line (length (render_header h) + 2 + length rest) (render_header h) c =
      Inr (True, c\<lparr>req := addHeader (fst h) (snd h) (req c)\<rparr>)"
    by (cases h) (simp add: parse_line_def parseRequestHeader_def assms(2) render_header_def)
qed (simp add: assms(2))

lemma parse_text_headers:
  assumes "\<forall>h\<in>set hs. ok_header h" "pstate c = HEADERS"
  shows "parse_text c (concat (map (\<lambda>h. render_header h @ CRLF) hs) @ rest) =
    parse_text (add_headers hs c) rest"
  using assms
proof (induction hs arbitrary: c)
  case Nil
  then show ?case by (simp add: add_headers_def)
next
  case (Cons h hs)
  then have "parse_text c (render_header h @ CRLF @ concat (map (\<lambda>h. render_header h @ CRLF) hs) @ rest)
      = parse_text (add_headers hs (c\<lparr>req := addHeader (fst h) (snd h) (req c)\<rparr>)) rest"
    by (simp add: parse_text_header)
  then show ?case
    by (cases h) (simp add: add_headers_def addHeader_def map_add_upd_left)
qed

text \<open>The request a rendered request stands for, before the headers.\<close>

definition line_request :: "string \<Rightarrow> http_context" where
  "line_request p = parsePath (HttpContext_new
     \<lparr>req := HttpRequest_new\<lparr>req_method := kGet, path := p, version := kHttp11\<rparr>, pstate := HEADERS\<rparr>)"

lemma parsePath_frame [simp]:
  "pstate (parsePath c) = pstate c" "req_method (req (parsePath c)) = req_method (req c)"
  "version (req (parsePath c)) = version (req c)" "header (req (parsePath c)) = header (req c)"
  "body (req (parsePath c)) = body (req c)" "post (req (parsePath c)) = post (req c)"
  by (simp_all add: parsePath_def setPath_def push_back_setPath_def)

lemma parse_text_request_line:
  assumes "ok_path p"
  shows "parse_text HttpContext_new (render_line p @ CRLF @ rest) = parse_text (line_request p) rest"
proof (rule parse_text_line)
  show "CR \<notin> set (render_line p)"
    using assms by (simp add: ok_path_def render_line_def CR_def)
  have "match_request_line (render_line p) = Some (''GET'', p, ''1.1'')"
    unfolding render_line_def by (rule match_request_line_render) (use assms in \<open>simp_all add: ok_path_def\<close>)
  then show "parse_line (length (render_line p) + 2 + length rest) (render_line p) HttpContext_new =
      Inr (True, line_request p)"
    by (simp add: parse_line_def parseRequestLine_def HttpContext_new_def setMethod_def setPath_def
        setVersion_def line_request_def)
qed (simp add: HttpContext_new_def)

lemma parse_text_render:
  assumes "ok_path p" "\<forall>h\<in>set hs. ok_header h"
  shows "parse_text HttpContext_new (render_request p hs @ rest) =
    parse_text (add_headers hs (line_request p)) (CRLF @ rest)"
  using assms parse_text_headers [of hs "line_request p" "CRLF @ rest"]
  by (simp add: render_request_def parse_text_request_line)
    (simp add: line_request_def)

lemma match_header_empty [simp]: "match_header [] = None"
  by (simp add: match_header_def)

lemma parse_blank_last:
  assumes "pstate c = HEADERS"
  shows "parse_text c CRLF = Inr (True, c\<lparr>pstate := FINISH\<rparr>, [])"
  using parse_text_line [of "[]" c "[]" "c\<lparr>pstate := FINISH\<rparr>"] assms
  by (simp add: parse_line_def parseRequestHeader_def parse_text_FINISH)

lemma parse_blank_more:
  assumes "pstate c = HEADERS" "rest \<noteq> []"
  shows "parse_text c (CRLF @ rest) = parse_text (c\<lparr>pstate := BODY\<rparr>) rest"
  using parse_text_line [of "[]" c rest "c\<lparr>pstate := BODY\<rparr>"] assms
  by (simp add: parse_line_def parseRequestHeader_def)

lemma parse_body_line:
  assumes "pstate c = BODY" "req_method (req c) \<noteq> kPost" "CR \<notin> set l"
  shows "parse_text c (l @ CRLF @ rest) =
    Inr (True, c\<lparr>req := (req c)\<lparr>body := l\<rparr>, pstate := FINISH\<rparr>, rest)"
  using parse_text_line [of l c rest] assms
  by (simp add: parse_line_def parseDataBody_def parsePost_def setBody_def parse_text_FINISH)

lemma parseRequest_refines:
  assumes "wf_buffer b" "content b \<noteq> []"
  shows "map_option abs_parse (parseRequest c b) = Some (parse_text c (content b))"
  using parse_loop_refines [OF assms(1), of "Suc (readableBytes b)" c] assms
  by (simp add: parseRequest_def readableBytes_content)

lemma abs_parse_InrD:
  assumes "map_option abs_parse r = Some (Inr (ok, c, xs))"
  obtains b where "r = Some (Inr (ok, c, b))" "content b = xs"
proof -
  obtain y where y: "r = Some y" "abs_parse y = Inr (ok, c, xs)"
    using assms by auto
  then show thesis
    using that by (cases y) (auto simp: abs_parse_def)
qed

lemma headers_after_line:
  "pstate (add_headers hs (line_request p)) = HEADERS"
  "req_method (req (add_headers hs (line_request p))) = kGet"
  by (simp_all add: add_headers_def line_request_def)

lemma parseRequest_get:
  assumes "wf_buffer b" "content b = render_request p hs" "ok_path p" "\<forall>h\<in>set hs. ok_header h"
  obtains b' where "parseRequest HttpContext_new b =
      Some (Inr (True, add_headers hs (line_request p)\<lparr>pstate := FINISH\<rparr>, b'))"
    "content b' = []"
proof -
  let ?c = "add_headers hs (line_request p)\<lparr>pstate := FINISH\<rparr>"
  have "content b \<noteq> []" by (simp add: assms(2) render_request_def CRLF_def)
  moreover have "parse_text HttpContext_new (content b) = Inr (True, ?c, [])"
    using parse_text_render [OF assms(3,4), of "[]"] parse_blank_last
    by (simp add: assms(2) add_headers_def line_request_def)
  ultimately show thesis
    using parseRequest_refines [OF assms(1)] that by (metis abs_parse_InrD)
qed

section \<open>Properties\<close>

text \<open>
  C7: a GET request is parsed back. If the buffer holds exactly a rendered request with a path
  without spaces and headers whose names have no colon and whose values have no line breaks,
  \<^verbatim>\<open>parseRequest\<close> returns true with a complete request: method GET, HTTP/1.1, the path (with the
  default pages completed), every header with its value (the last one, if a name is repeated),
  and the buffer is left empty.
\<close>

theorem get_request_roundtrip:
  assumes "wf_buffer b" "content b = render_request p hs" "ok_path p" "\<forall>h\<in>set hs. ok_header h"
  shows "\<exists>c b'. parseRequest HttpContext_new b = Some (Inr (True, c, b')) \<and> gotAll c \<and>
    req_method (req c) = kGet \<and> version (req c) = kHttp11 \<and> header (req c) = map_of (rev hs) \<and>
    path (req c) = (if p = ''/'' then ''/index.html'' else if p \<in> set DEFAULT_HTML then p @ ''.html'' else p) \<and>
    content b' = []"
proof -
  obtain b' where "parseRequest HttpContext_new b =
      Some (Inr (True, add_headers hs (line_request p)\<lparr>pstate := FINISH\<rparr>, b'))" "content b' = []"
    by (rule parseRequest_get [OF assms])
  then show ?thesis
    by (auto simp: gotAll_def add_headers_def line_request_def HttpRequest_new_def HttpContext_new_def
        parsePath_def setPath_def push_back_setPath_def)
qed

lemma wf_demo_buffer:
  assumes "length xs \<le> 4096"
  shows "wf_buffer \<lparr>store = replicate 8 CR @ xs, readerIndex = 8, writerIndex = 8 + length xs\<rparr>"
    "content \<lparr>store = replicate 8 CR @ xs, readerIndex = 8, writerIndex = 8 + length xs\<rparr> = xs"
  using assms by (simp_all add: wf_buffer_def buffer_consts content_def window_def)

theorem get_request_roundtrip_witness:
  "\<exists>b c b'. content b = render_request ''/video'' [(''Host'', ''a.b''), (''Connection'', ''close'')] \<and>
     parseRequest HttpContext_new b = Some (Inr (True, c, b')) \<and> gotAll c \<and>
     path (req c) = ''/video.html'' \<and> header (req c) ''Host'' = Some ''a.b'' \<and> content b' = []"
proof -
  let ?hs = "[(''Host'', ''a.b''), (''Connection'', ''close'')]"
  let ?xs = "render_request ''/video'' ?hs"
  let ?b = "\<lparr>store = replicate 8 CR @ ?xs, readerIndex = 8, writerIndex = 8 + length ?xs\<rparr>"
  have "length ?xs \<le> 4096"
    by (simp add: render_request_def render_line_def render_header_def CRLF_def)
  note b = wf_demo_buffer [OF this]
  have "ok_path ''/video''" "\<forall>h\<in>set ?hs. ok_header h"
    by (simp_all add: ok_path_def ok_header_def CR_def LF_def)
  from get_request_roundtrip [OF b this] b(2) show ?thesis
    by (intro exI [of _ ?b]) (auto simp: DEFAULT_HTML_def)
qed

definition no_post :: "http_context \<Rightarrow> bool" where
  "no_post c \<longleftrightarrow> req_method (req c) \<in> {kInvalid, kGet} \<and> post (req c) = Map.empty"

lemma parse_line_no_post:
  assumes "no_post c"
  shows "\<exists>ok c1. parse_line n l c = Inr (ok, c1) \<and> no_post c1"
proof (cases "pstate c")
  case REQUEST_LINE
  then show ?thesis
    using assms
    by (cases "match_request_line l")
      (auto simp: parse_line_def parseRequestLine_def no_post_def setMethod_def setPath_def
        setVersion_def Let_def)
next
  case HEADERS
  then show ?thesis
    using assms
    by (auto simp: parse_line_def parseRequestHeader_def no_post_def addHeader_def Let_def
        split: option.splits)
next
  case BODY
  then show ?thesis
    using assms
    by (auto simp: parse_line_def parseDataBody_def parsePost_def setBody_def no_post_def)
next
  case FINISH
  then show ?thesis using assms by (auto simp: parse_line_def)
qed

lemma parse_text_no_post:
  "no_post c \<Longrightarrow> \<exists>ok c1 ys. parse_text c xs = Inr (ok, c1, ys) \<and> no_post c1"
proof (induction c xs rule: parse_text.induct)
  case (1 c xs)
  obtain ok c1 where l: "parse_line (length xs) (take (search_CRLF xs) xs) c = Inr (ok, c1)"
      "no_post c1"
    using parse_line_no_post [OF 1(2)] by blast
  show ?case
    using 1 l by (cases ok) (auto simp: parse_text.simps [of c xs])
qed

text \<open>
  C25: the parser is total and safe on any input. For a well-formed buffer \<^verbatim>\<open>parseRequest\<close> on a fresh
  context returns (no endless loop, no failed assertion, no access out of bounds), leaves the
  buffer well-formed, and the parsed request is a GET or has no method: \<^verbatim>\<open>POST\<close> is never
  recognised, although \<^verbatim>\<open>parsePost_\<close> is there for it, and no form field is ever stored.
\<close>

theorem parseRequest_total:
  assumes "wf_buffer b"
  shows "\<exists>ok c b'. parseRequest HttpContext_new b = Some (Inr (ok, c, b')) \<and> wf_buffer b' \<and>
    req_method (req c) \<in> {kInvalid, kGet} \<and> post (req c) = Map.empty"
proof -
  have new: "no_post HttpContext_new"
    by (simp add: no_post_def HttpContext_new_def HttpRequest_new_def)
  show ?thesis
  proof (cases "content b = []")
    case True
    then show ?thesis
      using assms new by (auto simp: parseRequest_def readableBytes_content no_post_def)
  next
    case False
    obtain ok c ys where "parse_text HttpContext_new (content b) = Inr (ok, c, ys)" "no_post c"
      using parse_text_no_post [OF new] by blast
    then obtain b' where "parseRequest HttpContext_new b = Some (Inr (ok, c, b'))"
      using parseRequest_refines [OF assms False, of HttpContext_new] by (metis abs_parse_InrD)
    moreover from this have "parse_loop (Suc (readableBytes b)) HttpContext_new b = Some (Inr (ok, c, b'))"
      using assms False by (simp add: parseRequest_def readableBytes_content del: parse_loop.simps)
    note parse_loop_wf [OF assms this]
    ultimately show ?thesis
      using \<open>no_post c\<close> by (auto simp: no_post_def)
  qed
qed

theorem parseRequest_total_witness:
  "\<exists>ok c b'. parseRequest HttpContext_new (Buffer_new 16) = Some (Inr (ok, c, b')) \<and> wf_buffer b' \<and>
     req_method (req c) \<in> {kInvalid, kGet} \<and> post (req c) = Map.empty"
  using parseRequest_total [of "Buffer_new 16"] wf_Buffer_new [of 16] by (simp add: buffer_consts)

text \<open>
  Pipelined requests are not separated. When two requests are in the buffer at once, the
  blank line that ends the first one is not taken as its end, because bytes follow it: the
  request line of the second request becomes the body of the first, and only its headers stay
  in the buffer.
\<close>

theorem pipelined_request_swallowed:
  assumes "wf_buffer b" "content b = render_request p hs @ render_request p' hs'"
    "ok_path p" "ok_path p'" "\<forall>h\<in>set hs. ok_header h"
  shows "\<exists>c b'. parseRequest HttpContext_new b = Some (Inr (True, c, b')) \<and> gotAll c \<and>
    body (req c) = ''GET '' @ p' @ '' HTTP/1.1'' \<and>
    content b' = concat (map (\<lambda>h. render_header h @ CRLF) hs') @ CRLF"
proof -
  let ?rest = "concat (map (\<lambda>h. render_header h @ CRLF) hs') @ CRLF"
  let ?h = "add_headers hs (line_request p)"
  let ?c = "?h\<lparr>req := (req ?h)\<lparr>body := render_line p'\<rparr>, pstate := FINISH\<rparr>"
  have st: "pstate ?h = HEADERS" "req_method (req ?h) = kGet"
    by (simp_all add: headers_after_line)
  have "render_request q gs \<noteq> []" for q gs
    by (simp add: render_request_def CRLF_def)
  then have ne: "content b \<noteq> []" "render_request p' hs' \<noteq> []"
    by (simp_all add: assms(2))
  have "parse_text HttpContext_new (content b) =
      parse_text (?h\<lparr>pstate := BODY\<rparr>) (render_line p' @ CRLF @ ?rest)"
    using parse_text_render [OF assms(3,5)] parse_blank_more [OF st(1) ne(2)]
    by (simp add: assms(2)) (simp add: render_request_def)
  also have "\<dots> = Inr (True, ?c, ?rest)"
    using st assms(4) by (subst parse_body_line) (simp_all add: ok_path_def render_line_def CR_def)
  finally obtain b' where "parseRequest HttpContext_new b = Some (Inr (True, ?c, b'))"
      "content b' = ?rest"
    using parseRequest_refines [OF assms(1) ne(1), of HttpContext_new] by (metis abs_parse_InrD)
  then show ?thesis by (auto simp: gotAll_def render_line_def)
qed

theorem pipelined_request_swallowed_witness:
  "\<exists>b c b'. content b = render_request ''/a'' [] @ render_request ''/b'' [] \<and>
     parseRequest HttpContext_new b = Some (Inr (True, c, b')) \<and> gotAll c \<and>
     body (req c) = ''GET /b HTTP/1.1'' \<and> content b' = CRLF"
proof -
  let ?xs = "render_request ''/a'' [] @ render_request ''/b'' []"
  let ?b = "\<lparr>store = replicate 8 CR @ ?xs, readerIndex = 8, writerIndex = 8 + length ?xs\<rparr>"
  have "length ?xs \<le> 4096" by (simp add: render_request_def render_line_def CRLF_def)
  note b = wf_demo_buffer [OF this]
  have "ok_path ''/a''" "ok_path ''/b''" by (simp_all add: ok_path_def CR_def)
  from pipelined_request_swallowed [OF b this] b(2) show ?thesis
    by (intro exI [of _ ?b]) auto
qed

section \<open>Cut requests\<close>

text \<open>A request line that is cut before its protocol name is complete does not match.\<close>

lemma search_CRLF_none: "CR \<notin> set xs \<Longrightarrow> search_CRLF xs = length xs"
  by (induction xs rule: search_CRLF.induct) auto

lemma match_cut_request_line:
  assumes "CHR '' '' \<notin> set p" "n < length p + 10"
  shows "match_request_line (take n (''GET '' @ p @ '' HTTP/1.1'')) = None"
proof -
  consider "n < 4" | "4 \<le> n" "n \<le> length p + 4" | "length p + 5 \<le> n" by linarith
  then show ?thesis
  proof cases
    case 1
    then have "take n (''GET '' @ p @ '' HTTP/1.1'') = take n ''GET''"
      by (simp add: take_Cons' numeral_eq_Suc)
    moreover have "CHR '' '' \<notin> set (take n ''GET'')"
      by (auto dest: in_set_takeD)
    ultimately show ?thesis
      by (simp add: match_request_line_def split_at_None [THEN iffD2])
  next
    case 2
    then have x: "take n (''GET '' @ p @ '' HTTP/1.1'') = ''GET'' @ CHR '' '' # take (n - 4) p"
      by (auto simp: take_Cons' numeral_eq_Suc)
    have "split_at CHR '' '' (take (n - 4) p) = None"
      using assms(1) by (auto simp: split_at_None dest: in_set_takeD)
    then show ?thesis
      using split_at_first [of "CHR '' ''" "''GET''" "take (n - 4) p"]
      unfolding x by (simp add: match_request_line_def)
  next
    case 3
    define v where "v = take (n - (length p + 5)) ''HTTP/1.1''"
    have x: "take n (''GET '' @ p @ '' HTTP/1.1'') = ''GET'' @ CHR '' '' # p @ CHR '' '' # v"
      using 3 by (auto simp: take_Cons' numeral_eq_Suc v_def)
    have "length v < 5" using assms(2) 3 by (simp add: v_def)
    then have "take 5 v \<noteq> ''HTTP/''" by (auto dest: arg_cong [where f = length])
    then show ?thesis
      using split_at_first [of "CHR '' ''" "''GET''" "p @ CHR '' '' # v"] split_at_first [OF assms(1)]
      unfolding x by (simp add: match_request_line_def)
  qed
qed

lemma parseRequest_cut:
  assumes "wf_buffer b" "content b = take n (''GET '' @ p @ '' HTTP/1.1'')" "0 < n" "n < length p + 10"
    "ok_path p"
  shows "parseRequest HttpContext_new b = Some (Inr (False, HttpContext_new, b))"
proof -
  have "set (content b) \<subseteq> set (''GET '' @ p @ '' HTTP/1.1'')"
    unfolding assms(2) by (rule set_take_subset)
  then have "CR \<notin> set (content b)"
    using assms(5) by (auto simp: ok_path_def CR_def)
  then have whole: "take (search_CRLF (content b)) (content b) = content b"
    by (simp add: search_CRLF_none)
  have "match_request_line (content b) = None"
    unfolding assms(2) using assms(4,5) by (intro match_cut_request_line) (simp_all add: ok_path_def)
  moreover have "readableBytes b \<noteq> 0"
    using assms(2,3) by (simp add: readableBytes_content [OF assms(1)])
  ultimately show ?thesis
    by (simp add: parseRequest_def content_window whole Let_def parse_line_def parseRequestLine_def
        HttpContext_new_def)
qed

end
