(* ===== verification/HttpResponse.thy ===== *)
theory HttpResponse
  imports Buffer Format
begin

text \<open>
  HTTP responses (\<^verbatim>\<open>src/http/HttpResponse_test.h\<close>, \<^verbatim>\<open>HttpResponse_test.cc\<close>) and how they are
  written into a buffer. The iteration order of an unordered map is a parameter.
\<close>

datatype HttpStatusCode = kUnknown | k200Ok | k400BadRequest | kForbidden | k404NotFound

fun status_num :: "HttpStatusCode \<Rightarrow> nat" where
  "status_num kUnknown = 0"
| "status_num k200Ok = 200"
| "status_num k400BadRequest = 400"
| "status_num kForbidden = 403"
| "status_num k404NotFound = 404"

text \<open>
  \<open>isKeepAlive_flag\<close> is \<^verbatim>\<open>isKeepAlive_\<close>, which holds when the connection is to be closed.
\<close>

record response =
  body_text :: string
  header_map :: "string \<Rightarrow> string option"
  code :: HttpStatusCode
  statusMessage :: string
  isKeepAlive_flag :: bool

definition HttpResponse_new :: "bool \<Rightarrow> response" where
  "HttpResponse_new close =
     \<lparr>body_text = [], header_map = Map.empty, code = kUnknown, statusMessage = [],
      isKeepAlive_flag = close\<rparr>"

definition setStatusCode :: "HttpStatusCode \<Rightarrow> response \<Rightarrow> response" where
  "setStatusCode c r = r\<lparr>code := c\<rparr>"

definition setStatusMessage :: "string \<Rightarrow> response \<Rightarrow> response" where
  "setStatusMessage m r = r\<lparr>statusMessage := m\<rparr>"

definition setIsKeepAlive :: "bool \<Rightarrow> response \<Rightarrow> response" where
  "setIsKeepAlive on r = r\<lparr>isKeepAlive_flag := on\<rparr>"

definition addHeader_response :: "string \<Rightarrow> string \<Rightarrow> response \<Rightarrow> response" where
  "addHeader_response key val r = r\<lparr>header_map := (header_map r)(key \<mapsto> val)\<rparr>"

definition setContentType :: "string \<Rightarrow> response \<Rightarrow> response" where
  "setContentType t r = addHeader_response ''Content-Type'' t r"

definition setBody_response :: "string \<Rightarrow> response \<Rightarrow> response" where
  "setBody_response b r = r\<lparr>body_text := b\<rparr>"

definition crlf :: string where
  "crlf = [CHR 0x0D, CHR 0x0A]"

text \<open>The appends of \<^verbatim>\<open>appendToBuffer\<close> in their order; \<open>hs\<close> are the entries of the header map.\<close>

definition response_pieces :: "(string \<times> string) list \<Rightarrow> response \<Rightarrow> string list" where
  "response_pieces hs r =
     [snprintf 64 (''HTTP/1.1 '' @ dec (status_num (code r)) @ '' ''), statusMessage r, crlf] @
     (if isKeepAlive_flag r then [''Connection: close'' @ crlf]
      else [snprintf 64 (''Content-Length: '' @ dec (length (body_text r)) @ crlf),
            ''Connection: Keep-Alive'' @ crlf]) @
     concat (map (\<lambda>(k, v). [k, '': '', v, crlf]) hs) @
     [crlf, body_text r]"

definition appendToBuffer ::
    "(string \<times> string) list \<Rightarrow> response \<Rightarrow> buffer \<Rightarrow> buffer result" where
  "appendToBuffer hs r output = foldR append (response_pieces hs r) output"

section \<open>What arrives\<close>

definition enumerates :: "(string \<times> string) list \<Rightarrow> (string \<Rightarrow> string option) \<Rightarrow> bool" where
  "enumerates hs m \<longleftrightarrow> distinct (map fst hs) \<and> map_of hs = m"

text \<open>The text of a response, with the length of the body where the connection stays open.\<close>

definition response_head :: "response \<Rightarrow> string" where
  "response_head r =
     ''HTTP/1.1 '' @ dec (status_num (code r)) @ '' '' @ statusMessage r @ crlf @
     (if isKeepAlive_flag r then ''Connection: close'' @ crlf
      else ''Content-Length: '' @ dec (length (body_text r)) @ crlf @ ''Connection: Keep-Alive'' @ crlf)"

definition response_text :: "(string \<times> string) list \<Rightarrow> response \<Rightarrow> string" where
  "response_text hs r =
     response_head r @ concat (map (\<lambda>(k, v). k @ '': '' @ v @ crlf) hs) @ crlf @ body_text r"

lemma concat_header_pieces:
  "concat (concat (map (\<lambda>(k, v). [k, '': '', v, crlf]) hs)) =
   concat (map (\<lambda>(k, v). k @ '': '' @ v @ crlf) hs)"
  by (induction hs) auto

lemma status_num_bound: "status_num c < 10 ^ Suc 2"
  by (cases c) simp_all

lemma response_pieces_text:
  assumes "length (body_text r) \<le> vector_max_size"
  shows "concat (response_pieces hs r) = response_text hs r"
proof -
  have "length (dec (status_num (code r))) \<le> Suc 2"
    by (rule length_dec [OF status_num_bound])
  moreover have "length (dec (length (body_text r))) \<le> Suc 18"
    by (rule length_dec) (use assms in \<open>simp add: vector_max_size_def\<close>)
  ultimately show ?thesis
    by (simp add: response_pieces_def response_text_def response_head_def concat_header_pieces)
      (simp add: crlf_def)
qed

lemma appendToBuffer_ok:
  assumes "wf_buffer b" "length (response_text hs r) \<le> room b"
  obtains b' where "appendToBuffer hs r b = Inr b'" "wf_buffer b'"
    "content b' = content b @ response_text hs r"
proof -
  have "length (body_text r) \<le> vector_max_size"
    using assms(2) by (simp add: response_text_def room_def)
  note t = response_pieces_text [OF this, of hs]
  from bq.put_pieces [OF assms(1), of "response_pieces hs r"] assms(2) t that show thesis
    by (auto simp: appendToBuffer_def)
qed

section \<open>Properties\<close>

text \<open>
  C28: \<^verbatim>\<open>appendToBuffer\<close> writes one complete response behind whatever the buffer holds: status line,
  connection header (with the body's length in decimal when the connection stays open), all
  headers of the map once each in the map's order, blank line, body. No \<^verbatim>\<open>snprintf\<close> truncates.
\<close>

theorem appendToBuffer_writes_response:
  assumes "wf_buffer b" "length (response_text hs r) \<le> room b" "enumerates hs (header_map r)"
  shows "\<exists>b'. appendToBuffer hs r b = Inr b' \<and> wf_buffer b' \<and>
    content b' = content b @ response_head r @
      concat (map (\<lambda>k. k @ '': '' @ the (header_map r k) @ crlf) (map fst hs)) @ crlf @ body_text r \<and>
    set (map fst hs) = dom (header_map r) \<and> distinct (map fst hs)"
proof -
  obtain b' where b': "appendToBuffer hs r b = Inr b'" "wf_buffer b'"
      "content b' = content b @ response_text hs r"
    by (rule appendToBuffer_ok [OF assms(1,2)])
  have hs: "distinct (map fst hs)" "map_of hs = header_map r"
    using assms(3) by (simp_all add: enumerates_def)
  have "header_map r k = Some v" if "(k, v) \<in> set hs" for k v
    using that hs by (metis map_of_is_SomeI)
  then have "map (\<lambda>(k, v). k @ '': '' @ v @ crlf) hs =
      map (\<lambda>k. k @ '': '' @ the (header_map r k) @ crlf) (map fst hs)"
    by auto
  then have "response_text hs r = response_head r @
      concat (map (\<lambda>k. k @ '': '' @ the (header_map r k) @ crlf) (map fst hs)) @ crlf @ body_text r"
    by (simp only: response_text_def)
  moreover have "set (map fst hs) = dom (header_map r)"
    using hs by (simp add: dom_map_of_conv_image_fst flip: hs(2))
  ultimately show ?thesis
    using b' hs(1) by (metis append_assoc)
qed

theorem appendToBuffer_writes_response_witness:
  "\<exists>b'. appendToBuffer [(''Server'', ''mymuduo'')]
      (addHeader_response ''Server'' ''mymuduo'' (setBody_response ''hello''
        (setStatusMessage ''OK'' (setStatusCode k200Ok (HttpResponse_new False))))) (Buffer_new 4) = Inr b' \<and>
    content b' = ''HTTP/1.1 200 OK'' @ crlf @ ''Content-Length: 5'' @ crlf @
      ''Connection: Keep-Alive'' @ crlf @ ''Server: mymuduo'' @ crlf @ crlf @ ''hello''"
proof -
  let ?r = "addHeader_response ''Server'' ''mymuduo'' (setBody_response ''hello''
        (setStatusMessage ''OK'' (setStatusCode k200Ok (HttpResponse_new False))))"
  let ?hs = "[(''Server'', ''mymuduo'')]"
  note defs = addHeader_response_def setBody_response_def setStatusMessage_def setStatusCode_def
    HttpResponse_new_def
  have d: "dec 200 = ''200''" "dec (Suc (Suc (Suc (Suc (Suc 0))))) = ''5''"
    by code_simp+
  have "wf_buffer (Buffer_new 4)" "enumerates ?hs (header_map ?r)"
    "length (response_text ?hs ?r) \<le> room (Buffer_new 4)"
    by (simp_all add: wf_buffer_def room_def Buffer_new_def buffer_consts szadd_def enumerates_def defs
        response_text_def response_head_def d crlf_def)
  from appendToBuffer_writes_response [OF this(1,3,2)] show ?thesis
    by (auto simp: defs response_head_def d)
qed

end
