(* ===== verification/HttpServer.thy ===== *)
theory HttpServer
  imports HttpContext HttpResponse
begin

text \<open>
  The static file server (\<^verbatim>\<open>src/http/HttpServer_test.h\<close>, \<^verbatim>\<open>HttpServer_test.cc\<close>): a request's path
  becomes a response. The file system is a parameter: \<^verbatim>\<open>stat\<close>, \<^verbatim>\<open>open\<close> for reading and \<^verbatim>\<open>mmap\<close>.
\<close>

section \<open>Tables\<close>

definition SUFFIX_TYPE :: "string \<Rightarrow> string option" where
  "SUFFIX_TYPE = map_of
    [(''.html'', ''text/html''),
     (''.xml'', ''text/xml''),
     (''.xhtml'', ''application/xhtml+xml''),
     (''.txt'', ''text/plain''),
     (''.rtf'', ''application/rtf''),
     (''.pdf'', ''application/pdf''),
     (''.word'', ''application/nsword''),
     (''.png'', ''image/png''),
     (''.gif'', ''image/gif''),
     (''.jpg'', ''image/jpeg''),
     (''.jpeg'', ''image/jpeg''),
     (''.au'', ''audio/basic''),
     (''.mpeg'', ''video/mpeg''),
     (''.mpg'', ''video/mpeg''),
     (''.avi'', ''video/x-msvideo''),
     (''.gz'', ''application/x-gzip''),
     (''.tar'', ''application/x-tar''),
     (''.css'', ''text/css ''),
     (''.js'', ''text/javascript '')]"

definition CODE_STATUS :: "nat \<Rightarrow> string option" where
  "CODE_STATUS = map_of
    [(200, ''OK''), (400, ''Bad Request''), (403, ''Forbidden''), (404, ''Not Found'')]"

definition CODE_PATH :: "nat \<Rightarrow> string option" where
  "CODE_PATH = map_of [(400, ''/400.html''), (403, ''/403.html''), (404, ''/404.html'')]"

section \<open>State and operations\<close>

record file_stat =
  is_dir :: bool
  others_read :: bool
  st_size :: nat

text \<open>
  \<open>fs_stat\<close> is \<open>None\<close> when \<^verbatim>\<open>stat\<close> fails, \<open>fs_open\<close> gives the contents of a file that can be opened,
  \<open>fs_mmap len contents\<close> is the mapped range, \<open>None\<close> for \<^verbatim>\<open>MAP_FAILED\<close>.
\<close>

record file_system =
  fs_stat :: "string \<Rightarrow> file_stat option"
  fs_open :: "string \<Rightarrow> string option"
  fs_mmap :: "nat \<Rightarrow> string \<Rightarrow> string option"

record http_server =
  headers :: "string \<Rightarrow> string option"
  path_member :: string
  staticFilePath :: string
  mmFileStat :: file_stat

definition errorContent :: "string \<Rightarrow> response \<Rightarrow> response" where
  "errorContent message r =
     (let status = (case CODE_STATUS (status_num (code r)) of Some s \<Rightarrow> s | None \<Rightarrow> ''Bad Request'')
      in setBody_response
        (''<html><tile>Error</title>'' @ ''<body bgcolor='' @ [CHR 0x22] @ ''ffffff'' @ [CHR 0x22] @ ''>'' @
         dec (status_num (code r)) @ '' : '' @ status @ [CHR 0x0A] @
         ''<p>'' @ message @ ''</p>'' @ ''<hr><em>TinyWebServer</em></body></html>'') r)"

definition errorHTML :: "file_system \<Rightarrow> response \<Rightarrow> http_server \<Rightarrow> http_server" where
  "errorHTML fs r s =
     (case CODE_PATH (status_num (code r)) of
        None \<Rightarrow> s
      | Some p \<Rightarrow>
          (case fs_stat fs (staticFilePath s @ p) of
             None \<Rightarrow> s\<lparr>path_member := p\<rparr>
           | Some st \<Rightarrow> s\<lparr>path_member := p, mmFileStat := st\<rparr>))"

text \<open>\<^verbatim>\<open>CODE_STATUS.find(400)->second\<close> of the other branch is always there.\<close>

definition addStateLine :: "response \<Rightarrow> response" where
  "addStateLine r =
     (case CODE_STATUS (status_num (code r)) of
        Some status \<Rightarrow> setStatusMessage status r
      | None \<Rightarrow> setStatusMessage (the (CODE_STATUS (status_num k400BadRequest)))
                  (setStatusCode k400BadRequest r))"

text \<open>\<open>find_last_of c s\<close> is the index of the last \<open>c\<close>, \<open>None\<close> for \<^verbatim>\<open>npos\<close>.\<close>

fun find_last_of :: "char \<Rightarrow> string \<Rightarrow> nat option" where
  "find_last_of c [] = None"
| "find_last_of c (x # xs) =
     (case find_last_of c xs of Some i \<Rightarrow> Some (Suc i) | None \<Rightarrow> if x = c then Some 0 else None)"

definition addResponseHeader :: "http_server \<Rightarrow> response \<Rightarrow> response" where
  "addResponseHeader s r =
     (case find_last_of CHR ''.'' (path_member s) of
        None \<Rightarrow> setContentType ''text/plain'' r
      | Some idx \<Rightarrow>
          (case SUFFIX_TYPE (drop idx (path_member s)) of
             Some t \<Rightarrow> setContentType t r
           | None \<Rightarrow> setContentType ''text/plain'' r))"

text \<open>
  The mapping is read as an \<^verbatim>\<open>int\<close> to see whether it failed: \<^verbatim>\<open>*mmRet == -1\<close> holds when the file starts
  with four bytes 255 (the page is padded with zeros), and a failed mapping is dereferenced.
\<close>

definition first_int_is_minus_one :: "string \<Rightarrow> bool" where
  "first_int_is_minus_one m \<longleftrightarrow> take 4 (m @ replicate 4 (CHR 0x00)) = replicate 4 (CHR 0xFF)"

definition addResponseContent :: "file_system \<Rightarrow> http_server \<Rightarrow> response \<Rightarrow> response result" where
  "addResponseContent fs s r =
     (case fs_open fs (staticFilePath s @ path_member s) of
        None \<Rightarrow> Inr (errorContent ''File NotFound!'' r)
      | Some contents \<Rightarrow>
          (case fs_mmap fs (st_size (mmFileStat s)) contents of
             None \<Rightarrow> Inl OutOfBounds
           | Some m \<Rightarrow>
               if first_int_is_minus_one m then Inr (errorContent ''File NotFound!'' r)
               else Inr (setBody_response m
                      (addHeader_response ''Server'' ''mymuduo'' (setStatusCode k200Ok r)))))"

definition makeResponse ::
    "file_system \<Rightarrow> http_server \<Rightarrow> response \<Rightarrow> (http_server \<times> response) result" where
  "makeResponse fs s r =
     (let (s1, r1) =
        (case fs_stat fs (staticFilePath s @ path_member s) of
           None \<Rightarrow> (s, setStatusCode k404NotFound r)
         | Some st \<Rightarrow>
             (s\<lparr>mmFileStat := st\<rparr>,
              if is_dir st then setStatusCode k404NotFound r
              else if \<not> others_read st then setStatusCode kForbidden r
              else if code r = kUnknown then setStatusCode k200Ok r else r));
          s2 = errorHTML fs r1 s1;
          r2 = addResponseHeader s2 (addStateLine r1)
      in bindR (addResponseContent fs s2 r2) (\<lambda>r3. Inr (s2, r3)))"

definition http_onRequest ::
    "file_system \<Rightarrow> string \<Rightarrow> request \<Rightarrow> http_server \<Rightarrow> response \<Rightarrow> (http_server \<times> response) result"
  where
  "http_onRequest fs cwd rq s r =
     makeResponse fs (s\<lparr>staticFilePath := cwd @ ''/resources/'', headers := header rq,
                       path_member := path rq\<rparr>) r"

section \<open>What the server relies on of the file system\<close>

text \<open>
  As documented for \<^verbatim>\<open>mmap(2)\<close>: a mapping of length zero fails, one inside the file shows its
  bytes. A readable regular file can be opened and \<^verbatim>\<open>stat\<close> tells its length.
\<close>

definition mmap_ok :: "file_system \<Rightarrow> bool" where
  "mmap_ok fs \<longleftrightarrow> (\<forall>n xs. (n = 0 \<longrightarrow> fs_mmap fs n xs = None) \<and>
     (0 < n \<and> n \<le> length xs \<longrightarrow> fs_mmap fs n xs = Some (take n xs)))"

definition regular_file :: "file_system \<Rightarrow> string \<Rightarrow> string \<Rightarrow> bool" where
  "regular_file fs name contents \<longleftrightarrow>
     fs_open fs name = Some contents \<and>
     fs_stat fs name = Some \<lparr>is_dir = False, others_read = True, st_size = length contents\<rparr>"

section \<open>Suffixes\<close>

definition content_type :: "string \<Rightarrow> string" where
  "content_type p =
     (case find_last_of CHR ''.'' p of None \<Rightarrow> ''text/plain''
      | Some i \<Rightarrow> (case SUFFIX_TYPE (drop i p) of Some t \<Rightarrow> t | None \<Rightarrow> ''text/plain''))"

lemma find_last_of_suffix:
  assumes "c \<notin> set s"
  shows "find_last_of c (p @ c # s) = Some (length p)"
proof -
  have "find_last_of c s = None" using assms by (induction s) auto
  then show ?thesis by (induction p) auto
qed

lemma content_type_suffix:
  assumes "CHR ''.'' \<notin> set s"
  shows "content_type (p @ ''.'' @ s) =
    (case SUFFIX_TYPE (''.'' @ s) of Some t \<Rightarrow> t | None \<Rightarrow> ''text/plain'')"
  using find_last_of_suffix [OF assms, of p] by (simp add: content_type_def)

lemma addResponseHeader_type:
  "addResponseHeader s r = addHeader_response ''Content-Type'' (content_type (path_member s)) r"
  by (simp add: addResponseHeader_def content_type_def setContentType_def split: option.splits)

lemma code_tables [simp]:
  "CODE_PATH 200 = None" "CODE_STATUS 200 = Some ''OK''" "CODE_STATUS 404 = Some ''Not Found''"
  "CODE_PATH 404 = Some ''/404.html''"
  by (simp_all add: CODE_PATH_def CODE_STATUS_def)

lemmas response_ops = setBody_response_def setStatusCode_def setStatusMessage_def
  addHeader_response_def setContentType_def

lemma makeResponse_file:
  assumes "mmap_ok fs" "regular_file fs (staticFilePath s @ path_member s) contents"
    "contents \<noteq> []" "\<not> first_int_is_minus_one contents" "code r = kUnknown"
  shows "\<exists>s'. makeResponse fs s r = Inr (s',
    r\<lparr>code := k200Ok, statusMessage := ''OK'', body_text := contents,
      header_map := (header_map r)(''Content-Type'' \<mapsto> content_type (path_member s),
                                   ''Server'' \<mapsto> ''mymuduo'')\<rparr>)"
proof -
  have "fs_mmap fs (length contents) contents = Some contents"
    using assms(1,3) by (simp add: mmap_ok_def)
  then show ?thesis
    using assms
    by (simp add: makeResponse_def regular_file_def Let_def errorHTML_def addStateLine_def
        addResponseHeader_type addResponseContent_def response_ops)
qed

section \<open>Properties\<close>


text \<open>
  A missing file is answered with status code 200. When the requested file does not exist
  and the error page does, the response has the error page as its body and the reason phrase
  Not Found, but \<^verbatim>\<open>addResponseContent_\<close> has reset the status code to 200.
\<close>

theorem missing_file_status_200:
  assumes "mmap_ok fs" "fs_stat fs (cwd @ ''/resources/'' @ path rq) = None"
    "regular_file fs (cwd @ ''/resources/'' @ ''/404.html'') page" "page \<noteq> []"
    "\<not> first_int_is_minus_one page"
  shows "\<exists>s' r. http_onRequest fs cwd rq s (HttpResponse_new close) = Inr (s', r) \<and>
    code r = k200Ok \<and> statusMessage r = ''Not Found'' \<and> body_text r = page"
proof -
  have "fs_mmap fs (length page) page = Some page"
    using assms(1,4) by (simp add: mmap_ok_def)
  then show ?thesis
    using assms
    by (simp add: http_onRequest_def makeResponse_def regular_file_def Let_def errorHTML_def
        addStateLine_def addResponseHeader_type addResponseContent_def response_ops HttpResponse_new_def)
qed

text \<open>
  An empty file stops the server. \<^verbatim>\<open>mmap\<close> fails for length zero, and \<^verbatim>\<open>addResponseContent_\<close> follows
  the returned \<^verbatim>\<open>MAP_FAILED\<close> pointer to find out.
\<close>

theorem empty_file_crashes:
  assumes "mmap_ok fs" "regular_file fs (cwd @ ''/resources/'' @ path rq) []"
  shows "http_onRequest fs cwd rq s (HttpResponse_new close) = Inl OutOfBounds"
  using assms
  by (simp add: http_onRequest_def makeResponse_def regular_file_def Let_def errorHTML_def
      addStateLine_def addResponseHeader_type addResponseContent_def response_ops HttpResponse_new_def
      mmap_ok_def)

section \<open>A small file system\<close>

definition demo_files :: "(string \<times> string) list \<Rightarrow> file_system" where
  "demo_files fl =
     \<lparr>fs_stat = (\<lambda>n. map_option (\<lambda>c. \<lparr>is_dir = False, others_read = True, st_size = length c\<rparr>) (map_of fl n)),
      fs_open = map_of fl,
      fs_mmap = (\<lambda>n xs. if 0 < n \<and> n \<le> length xs then Some (take n xs) else None)\<rparr>"

definition demo_server :: http_server where
  "demo_server =
     \<lparr>headers = Map.empty, path_member = [], staticFilePath = [],
      mmFileStat = \<lparr>is_dir = False, others_read = False, st_size = 0\<rparr>\<rparr>"

lemma demo_files_ok:
  "mmap_ok (demo_files fl)" "map_of fl n = Some c \<Longrightarrow> regular_file (demo_files fl) n c"
  by (simp_all add: mmap_ok_def demo_files_def regular_file_def)


theorem missing_file_status_200_witness:
  "\<exists>s' r. http_onRequest (demo_files [(''/w/resources//404.html'', ''gone'')]) ''/w''
     (HttpRequest_new\<lparr>path := ''/b''\<rparr>) demo_server (HttpResponse_new False) = Inr (s', r) \<and>
    code r = k200Ok \<and> statusMessage r = ''Not Found'' \<and> body_text r = ''gone''"
  by (rule missing_file_status_200 [OF demo_files_ok(1)])
    (simp_all add: demo_files_def regular_file_def first_int_is_minus_one_def numeral_eq_Suc)

theorem empty_file_crashes_witness:
  "http_onRequest (demo_files [(''/w/resources//e'', [])]) ''/w'' (HttpRequest_new\<lparr>path := ''/e''\<rparr>) demo_server
     (HttpResponse_new True) = Inl OutOfBounds"
  by (rule empty_file_crashes [OF demo_files_ok(1)]) (simp add: demo_files_def regular_file_def)

end
