(* ===== verification/WebServer.thy ===== *)
theory WebServer
  imports TcpConnection HttpServer
begin

text \<open>
  The web server (\<^verbatim>\<open>src/http/WebServer.h\<close>, \<^verbatim>\<open>WebServer.cc\<close>, \<^verbatim>\<open>mian.cc\<close>): the callbacks it installs on
  every connection. They compose the request parser, a handler for requests, the response
  writer and the public operations of the connection.
\<close>

section \<open>Callbacks\<close>

text \<open>A handler for requests may fail like any other code; \<open>enum\<close> lists the entries of a map.\<close>

type_synonym http_callback = "request \<Rightarrow> response \<Rightarrow> response result"

definition defaultHttpCallback :: http_callback where
  "defaultHttpCallback rq r =
     Inr (setIsKeepAlive True (setStatusMessage ''Not Found'' (setStatusCode k404NotFound r)))"

text \<open>\<^verbatim>\<open>HttpServerTest::onRequest\<close> bound to a server object, as in \<^verbatim>\<open>main\<close>.\<close>

definition file_callback :: "file_system \<Rightarrow> string \<Rightarrow> http_server \<Rightarrow> http_callback" where
  "file_callback fs cwd s rq r = bindR (http_onRequest fs cwd rq s r) (\<lambda>(s', r'). Inr r')"

text \<open>\<^verbatim>\<open>onConnection\<close> only logs.\<close>

definition onConnection :: "('k, 'e) tcp_connection \<Rightarrow> ('k, 'e) tcp_connection result" where
  "onConnection c = Inr c"

definition close_wanted :: "request \<Rightarrow> bool" where
  "close_wanted rq \<longleftrightarrow>
     (let connection = getHeader ''Connection'' rq
      in connection = ''close'' \<or> (version rq = kHttp10 \<and> connection \<noteq> ''Keep-Alive''))"

definition onRequest ::
    "('k, 'e) net_env \<Rightarrow> ('k, 'e) tcp_connection user_callbacks \<Rightarrow> (char list \<Rightarrow> int + nat) \<Rightarrow>
     ((string \<Rightarrow> string option) \<Rightarrow> (string \<times> string) list) \<Rightarrow> http_callback \<Rightarrow> request \<Rightarrow>
     ('k, 'e) tcp_connection \<Rightarrow> ('k, 'e) tcp_connection result" where
  "onRequest E U wr enum httpCallback rq c =
     bindR (httpCallback rq (HttpResponse_new (close_wanted rq))) (\<lambda>r.
     bindR (appendToBuffer (enum (header_map r)) r (Buffer_new kInitialSize)) (\<lambda>buf.
     bindR (send_buffer E U wr buf c) (\<lambda>(buf', c1).
     Inr (if isKeepAlive_flag r then shutdown E c1 else c1))))"

definition bad_request :: string where
  "bad_request = ''HTTP/1.1 400 Bad Request'' @ CRLF @ CRLF"

text \<open>
  \<^verbatim>\<open>onMessage\<close>; the context lives for one call. The parser always answers (\<open>parseRequest_Some\<close>).
\<close>

definition onMessage ::
    "('k, 'e) net_env \<Rightarrow> ('k, 'e) tcp_connection user_callbacks \<Rightarrow> (char list \<Rightarrow> int + nat) \<Rightarrow>
     ((string \<Rightarrow> string option) \<Rightarrow> (string \<times> string) list) \<Rightarrow> http_callback \<Rightarrow> int \<Rightarrow>
     ('k, 'e) tcp_connection \<Rightarrow> ('k, 'e) tcp_connection result" where
  "onMessage E U wr enum httpCallback t c =
     bindR (the (parseRequest HttpContext_new (inputBuffer c))) (\<lambda>(ok, ctx, b).
       let c1 = c\<lparr>inputBuffer := b\<rparr> in
       bindR (if ok then Inr c1
              else bindR (send_string E U wr bad_request c1) (\<lambda>c2. Inr (shutdown E c2))) (\<lambda>c2.
         if gotAll ctx then onRequest E U wr enum httpCallback (req ctx) c2 else Inr c2))"

text \<open>
  The callbacks a connection of the server has: the constructor installs two, the TCP server
  its own for closing, which leaves the connection object alone.
\<close>

definition no_callbacks :: "'c user_callbacks" where
  "no_callbacks =
     \<lparr>connectionCallback = None, messageCallback = None, writeCompleteCallback = None,
      closeCallbackU = None, highWaterMarkCallback = None\<rparr>"

definition web_user ::
    "('k, 'e) net_env \<Rightarrow> (char list \<Rightarrow> int + nat) \<Rightarrow>
     ((string \<Rightarrow> string option) \<Rightarrow> (string \<times> string) list) \<Rightarrow> http_callback \<Rightarrow>
     ('k, 'e) tcp_connection user_callbacks" where
  "web_user E wr enum httpCallback =
     \<lparr>connectionCallback = Some onConnection,
      messageCallback = Some (onMessage E no_callbacks wr enum httpCallback),
      writeCompleteCallback = None, closeCallbackU = Some Inr, highWaterMarkCallback = None\<rparr>"

section \<open>The callbacks act through the public operations\<close>

text \<open>Sending looks only at whether the two notification callbacks are set.\<close>

lemma callback_flags:
  "writeCompleteCallback no_callbacks = None" "highWaterMarkCallback no_callbacks = None"
  "writeCompleteCallback (web_user E wr enum cb) = None"
  "highWaterMarkCallback (web_user E wr enum cb) = None"
  by (simp_all add: no_callbacks_def web_user_def)

lemma sendInLoop_web_user: "sendInLoop E (web_user E wr enum cb) = sendInLoop E no_callbacks"
  by (intro ext) (simp only: sendInLoop_def sendInLoop_write_def callback_flags)

lemma send_web_user:
  "send_string E (web_user E wr enum cb) = send_string E no_callbacks"
  "send_buffer E (web_user E wr enum cb) = send_buffer E no_callbacks"
  by (intro ext, simp only: send_string_def send_buffer_def sendInLoop_web_user)+

definition fitting_callback ::
    "((string \<Rightarrow> string option) \<Rightarrow> (string \<times> string) list) \<Rightarrow> http_callback \<Rightarrow> bool" where
  "fitting_callback enum cb \<longleftrightarrow>
     (\<forall>rq close r. cb rq (HttpResponse_new close) = Inr r \<longrightarrow>
        (\<forall>p\<in>set (response_pieces (enum (header_map r)) r). length p \<le> vector_max_size))"

lemma foldR_append_wf:
  "\<forall>p\<in>set ps. length p \<le> vector_max_size \<Longrightarrow> wf_buffer b \<Longrightarrow> foldR append ps b = Inr b' \<Longrightarrow> wf_buffer b'"
  by (induction ps arbitrary: b) (auto simp: bindR_eq_Inr dest: append_Inr(1))

lemma wf_new_buffer: "wf_buffer (Buffer_new kInitialSize)"
  by (rule wf_Buffer_new) (simp add: kInitialSize_def buffer_consts)

lemma onRequest_api:
  assumes "fitting_callback enum cb" "write_ok wr"
    "onRequest E no_callbacks wr enum cb rq c = Inr c'"
  shows "(api_step E (web_user E wr enum cb))\<^sup>*\<^sup>* c c'"
proof -
  let ?step = "api_step E (web_user E wr enum cb)"
  obtain r buf buf' c1 where r: "cb rq (HttpResponse_new (close_wanted rq)) = Inr r"
    and buf: "appendToBuffer (enum (header_map r)) r (Buffer_new kInitialSize) = Inr buf"
    and send: "send_buffer E no_callbacks wr buf c = Inr (buf', c1)"
    and c': "c' = (if isKeepAlive_flag r then shutdown E c1 else c1)"
    using assms(3) by (auto simp: onRequest_def bindR_eq_Inr)
  have "wf_buffer buf"
    using assms(1) r buf foldR_append_wf [OF _ wf_new_buffer]
    unfolding fitting_callback_def appendToBuffer_def by blast
  then have "?step c c1"
    using api_send_buffer [OF assms(2), of buf E "web_user E wr enum cb" c buf' c1] send
    by (simp add: send_web_user)
  then show ?thesis
    using c' api_shutdown [of E "web_user E wr enum cb" c1]
    by (auto intro: rtranclp.rtrancl_into_rtrancl)
qed

lemma onMessage_api:
  assumes "fitting_callback enum cb" "write_ok wr"
  shows "acts_by_api E (web_user E wr enum cb) (onMessage E no_callbacks wr enum cb t)"
  unfolding acts_by_api_def
proof (intro allI impI)
  fix c c'
  let ?step = "api_step E (web_user E wr enum cb)"
  assume m: "onMessage E no_callbacks wr enum cb t c = Inr c'"
  then obtain ok ctx b where p: "the (parseRequest HttpContext_new (inputBuffer c)) = Inr (ok, ctx, b)"
    by (auto simp: onMessage_def bindR_eq_Inr)
  let ?c1 = "c\<lparr>inputBuffer := b\<rparr>"
  have s1: "?step c ?c1" by (rule api_input)
  have bad: "?step\<^sup>*\<^sup>* ?c1 (shutdown E c2)" if "send_string E no_callbacks wr bad_request ?c1 = Inr c2" for c2
  proof -
    have "?step ?c1 c2"
      using api_send [OF assms(2), of bad_request E "web_user E wr enum cb" ?c1 c2] that
      by (simp add: send_web_user bad_request_def CRLF_def vector_max_size_def)
    then show ?thesis using api_shutdown by (metis converse_rtranclp_into_rtranclp r_into_rtranclp)
  qed
  obtain c2 where c2: "?step\<^sup>*\<^sup>* ?c1 c2"
      "(if gotAll ctx then onRequest E no_callbacks wr enum cb (req ctx) c2 else Inr c2) = Inr c'"
    using m p bad by (auto simp: onMessage_def Let_def bindR_eq_Inr split: if_splits)
  then have "?step\<^sup>*\<^sup>* c2 c'"
    using onRequest_api [OF assms] by (auto split: if_splits)
  with s1 c2(1) show "?step\<^sup>*\<^sup>* c c'"
    by (metis converse_rtranclp_into_rtranclp rtranclp_trans)
qed

lemma web_user_ok:
  assumes "fitting_callback enum cb" "write_ok wr"
  shows "user_ok E (web_user E wr enum cb)"
proof -
  have "connectionCallback (web_user E wr enum cb) = Some onConnection"
    "messageCallback (web_user E wr enum cb) = Some (onMessage E no_callbacks wr enum cb)"
    "writeCompleteCallback (web_user E wr enum cb) = None"
    "closeCallbackU (web_user E wr enum cb) = Some Inr"
    "highWaterMarkCallback (web_user E wr enum cb) = None"
    by (simp_all add: web_user_def)
  moreover have "acts_by_api E U onConnection" "acts_by_api E U Inr" for U
    by (simp_all add: acts_by_api_def onConnection_def)
  ultimately show ?thesis
    using onMessage_api [OF assms, of E] by (simp add: user_ok_def)
qed

section \<open>From request to response\<close>

text \<open>A kernel that takes whatever is offered.\<close>

definition write_all :: "char list \<Rightarrow> int + nat" where
  "write_all d = Inr (length d)"

lemma sendInLoop_all:
  assumes "state c \<noteq> kDisConnected" "quiet_inv c" "content (outputBuffer c) = []"
    "length d \<le> vector_max_size"
  shows "sendInLoop E no_callbacks write_all d c =
    Inr (c\<lparr>wire := wire c @ d, accepted := accepted c @ d\<rparr>)"
proof -
  have "readableBytes (outputBuffer c) = 0" "\<not> isWriting (the_channel c)"
    using assms(2,3) by (simp_all add: quiet_inv_def stream_inv_def readableBytes_content)
  moreover have "szsub (length d) (length d) = 0"
    using assms(4) by (simp add: szsub_exact buffer_consts)
  ultimately show ?thesis
    using assms(1) by (simp add: sendInLoop_def sendInLoop_write_def write_all_def callback_flags)
qed

lemma send_buffer_all:
  assumes "state c = kConnected" "isInLoopThread (env_tid E) (cloop c)" "quiet_inv c"
    "content (outputBuffer c) = []" "wf_buffer b"
  shows "send_buffer E no_callbacks write_all b c =
    Inr (retrieveAll b, c\<lparr>wire := wire c @ content b, accepted := accepted c @ content b\<rparr>)"
proof -
  note w = wf_bufferD [OF assms(5)]
  have "retrieveAsString (readableBytes b) b = Inr (content b, retrieve (readableBytes b) b)"
    using w assms(5) content_eq_take [OF assms(5)]
    by (simp add: retrieveAsString_def peek_def readableBytes_exact)
  moreover have "length (content b) \<le> vector_max_size"
    using w by (simp add: content_def vector_max_size_def)
  ultimately show ?thesis
    using assms sendInLoop_all [of c "content b" E] by (simp add: send_buffer_def)
qed

definition parsed_request :: "string \<Rightarrow> (string \<times> string) list \<Rightarrow> request" where
  "parsed_request p hs = req (add_headers hs (line_request p))"

lemma quiet_input: "quiet_inv (c\<lparr>inputBuffer := b\<rparr>) = quiet_inv c"
  by (simp add: quiet_inv_def stream_inv_def)

lemma onRequest_answers:
  assumes "state c = kConnected" "isInLoopThread (env_tid E) (cloop c)" "quiet_inv c"
    "content (outputBuffer c) = []"
    "cb rq (HttpResponse_new (close_wanted rq)) = Inr r"
    "length (response_text (enum (header_map r)) r) \<le> room (Buffer_new kInitialSize)"
  shows "\<exists>c'. onRequest E no_callbacks write_all enum cb rq c = Inr c' \<and>
    wire c' = wire c @ response_text (enum (header_map r)) r \<and> content (outputBuffer c') = [] \<and>
    inputBuffer c' = inputBuffer c \<and>
    state c' = (if isKeepAlive_flag r then kDisConnecting else kConnected)"
proof -
  let ?t = "response_text (enum (header_map r)) r"
  obtain b where b: "appendToBuffer (enum (header_map r)) r (Buffer_new kInitialSize) = Inr b"
      "wf_buffer b" "content b = ?t"
    using appendToBuffer_ok [OF wf_new_buffer assms(6)] by auto
  show ?thesis
    using send_buffer_all [OF assms(1-4) b(2)] assms b by (simp add: onRequest_def shutdown_def)
qed

section \<open>Properties\<close>



text \<open>
  Every connection of the web server keeps the integrity of its stream: with the server's
  own callbacks installed, whatever requests arrive and however the kernel splits writes, the
  bytes of all responses reach the wire in order, followed by those still buffered.
\<close>

theorem web_connection_stream_integrity:
  assumes "fitting_callback enum cb" "write_ok wr"
    "TcpConnection_new lp s nameArg sockfd p = Inr c0"
    "(conn_step E (web_user E wr enum cb))\<^sup>*\<^sup>* c0 c"
  shows "accepted c = wire c @ content (outputBuffer c)"
proof -
  have "user_ok E (web_user E wr enum cb) \<and> stream_inv c0"
    using web_user_ok [OF assms(1,2)] new_quiet(1) [OF assms(3)] by (simp add: quiet_inv_def)
  from str.conn_steps_inv [OF assms(4) this] show ?thesis
    by (simp add: stream_inv_def)
qed

section \<open>The demonstration connection\<close>

text \<open>The established connection of the previous theory, after some bytes have arrived.\<close>

lemma demo_received:
  assumes "length xs \<le> 4096"
  obtains c :: "(int \<Rightarrow> (evmask \<times> chan_ptr) option, nat) tcp_connection"
  where "state c = kConnected" "isInLoopThread (env_tid demo_env) (cloop c)" "quiet_inv c"
    "content (outputBuffer c) = []" "wf_buffer (inputBuffer c)" "content (inputBuffer c) = xs"
proof -
  obtain c0 c where "conn_step demo_env demo_user c0 c" and c: "state c = kConnected"
      "outputBuffer c = Buffer_new kInitialSize" "isInLoopThread (env_tid demo_env) (cloop c)"
      "quiet_inv c"
    by (rule demo_established)
  let ?b = "\<lparr>store = replicate 8 CR @ xs, readerIndex = 8, writerIndex = 8 + length xs\<rparr>"
  show thesis
    by (rule that [of "c\<lparr>inputBuffer := ?b\<rparr>"])
      (use c wf_demo_buffer [OF assms] in \<open>simp_all add: quiet_input\<close>)
qed

lemma demo_room_text: "length xs \<le> 4096 \<Longrightarrow> length xs \<le> room (Buffer_new kInitialSize)"
  by (simp add: room_def Buffer_new_def buffer_consts szadd_def kInitialSize_def)



theorem web_connection_stream_integrity_witness:
  "\<exists>c0 c. TcpConnection_new (Some (EventLoop_new 0 0)) demo_poller ''c'' 5 1 = Inr c0 \<and>
     conn_step demo_env (web_user demo_env demo_write (\<lambda>_. []) defaultHttpCallback) c0 c \<and>
     state c = kConnecting \<and> accepted c = wire c @ content (outputBuffer c)"
proof -
  let ?U = "web_user demo_env demo_write (\<lambda>_. []) defaultHttpCallback"
  obtain c0 where c0: "TcpConnection_new (Some (EventLoop_new 0 (0 :: nat))) demo_poller ''c'' 5 1 = Inr c0"
    by (simp add: TcpConnection_new_def)
  have d: "dec 404 = ''404''" by code_simp
  have fit: "fitting_callback (\<lambda>_. []) defaultHttpCallback"
    by (simp add: fitting_callback_def defaultHttpCallback_def response_pieces_def response_ops
        setIsKeepAlive_def HttpResponse_new_def d crlf_def vector_max_size_def)
  have step: "conn_step demo_env ?U c0 (shutdown demo_env c0)"
    by (rule cs_api [OF api_shutdown])
  have "state (shutdown demo_env c0) = kConnecting"
    using new_quiet(4) [OF c0] by (simp add: shutdown_def)
  moreover have "(conn_step demo_env ?U)\<^sup>*\<^sup>* c0 (shutdown demo_env c0)"
    using step by (rule r_into_rtranclp)
  note web_connection_stream_integrity [OF fit demo_write_ok c0 this]
  ultimately show ?thesis using c0 step by blast
qed

end
