(* ===== verification/Acceptor.thy ===== *)
theory Acceptor
  imports Format Poller
begin

text \<open>
  Addresses (\<^verbatim>\<open>src/net/InetAddress.cc\<close>), sockets (\<^verbatim>\<open>src/net/Socket.cc\<close>) and the acceptor of
  new connections (\<^verbatim>\<open>src/net/Acceptor.cc\<close>). The system calls appear as their answers;
  \<^verbatim>\<open>inet_addr\<close>, which accepts many notations, is a parameter.
\<close>

section \<open>Addresses\<close>

definition AF_INET :: "16 word" where
  "AF_INET = 2"

text \<open>Both conversions swap the two bytes of a port on the machines the code is built for.\<close>

definition htons :: "16 word \<Rightarrow> 16 word" where
  "htons w = push_bit 8 w OR drop_bit 8 w"

definition ntohs :: "16 word \<Rightarrow> 16 word" where
  "ntohs w = push_bit 8 w OR drop_bit 8 w"

text \<open>The address is stored as its four bytes in network order.\<close>

type_synonym in_addr = "8 word \<times> 8 word \<times> 8 word \<times> 8 word"

record sockaddr_in =
  sin_family :: "16 word"
  sin_port :: "16 word"
  sin_addr :: in_addr

definition dec_byte :: "8 word \<Rightarrow> string" where
  "dec_byte b = dec (unat b)"

text \<open>\<^verbatim>\<open>inet_ntop\<close> writes dotted decimal notation, here into an array of 64 bytes.\<close>

definition inet_ntop :: "in_addr \<Rightarrow> string" where
  "inet_ntop = (\<lambda>(a, b, c, d).
     dec_byte a @ ''.'' @ dec_byte b @ ''.'' @ dec_byte c @ ''.'' @ dec_byte d)"

definition InetAddress_new :: "(string \<Rightarrow> in_addr) \<Rightarrow> 16 word \<Rightarrow> string \<Rightarrow> sockaddr_in" where
  "InetAddress_new inet_addr port ip =
     \<lparr>sin_family = AF_INET, sin_port = htons port, sin_addr = inet_addr ip\<rparr>"

definition toIp :: "sockaddr_in \<Rightarrow> string" where
  "toIp a = inet_ntop (sin_addr a)"

text \<open>\<^verbatim>\<open>sprintf\<close> does not know the size of the array: a text that does not fit overruns it.\<close>

definition toIpPort :: "sockaddr_in \<Rightarrow> string result" where
  "toIpPort a =
     (let buf = inet_ntop (sin_addr a) @ '':'' @ dec (unat (ntohs (sin_port a)))
      in if length buf < 64 then Inr buf else Inl OutOfBounds)"

definition toPort :: "sockaddr_in \<Rightarrow> 16 word" where
  "toPort a = ntohs (sin_port a)"

definition setSockAddr :: "sockaddr_in \<Rightarrow> sockaddr_in \<Rightarrow> sockaddr_in" where
  "setSockAddr addr a = addr"

section \<open>Sockets\<close>

datatype sockopt = TCP_NODELAY | SO_REUSEADDR | SO_REUSEPORT | SO_KEEPALIVE

text \<open>What the calls on a descriptor leave in the kernel.\<close>

record socket =
  sockfd :: int
  sock_opts :: "sockopt \<Rightarrow> int"
  sock_bound :: "sockaddr_in option"
  sock_backlog :: "nat option"
  sock_wr_shut :: bool
  sock_closed :: bool

definition Socket_new :: "int \<Rightarrow> socket" where
  "Socket_new f =
     \<lparr>sockfd = f, sock_opts = (\<lambda>_. 0), sock_bound = None, sock_backlog = None, sock_wr_shut = False,
      sock_closed = False\<rparr>"

definition Socket_destroy :: "socket \<Rightarrow> socket" where
  "Socket_destroy s = s\<lparr>sock_closed := True\<rparr>"

definition bindAddress :: "bool \<Rightarrow> sockaddr_in \<Rightarrow> socket \<Rightarrow> socket result" where
  "bindAddress bind_ok localaddr s =
     (if \<not> bind_ok then Inl FatalExit else Inr (s\<lparr>sock_bound := Some localaddr\<rparr>))"

definition Socket_listen :: "bool \<Rightarrow> socket \<Rightarrow> socket result" where
  "Socket_listen listen_ok s =
     (if \<not> listen_ok then Inl FatalExit else Inr (s\<lparr>sock_backlog := Some 1024\<rparr>))"

text \<open>
  \<^verbatim>\<open>accept\<close>: \<open>ans\<close> is the answer of \<^verbatim>\<open>accept4\<close>, an errno or the new descriptor with the address of
  the peer. On success the code reads the address of \<open>peeraddr\<close>, whose value is thereby unchanged.
\<close>

definition Socket_accept ::
    "int + int \<times> sockaddr_in \<Rightarrow> sockaddr_in \<Rightarrow> (int + int) \<times> sockaddr_in" where
  "Socket_accept ans peeraddr =
     (case ans of Inl errno \<Rightarrow> (Inl errno, peeraddr)
      | Inr (connfd, addr) \<Rightarrow> (Inr connfd, peeraddr))"

text \<open>A failed \<^verbatim>\<open>shutdown\<close> is only logged.\<close>

definition shutdownWrite :: "bool \<Rightarrow> socket \<Rightarrow> socket" where
  "shutdownWrite shutdown_ok s = (if shutdown_ok then s\<lparr>sock_wr_shut := True\<rparr> else s)"

definition set_opt :: "sockopt \<Rightarrow> bool \<Rightarrow> socket \<Rightarrow> socket" where
  "set_opt x on s = s\<lparr>sock_opts := (sock_opts s)(x := if on then 1 else 0)\<rparr>"

definition setTcpNoDelay :: "bool \<Rightarrow> socket \<Rightarrow> socket" where
  "setTcpNoDelay on s = set_opt TCP_NODELAY on s"

definition setReuseAddr :: "bool \<Rightarrow> socket \<Rightarrow> socket" where
  "setReuseAddr on s = set_opt SO_REUSEADDR on s"

text \<open>The name of the option in the code is \<^verbatim>\<open>SO_REUSEADDR\<close> here too.\<close>

definition setReusePort :: "bool \<Rightarrow> socket \<Rightarrow> socket" where
  "setReusePort on s = set_opt SO_REUSEADDR on s"

definition setKeepAlive :: "bool \<Rightarrow> socket \<Rightarrow> socket" where
  "setKeepAlive on s = set_opt SO_KEEPALIVE on s"

section \<open>The acceptor\<close>

record acceptor =
  acceptSocket :: socket
  acceptChannel :: chan_ptr
  listenning :: bool

text \<open>\<open>ans\<close> is the answer of \<^verbatim>\<open>socket\<close>.\<close>

definition createNonbloking :: "int + int \<Rightarrow> int result" where
  "createNonbloking ans = (case ans of Inl errno \<Rightarrow> Inl FatalExit | Inr f \<Rightarrow> Inr f)"

text \<open>
  The constructor, with the channel at \<open>p\<close> in the poller of the base loop; \<open>reuseport\<close> is not
  looked at.
\<close>

definition Acceptor_new ::
    "int + int \<Rightarrow> bool \<Rightarrow> chan_ptr \<Rightarrow> sockaddr_in \<Rightarrow> bool \<Rightarrow> 'k poller \<Rightarrow> (acceptor \<times> 'k poller) result"
  where
  "Acceptor_new socket_ans bind_ok p listenAddr reuseport s =
     bindR (createNonbloking socket_ans) (\<lambda>f.
     bindR (bindAddress bind_ok listenAddr (setReusePort True (setReuseAddr True (Socket_new f)))) (\<lambda>sock.
     Inr (\<lparr>acceptSocket = sock, acceptChannel = p, listenning = False\<rparr>,
          upd_chan p (\<lambda>_. (Channel_new f)\<lparr>readCallback := True\<rparr>) s)))"

definition Acceptor_destroy :: "'k epoll_ctl \<Rightarrow> acceptor \<Rightarrow> 'k poller \<Rightarrow> (acceptor \<times> 'k poller) result"
  where
  "Acceptor_destroy ctl a s =
     bindR (disableAll ctl (acceptChannel a) s) (\<lambda>s1.
     bindR (removeChannel ctl (acceptChannel a) s1) (\<lambda>s2.
     Inr (a\<lparr>acceptSocket := Socket_destroy (acceptSocket a)\<rparr>, s2)))"

definition listen :: "'k epoll_ctl \<Rightarrow> bool \<Rightarrow> acceptor \<Rightarrow> 'k poller \<Rightarrow> (acceptor \<times> 'k poller) result"
  where
  "listen ctl listen_ok a s =
     (let a1 = a\<lparr>listenning := True\<rparr> in
      bindR (Socket_listen listen_ok (acceptSocket a1)) (\<lambda>sock.
      bindR (enableReading ctl (acceptChannel a1) s) (\<lambda>s1.
      Inr (a1\<lparr>acceptSocket := sock\<rparr>, s1))))"

text \<open>
  \<^verbatim>\<open>handleRead\<close> acts on whatever state \<open>'s\<close> the callback works on; \<open>close_fd\<close> closes a descriptor
  nobody wants. The address of the peer starts as the default argument, 127.0.0.1 and port 0.
\<close>

definition Acceptor_handleRead ::
    "(string \<Rightarrow> in_addr) \<Rightarrow> (int \<Rightarrow> 's \<Rightarrow> 's) \<Rightarrow> (int \<Rightarrow> sockaddr_in \<Rightarrow> 's \<Rightarrow> 's result) option \<Rightarrow>
     int + int \<times> sockaddr_in \<Rightarrow> 's \<Rightarrow> 's result" where
  "Acceptor_handleRead inet_addr close_fd newConnectionCallback ans s =
     (let (connfd, peerAddr) = Socket_accept ans (InetAddress_new inet_addr 0 ''127.0.0.1'') in
      case connfd of
        Inr f \<Rightarrow> (case newConnectionCallback of Some cb \<Rightarrow> cb f peerAddr s | None \<Rightarrow> Inr (close_fd f s))
      | Inl errno \<Rightarrow> Inr s)"

section \<open>Lemmas\<close>

lemma ntohs_htons [simp]: "ntohs (htons w) = w"
  unfolding ntohs_def htons_def
  by (rule bit_word_eqI) (auto simp: bit_simps)

lemma length_dec_byte: "length (dec_byte b) \<le> 3"
proof -
  have "unat b < 10 ^ Suc 2" using unsigned_less [of b, where ?'a = nat] by simp
  from length_dec [OF this] show ?thesis by (simp add: dec_byte_def)
qed

lemma length_inet_ntop: "length (inet_ntop a) \<le> 15"
proof -
  obtain w x y z where a: "a = (w, x, y, z)" by (cases a)
  show ?thesis
    using length_dec_byte [of w] length_dec_byte [of x] length_dec_byte [of y] length_dec_byte [of z]
    by (simp add: a inet_ntop_def)
qed

lemma length_port: "length (dec (unat (p :: 16 word))) \<le> 5"
proof -
  have "unat p < 10 ^ Suc 4" using unsigned_less [of p, where ?'a = nat] by simp
  from length_dec [OF this] show ?thesis by simp
qed

lemma toIpPort_fits:
  "toIpPort a = Inr (inet_ntop (sin_addr a) @ '':'' @ dec (unat (ntohs (sin_port a))))"
  using length_inet_ntop [of "sin_addr a"] length_port [of "ntohs (sin_port a)"]
  by (simp add: toIpPort_def)

lemma toIpPort_length: "toIpPort a = Inr s \<Longrightarrow> length s \<le> 21"
  using length_inet_ntop [of "sin_addr a"] length_port [of "ntohs (sin_port a)"]
  by (auto simp: toIpPort_fits)

end
