(* ===== verification/ThreadPool.thy ===== *)
theory ThreadPool
  imports Format "HOL-Library.Multiset"
begin

text \<open>
  Threads and the pool of loop threads: \<^verbatim>\<open>src/base/Thread.h\<close>, \<^verbatim>\<open>Thread.cc\<close>,
  \<^verbatim>\<open>src/net/EventLoopThread.cc\<close>, \<^verbatim>\<open>src/net/EventLoopThreadPool.h\<close> and \<^verbatim>\<open>EventLoopThreadPool.cc\<close>. An
  event loop is an opaque value, as the pool only hands out pointers to it.
\<close>

section \<open>Threads\<close>

text \<open>The function of a thread is \<open>None\<close> when its \<^verbatim>\<open>std::function\<close> is empty.\<close>

record 'f thread =
  t_started :: bool
  t_joined :: bool
  t_tid :: int
  t_func :: "'f option"
  t_name :: string

text \<open>\<^verbatim>\<open>setDefaultName\<close> counts the threads created in \<^verbatim>\<open>numCreated_\<close>.\<close>

definition setDefaultName :: "int \<Rightarrow> 'f thread \<Rightarrow> int \<times> 'f thread" where
  "setDefaultName numCreated t =
     (let num = numCreated + 1 in
      (num, if t_name t = [] then t\<lparr>t_name := snprintf 32 (''Thread'' @ dec (nat num))\<rparr> else t))"

text \<open>
  The constructor leaves its first parameter unnamed and initialises \<^verbatim>\<open>func_\<close> from itself, so
  that the value of the member is \<open>garbage\<close>, whatever the caller passed as \<open>f\<close>.
\<close>

definition Thread_new ::
    "'f option \<Rightarrow> 'f option \<Rightarrow> string \<Rightarrow> int \<Rightarrow> int \<times> 'f thread" where
  "Thread_new garbage f nm numCreated =
     setDefaultName numCreated
       \<lparr>t_started = False, t_joined = False, t_tid = 0, t_func = garbage, t_name = nm\<rparr>"

text \<open>
  \<^verbatim>\<open>start\<close>: the new thread stores its id, lets the starter go on and calls its function; \<open>tid\<close> is
  the id, \<open>run\<close> the function's effect.
\<close>

definition Thread_start ::
    "('f \<Rightarrow> 's \<Rightarrow> 's result) \<Rightarrow> int \<Rightarrow> 'f thread \<Rightarrow> 's \<Rightarrow> ('f thread \<times> 's) result" where
  "Thread_start run tid t s =
     (let t1 = t\<lparr>t_started := True, t_tid := tid\<rparr> in
      case t_func t1 of None \<Rightarrow> Inl BadFunctionCall
      | Some f \<Rightarrow> bindR (run f s) (\<lambda>s1. Inr (t1, s1)))"

definition Thread_join :: "'f thread \<Rightarrow> 'f thread" where
  "Thread_join t = t\<lparr>t_joined := True\<rparr>"

text \<open>The destructor detaches the thread of the system if nobody waited for it.\<close>

definition Thread_destroy_detaches :: "'f thread \<Rightarrow> bool" where
  "Thread_destroy_detaches t \<longleftrightarrow> t_started t \<and> \<not> t_joined t"

section \<open>Loop threads\<close>

text \<open>
  The function bound into the thread of an \<^verbatim>\<open>EventLoopThread\<close> is its \<^verbatim>\<open>threadFunc\<close>. The callback of
  the user, if there is one, works on the new loop.
\<close>

datatype thread_func = RunThreadFunc

record 'l loop_thread =
  elt_loop :: "'l option"
  elt_exiting :: bool
  elt_thread :: "thread_func thread"
  elt_callback :: "('l \<Rightarrow> 'l) option"

definition EventLoopThread_new ::
    "thread_func option \<Rightarrow> ('l \<Rightarrow> 'l) option \<Rightarrow> string \<Rightarrow> int \<Rightarrow> int \<times> 'l loop_thread" where
  "EventLoopThread_new garbage cb nm numCreated =
     (let (num, t) = Thread_new garbage (Some RunThreadFunc) nm numCreated
      in (num, \<lparr>elt_loop = None, elt_exiting = False, elt_thread = t, elt_callback = cb\<rparr>))"

text \<open>
  \<^verbatim>\<open>threadFunc\<close> up to the call of \<^verbatim>\<open>loop()\<close>, which publishes the loop of the thread, and what it does
  when \<^verbatim>\<open>loop()\<close> has returned.
\<close>

definition threadFunc_publish :: "'l \<Rightarrow> 'l loop_thread \<Rightarrow> 'l loop_thread" where
  "threadFunc_publish newloop e =
     e\<lparr>elt_loop := Some (case elt_callback e of None \<Rightarrow> newloop | Some cb \<Rightarrow> cb newloop)\<rparr>"

definition threadFunc_leave :: "'l loop_thread \<Rightarrow> 'l loop_thread" where
  "threadFunc_leave e = e\<lparr>elt_loop := None\<rparr>"

text \<open>
  \<^verbatim>\<open>startLoop\<close> starts the thread and waits until \<^verbatim>\<open>threadFunc\<close> has published the loop. Without a
  published loop it would wait for ever.
\<close>

definition startLoop ::
    "int \<Rightarrow> 'l \<Rightarrow> 'l loop_thread \<Rightarrow> ('l \<times> 'l loop_thread) result" where
  "startLoop tid newloop e =
     bindR (Thread_start (\<lambda>RunThreadFunc \<Rightarrow> \<lambda>e1. Inr (threadFunc_publish newloop e1))
              tid (elt_thread e) e)
       (\<lambda>(t, e1). case elt_loop e1 of None \<Rightarrow> Inl NoReturn
                  | Some l \<Rightarrow> Inr (l, e1\<lparr>elt_thread := t\<rparr>))"

text \<open>The destructor stops a running loop by \<open>quit\<close> and waits for the thread.\<close>

definition EventLoopThread_destroy :: "('l \<Rightarrow> 'l) \<Rightarrow> 'l loop_thread \<Rightarrow> 'l loop_thread" where
  "EventLoopThread_destroy quit e =
     (let e1 = e\<lparr>elt_exiting := True\<rparr> in
      case elt_loop e1 of None \<Rightarrow> e1
      | Some l \<Rightarrow> e1\<lparr>elt_loop := Some (quit l), elt_thread := Thread_join (elt_thread e1)\<rparr>)"

section \<open>The pool\<close>

record 'l loop_pool =
  baseLoop :: 'l
  pool_name :: string
  pool_started :: bool
  numThreads :: int
  next_index :: nat
  pool_threads :: "'l loop_thread list"
  pool_loops :: "'l list"

definition EventLoopThreadPool_new :: "'l \<Rightarrow> string \<Rightarrow> 'l loop_pool" where
  "EventLoopThreadPool_new base nm =
     \<lparr>baseLoop = base, pool_name = nm, pool_started = False, numThreads = 0, next_index = 0,
      pool_threads = [], pool_loops = []\<rparr>"

text \<open>\<^verbatim>\<open>numThreads_ = numThreads_\<close>: the argument is not used.\<close>

definition setThreadNum :: "int \<Rightarrow> 'l loop_pool \<Rightarrow> 'l loop_pool" where
  "setThreadNum n p = p\<lparr>numThreads := numThreads p\<rparr>"

text \<open>
  One turn of the loop in \<^verbatim>\<open>start\<close>; \<open>newloop i\<close> is the event loop that the \<open>i\<close>-th thread creates and
  \<open>tid i\<close> its thread id. The number of threads created in the process is passed on.
\<close>

definition start_one ::
    "thread_func option \<Rightarrow> ('l \<Rightarrow> 'l) option \<Rightarrow> (nat \<Rightarrow> int) \<Rightarrow> (nat \<Rightarrow> 'l) \<Rightarrow> nat
     \<Rightarrow> int \<times> 'l loop_pool \<Rightarrow> (int \<times> 'l loop_pool) result" where
  "start_one garbage cb tid newloop i np =
     (let (num, p) = np;
          buf = snprintf (length (pool_name p) + 32) (pool_name p @ dec i);
          (num1, e) = EventLoopThread_new garbage cb buf num
      in bindR (startLoop (tid i) (newloop i) e)
           (\<lambda>(l, e1). Inr (num1, p\<lparr>pool_threads := pool_threads p @ [e1],
                                  pool_loops := pool_loops p @ [l]\<rparr>)))"

fun start_loop ::
    "thread_func option \<Rightarrow> ('l \<Rightarrow> 'l) option \<Rightarrow> (nat \<Rightarrow> int) \<Rightarrow> (nat \<Rightarrow> 'l) \<Rightarrow> nat list
     \<Rightarrow> int \<times> 'l loop_pool \<Rightarrow> (int \<times> 'l loop_pool) result" where
  "start_loop garbage cb tid newloop [] np = Inr np"
| "start_loop garbage cb tid newloop (i # is) np =
     bindR (start_one garbage cb tid newloop i np) (start_loop garbage cb tid newloop is)"

definition pool_start ::
    "thread_func option \<Rightarrow> ('l \<Rightarrow> 'l) option \<Rightarrow> (nat \<Rightarrow> int) \<Rightarrow> (nat \<Rightarrow> 'l)
     \<Rightarrow> int \<times> 'l loop_pool \<Rightarrow> (int \<times> 'l loop_pool) result" where
  "pool_start garbage cb tid newloop np =
     (let (num, p) = np; p1 = p\<lparr>pool_started := True\<rparr>
      in bindR (start_loop garbage cb tid newloop [0..<nat (numThreads p1)] (num, p1))
           (\<lambda>(num1, p2). Inr (num1,
              if numThreads p2 = 0
              then (case cb of None \<Rightarrow> p2 | Some f \<Rightarrow> p2\<lparr>baseLoop := f (baseLoop p2)\<rparr>)
              else p2)))"

definition getNextLoop :: "'l loop_pool \<Rightarrow> ('l \<times> 'l loop_pool) result" where
  "getNextLoop p =
     (if pool_loops p \<noteq> [] then
        if next_index p < length (pool_loops p) then
          let l = pool_loops p ! next_index p;
              n = next_index p + 1
          in Inr (l, p\<lparr>next_index := if n \<ge> length (pool_loops p) then 0 else n\<rparr>)
        else Inl OutOfBounds
      else Inr (baseLoop p, p))"

text \<open>The second branch has no \<^verbatim>\<open>return\<close>.\<close>

definition getAllLoops :: "'l loop_pool \<Rightarrow> 'l list result" where
  "getAllLoops p = (if pool_loops p = [] then Inr [baseLoop p] else Inl NoReturn)"

section \<open>Round robin\<close>

fun take_loops :: "nat \<Rightarrow> 'l loop_pool \<Rightarrow> ('l list \<times> 'l loop_pool) result" where
  "take_loops 0 p = Inr ([], p)"
| "take_loops (Suc k) p =
     bindR (getNextLoop p) (\<lambda>(l, p1). bindR (take_loops k p1) (\<lambda>(ls, p2). Inr (l # ls, p2)))"

lemma take_loops_rotates:
  assumes "pool_loops p \<noteq> []" "next_index p < length (pool_loops p)"
  shows "take_loops k p =
    Inr (map (\<lambda>i. pool_loops p ! ((next_index p + i) mod length (pool_loops p))) [0..<k],
         p\<lparr>next_index := (next_index p + k) mod length (pool_loops p)\<rparr>)"
  using assms(2)
proof (induction k arbitrary: p)
  case 0
  then show ?case by simp
next
  case (Suc k)
  let ?n = "length (pool_loops p)"
  define p1 where "p1 = p\<lparr>next_index := Suc (next_index p) mod ?n\<rparr>"
  have wrap: "(if ?n \<le> Suc (next_index p) then 0 else Suc (next_index p)) = Suc (next_index p) mod ?n"
    using Suc.prems by (cases "Suc (next_index p) = ?n") auto
  have ne: "pool_loops p \<noteq> []" using Suc.prems by auto
  have step: "getNextLoop p = Inr (pool_loops p ! next_index p, p1)"
    using Suc.prems ne wrap by (auto simp: getNextLoop_def p1_def)
  have p1: "pool_loops p1 = pool_loops p" "next_index p1 = Suc (next_index p) mod ?n"
    "next_index p1 < length (pool_loops p1)"
    using ne by (simp_all add: p1_def)
  have shift: "(Suc (next_index p) mod ?n + i) mod ?n = (next_index p + Suc i) mod ?n" for i
    by (simp add: mod_simps)
  have first: "[0..<Suc k] = 0 # map Suc [0..<k]"
    by (simp add: upt_conv_Cons map_Suc_upt del: upt_Suc)
  show ?case
    using Suc.IH [OF p1(3)] step Suc.prems
    by (simp add: p1(1,2) shift first comp_def del: upt_Suc) (simp add: p1_def)
qed

lemma mset_rotate_loops [simp]: "mset (rotate j xs) = mset xs"
  by (simp add: rotate_drop_take union_commute flip: mset_append)
    (metis append_take_drop_id mset_append union_commute)

section \<open>Starting the pool\<close>

lemma number_fits_name: "i < 2 ^ 31 \<Longrightarrow> snprintf (length nm + 32) (nm @ dec i) = nm @ dec i"
  using length_dec [of i 9] by simp

text \<open>What the \<open>i\<close>-th turn of the loop adds to the pool.\<close>

definition loop_after :: "('l \<Rightarrow> 'l) option \<Rightarrow> 'l \<Rightarrow> 'l" where
  "loop_after cb l = (case cb of None \<Rightarrow> l | Some f \<Rightarrow> f l)"

definition thread_after ::
    "('l \<Rightarrow> 'l) option \<Rightarrow> string \<Rightarrow> int \<Rightarrow> 'l \<Rightarrow> 'l loop_thread" where
  "thread_after cb nm tid l =
     \<lparr>elt_loop = Some (loop_after cb l), elt_exiting = False,
      elt_thread = \<lparr>t_started = True, t_joined = False, t_tid = tid,
        t_func = Some RunThreadFunc, t_name = nm\<rparr>,
      elt_callback = cb\<rparr>"

lemma start_one_creates:
  assumes "i < 2 ^ 31"
  shows "start_one (Some RunThreadFunc) cb tid newloop i (num, p) =
    Inr (num + 1, p\<lparr>pool_threads := pool_threads p @ [thread_after cb (pool_name p @ dec i) (tid i) (newloop i)],
      pool_loops := pool_loops p @ [loop_after cb (newloop i)]\<rparr>)"
  using number_fits_name [OF assms, of "pool_name p"]
  by (simp add: start_one_def EventLoopThread_new_def Thread_new_def setDefaultName_def startLoop_def
      Thread_start_def threadFunc_publish_def thread_after_def loop_after_def)

lemma start_loop_creates:
  assumes "\<forall>i \<in> set is. i < 2 ^ 31"
  shows "start_loop (Some RunThreadFunc) cb tid newloop is (num, p) =
    Inr (num + int (length is),
      p\<lparr>pool_threads := pool_threads p @
          map (\<lambda>i. thread_after cb (pool_name p @ dec i) (tid i) (newloop i)) is,
        pool_loops := pool_loops p @ map (\<lambda>i. loop_after cb (newloop i)) is\<rparr>)"
  using assms by (induction "is" arbitrary: num p) (simp_all add: start_one_creates)

section \<open>Properties\<close>

text \<open>
  \<^verbatim>\<open>getNextLoop\<close> distributes fairly. With \<open>n > 0\<close> loops, any \<open>n\<close> consecutive calls, from any point
  of the rotation, return every loop exactly once and bring the rotation back to where it was.
\<close>

theorem getNextLoop_round_robin:
  assumes "pool_loops p \<noteq> []" "next_index p < length (pool_loops p)"
  shows "\<exists>ls. take_loops (length (pool_loops p)) p = Inr (ls, p) \<and> mset ls = mset (pool_loops p)"
proof -
  let ?n = "length (pool_loops p)" and ?j = "next_index p"
  have eq: "map (\<lambda>i. pool_loops p ! ((?j + i) mod ?n)) [0..<?n] = rotate ?j (pool_loops p)"
    by (rule nth_equalityI) (simp_all add: nth_rotate)
  have "take_loops ?n p = Inr (rotate ?j (pool_loops p), p)"
    using take_loops_rotates [OF assms, of ?n] assms(2) by (simp add: eq)
  then show ?thesis by simp
qed

theorem getNextLoop_round_robin_witness:
  "\<exists>ls. take_loops 3 \<lparr>baseLoop = 9, pool_name = [], pool_started = True, numThreads = 3, next_index = 1,
      pool_threads = [], pool_loops = [1, 2, 3 :: nat]\<rparr> =
    Inr (ls, \<lparr>baseLoop = 9, pool_name = [], pool_started = True, numThreads = 3, next_index = 1,
      pool_threads = [], pool_loops = [1, 2, 3]\<rparr>) \<and> mset ls = mset [1, 2, 3]"
  using getNextLoop_round_robin [of "\<lparr>baseLoop = 9, pool_name = [], pool_started = True, numThreads = 3,
    next_index = 1, pool_threads = [], pool_loops = [1, 2, 3 :: nat]\<rparr>"] by (simp add: numeral_eq_Suc)

text \<open>
  Starting a pool of \<open>n\<close> threads, where every \<^verbatim>\<open>Thread\<close> really holds the function it was given,
  creates \<open>n\<close> threads and publishes the \<open>n\<close> loops in order, each after the user's callback has seen
  it, and the names of the threads are the name of the pool followed by the number.
\<close>

theorem pool_start_creates_loops:
  assumes "numThreads p = int n" "pool_loops p = []" "pool_threads p = []"
    "n < 2 ^ 31"
  shows "\<exists>p'. pool_start (Some RunThreadFunc) cb tid newloop (num, p) = Inr (num + int n, p') \<and>
    pool_started p' \<and> length (pool_threads p') = n \<and>
    pool_loops p' = map (\<lambda>i. case cb of None \<Rightarrow> newloop i | Some f \<Rightarrow> f (newloop i)) [0..<n] \<and>
    (pool_name p \<noteq> [] \<longrightarrow>
       map (\<lambda>e. t_name (elt_thread e)) (pool_threads p') = map (\<lambda>i. pool_name p @ dec i) [0..<n])"
proof -
  let ?p = "p\<lparr>pool_started := True\<rparr>"
  have small: "\<forall>i \<in> set [0..<n]. i < 2 ^ 31" using assms(4) by auto
  note run = start_loop_creates [OF small, of cb tid newloop num ?p]
  show ?thesis
    using assms(1-3) by (auto simp: pool_start_def run loop_after_def comp_def
      thread_after_def split: option.split)
qed

theorem pool_start_creates_loops_witness:
  "\<exists>p'. pool_start (Some RunThreadFunc) None (\<lambda>i. int i + 100) (\<lambda>i. i + 7)
      (0, \<lparr>baseLoop = 0, pool_name = ''p'', pool_started = False, numThreads = 2, next_index = 0,
          pool_threads = [], pool_loops = []\<rparr>) = Inr (2, p') \<and> pool_loops p' = [7, 8 :: nat]"
  using pool_start_creates_loops [of "\<lparr>baseLoop = 0 :: nat, pool_name = ''p'', pool_started = False,
      numThreads = 2, next_index = 0, pool_threads = [], pool_loops = []\<rparr>" 2 None
      "\<lambda>i. int i + 100" "\<lambda>i. i + 7" 0]
  by (auto simp: upt_rec)

text \<open>
  The number of threads cannot be set. Whatever number is asked for before the pool is started,
  no thread is created and \<^verbatim>\<open>getNextLoop\<close> always returns the base loop: every server runs on a
  single thread.
\<close>

theorem setThreadNum_has_no_effect:
  "\<exists>p. pool_start garbage None tid newloop (num, setThreadNum n (EventLoopThreadPool_new base nm)) =
      Inr (num, p) \<and>
    pool_loops p = [] \<and> pool_threads p = [] \<and> take_loops k p = Inr (replicate k base, p)"
proof -
  define p where "p = (EventLoopThreadPool_new base nm)\<lparr>pool_started := True\<rparr>"
  have start: "pool_start garbage None tid newloop
      (num, setThreadNum n (EventLoopThreadPool_new base nm)) = Inr (num, p)"
    by (simp add: p_def pool_start_def setThreadNum_def EventLoopThreadPool_new_def)
  have p: "pool_loops p = []" "pool_threads p = []" "baseLoop p = base"
    by (simp_all add: p_def EventLoopThreadPool_new_def)
  have "take_loops k p = Inr (replicate k base, p)"
    by (induction k) (simp_all add: getNextLoop_def p)
  with p start show ?thesis by blast
qed

end
