(* ===== verification/TcpServer.thy ===== *)
theory TcpServer
  imports Acceptor ThreadPool TcpConnection
begin

text \<open>
  The server (\<^verbatim>\<open>src/net/TcpServer.h\<close>, \<^verbatim>\<open>TcpServer.cc\<close>): it takes new connections from the
  acceptor, gives each a name, an event loop of the pool and an entry in its map, and takes the entry
  away when the connection closes. Loops are numbered, 0 is the base loop; of the queue of a loop
  the functors that the server puts there are modelled here. The operations of a connection are a
  record of functions, instantiated by those of \<open>TcpConnection\<close>.
\<close>

section \<open>State\<close>

datatype srv_functor =
    FListen
  | FConnectEstablished nat
  | FRemoveConnectionInLoop nat
  | FConnectDestroyed nat

record 'c conn_ops =
  op_new :: "nat \<Rightarrow> string \<Rightarrow> int \<Rightarrow> sockaddr_in \<Rightarrow> sockaddr_in \<Rightarrow> 'c result"
  op_established :: "'c \<Rightarrow> 'c result"
  op_destroyed :: "'c \<Rightarrow> 'c result"

text \<open>A connection object on the heap.\<close>

record 'c srv_conn =
  ci_name :: string
  ci_loop :: nat
  ci_local :: sockaddr_in
  ci_peer :: sockaddr_in
  ci_obj :: 'c

text \<open>
  \<open>conns\<close> is the heap of connection objects, \<open>fresh\<close> the next free pointer, \<open>connections\<close> the
  server's map. The environment holds \<^verbatim>\<open>epoll_ctl\<close>, the answer of \<^verbatim>\<open>listen\<close>, the write to an eventfd and
  the id of the calling thread.
\<close>

record ('c, 'k, 'e) tcp_server =
  srv_ipPort :: string
  srv_name :: string
  srv_acceptor :: acceptor
  srv_poller :: "'k poller"
  threadPool :: "nat loop_pool"
  threadInitCallback :: "(nat \<Rightarrow> nat) option"
  srv_started :: nat
  nextConnId :: nat
  connections :: "string \<Rightarrow> nat option"
  conns :: "nat \<Rightarrow> 'c srv_conn option"
  fresh :: nat
  loops :: "nat \<Rightarrow> (srv_functor, 'e) event_loop"

record ('k, 'e) srv_env =
  senv_ctl :: "'k epoll_ctl"
  senv_listen_ok :: bool
  senv_efd_write :: "'e \<Rightarrow> 'e"
  senv_tid :: int

section \<open>Operations\<close>

definition CheckLoopNotNull :: "nat option \<Rightarrow> nat result" where
  "CheckLoopNotNull l = (case l of None \<Rightarrow> Inl FatalExit | Some x \<Rightarrow> Inr x)"

definition TcpServer_new ::
    "nat option \<Rightarrow> int + int \<Rightarrow> bool \<Rightarrow> chan_ptr \<Rightarrow> sockaddr_in \<Rightarrow> string \<Rightarrow> bool \<Rightarrow> 'k poller \<Rightarrow>
     (nat \<Rightarrow> (srv_functor, 'e) event_loop) \<Rightarrow> ('c, 'k, 'e) tcp_server result" where
  "TcpServer_new l socket_ans bind_ok p listenAddr nameArg reuse s ls =
     bindR (CheckLoopNotNull l) (\<lambda>base.
     bindR (toIpPort listenAddr) (\<lambda>ipPort.
     bindR (Acceptor_new socket_ans bind_ok p listenAddr reuse s) (\<lambda>(a, s1).
     Inr \<lparr>srv_ipPort = ipPort, srv_name = nameArg, srv_acceptor = a, srv_poller = s1,
          threadPool = EventLoopThreadPool_new base nameArg, threadInitCallback = None,
          srv_started = 0, nextConnId = 1, connections = (\<lambda>_. None), conns = (\<lambda>_. None), fresh = 0,
          loops = ls\<rparr>)))"

definition srv_setThreadNum :: "int \<Rightarrow> ('c, 'k, 'e) tcp_server \<Rightarrow> ('c, 'k, 'e) tcp_server" where
  "srv_setThreadNum n s = s\<lparr>threadPool := setThreadNum n (threadPool s)\<rparr>"

definition setThreadInitCallback ::
    "(nat \<Rightarrow> nat) \<Rightarrow> ('c, 'k, 'e) tcp_server \<Rightarrow> ('c, 'k, 'e) tcp_server" where
  "setThreadInitCallback cb s = s\<lparr>threadInitCallback := Some cb\<rparr>"

definition queue_srv ::
    "('k, 'e) srv_env \<Rightarrow> nat \<Rightarrow> srv_functor \<Rightarrow> ('c, 'k, 'e) tcp_server \<Rightarrow> ('c, 'k, 'e) tcp_server" where
  "queue_srv E l f s =
     s\<lparr>loops := (loops s)(l := queueInLoop (senv_efd_write E) (senv_tid E) f (loops s l))\<rparr>"

text \<open>\<^verbatim>\<open>removeConnectionInLoop\<close> erases the entry and queues the destruction on the connection's loop.\<close>

definition removeConnectionInLoop ::
    "('k, 'e) srv_env \<Rightarrow> nat \<Rightarrow> ('c, 'k, 'e) tcp_server \<Rightarrow> ('c, 'k, 'e) tcp_server result" where
  "removeConnectionInLoop E p s =
     (case conns s p of None \<Rightarrow> Inl NullDeref
      | Some ci \<Rightarrow>
          let s1 = s\<lparr>connections := (connections s)(ci_name ci := None)\<rparr>
          in Inr (queue_srv E (ci_loop ci) (FConnectDestroyed p) s1))"

definition on_conn ::
    "('c \<Rightarrow> 'c result) \<Rightarrow> nat \<Rightarrow> ('c, 'k, 'e) tcp_server \<Rightarrow> ('c, 'k, 'e) tcp_server result" where
  "on_conn f p s =
     (case conns s p of None \<Rightarrow> Inl NullDeref
      | Some ci \<Rightarrow> bindR (f (ci_obj ci)) (\<lambda>c. Inr (s\<lparr>conns := (conns s)(p \<mapsto> ci\<lparr>ci_obj := c\<rparr>)\<rparr>)))"

text \<open>What a functor of the server does when it is called.\<close>

definition run_srv ::
    "'c conn_ops \<Rightarrow> ('k, 'e) srv_env \<Rightarrow> srv_functor \<Rightarrow> ('c, 'k, 'e) tcp_server \<Rightarrow>
     ('c, 'k, 'e) tcp_server result" where
  "run_srv ops E f s =
     (case f of
        FListen \<Rightarrow>
          bindR (listen (senv_ctl E) (senv_listen_ok E) (srv_acceptor s) (srv_poller s)) (\<lambda>(a, q).
          Inr (s\<lparr>srv_acceptor := a, srv_poller := q\<rparr>))
      | FConnectEstablished p \<Rightarrow> on_conn (op_established ops) p s
      | FRemoveConnectionInLoop p \<Rightarrow> removeConnectionInLoop E p s
      | FConnectDestroyed p \<Rightarrow> on_conn (op_destroyed ops) p s)"

text \<open>\<^verbatim>\<open>EventLoop::runInLoop\<close> on one of the server's loops.\<close>

definition srv_runInLoop ::
    "'c conn_ops \<Rightarrow> ('k, 'e) srv_env \<Rightarrow> nat \<Rightarrow> srv_functor \<Rightarrow> ('c, 'k, 'e) tcp_server \<Rightarrow>
     ('c, 'k, 'e) tcp_server result" where
  "srv_runInLoop ops E l f s =
     (if isInLoopThread (senv_tid E) (loops s l) then run_srv ops E f s else Inr (queue_srv E l f s))"

text \<open>
  \<^verbatim>\<open>start\<close>; the arguments of the pool's start are the function the threads hold, their ids, their
  loops and the number of threads created so far.
\<close>

definition srv_start ::
    "'c conn_ops \<Rightarrow> ('k, 'e) srv_env \<Rightarrow> thread_func option \<Rightarrow> (nat \<Rightarrow> int) \<Rightarrow> (nat \<Rightarrow> nat) \<Rightarrow> int \<Rightarrow>
     ('c, 'k, 'e) tcp_server \<Rightarrow> ('c, 'k, 'e) tcp_server result" where
  "srv_start ops E garbage tid newloop numCreated s =
     (let s1 = s\<lparr>srv_started := srv_started s + 1\<rparr> in
      if srv_started s = 0 then
        bindR (pool_start garbage (threadInitCallback s1) tid newloop (numCreated, threadPool s1))
          (\<lambda>(num, pool). srv_runInLoop ops E (baseLoop pool) FListen (s1\<lparr>threadPool := pool\<rparr>))
      else Inr s1)"

definition connName :: "string \<Rightarrow> string \<Rightarrow> nat \<Rightarrow> string" where
  "connName nm ipPort k = nm @ snprintf 64 (''-'' @ ipPort @ ''#'' @ dec k)"

text \<open>
  \<^verbatim>\<open>newConnection\<close>; \<open>local\<close> is what \<^verbatim>\<open>getsockname\<close> left in the zeroed address. The counter is an
  \<^verbatim>\<open>int\<close>, so counting up at its maximum overflows.
\<close>

definition newConnection ::
    "'c conn_ops \<Rightarrow> ('k, 'e) srv_env \<Rightarrow> sockaddr_in \<Rightarrow> int \<Rightarrow> sockaddr_in \<Rightarrow>
     ('c, 'k, 'e) tcp_server \<Rightarrow> ('c, 'k, 'e) tcp_server result" where
  "newConnection ops E localAddr connfd peerAddr s =
     bindR (getNextLoop (threadPool s)) (\<lambda>(ioLoop, pool).
       let nm = connName (srv_name s) (srv_ipPort s) (nextConnId s) in
       if nextConnId s + 1 \<ge> 2 ^ 31 then Inl SignedOverflow
       else bindR (op_new ops ioLoop nm connfd localAddr peerAddr) (\<lambda>c.
         let p = fresh s;
             ci = \<lparr>ci_name = nm, ci_loop = ioLoop, ci_local = localAddr, ci_peer = peerAddr,
                   ci_obj = c\<rparr>;
             s1 = s\<lparr>threadPool := pool, nextConnId := nextConnId s + 1, fresh := p + 1,
                    conns := (conns s)(p \<mapsto> ci), connections := (connections s)(nm \<mapsto> p)\<rparr>
         in srv_runInLoop ops E ioLoop (FConnectEstablished p) s1))"

definition removeConnection ::
    "'c conn_ops \<Rightarrow> ('k, 'e) srv_env \<Rightarrow> nat \<Rightarrow> ('c, 'k, 'e) tcp_server \<Rightarrow>
     ('c, 'k, 'e) tcp_server result" where
  "removeConnection ops E p s =
     srv_runInLoop ops E (baseLoop (threadPool s)) (FRemoveConnectionInLoop p) s"

text \<open>
  The destructor goes over the map in the order \<open>order\<close> of its entries, empties each and runs or
  queues the destruction of its connection.
\<close>

definition destroy_entry ::
    "'c conn_ops \<Rightarrow> ('k, 'e) srv_env \<Rightarrow> string \<Rightarrow> ('c, 'k, 'e) tcp_server \<Rightarrow>
     ('c, 'k, 'e) tcp_server result" where
  "destroy_entry ops E nm s =
     (case connections s nm of None \<Rightarrow> Inl NullDeref
      | Some p \<Rightarrow> (case conns s p of None \<Rightarrow> Inl NullDeref
          | Some ci \<Rightarrow> srv_runInLoop ops E (ci_loop ci) (FConnectDestroyed p)
                        (s\<lparr>connections := (connections s)(nm := None)\<rparr>)))"

definition TcpServer_destroy ::
    "'c conn_ops \<Rightarrow> ('k, 'e) srv_env \<Rightarrow> string list \<Rightarrow> ('c, 'k, 'e) tcp_server \<Rightarrow>
     ('c, 'k, 'e) tcp_server result" where
  "TcpServer_destroy ops E order s = foldR (destroy_entry ops E) order s"

text \<open>The operations of \<open>TcpConnection\<close> behind the server; a loop has its poller and its queue.\<close>

definition tcp_ops ::
    "('k, 'e) net_env \<Rightarrow> ('k, 'e) tcp_connection user_callbacks \<Rightarrow>
     (nat \<Rightarrow> (conn_functor, 'e) event_loop) \<Rightarrow> (nat \<Rightarrow> 'k poller) \<Rightarrow> chan_ptr \<Rightarrow> nat \<Rightarrow>
     ('k, 'e) tcp_connection conn_ops" where
  "tcp_ops E U lp ps p self =
     \<lparr>op_new = (\<lambda>l nm f la pa. TcpConnection_new (Some (lp l)) (ps l) nm f p),
      op_established = connectEstablished E U self,
      op_destroyed = connectDestroyed E U\<rparr>"

section \<open>The life of a server\<close>

text \<open>
  The acceptor reports a connection, a connection closes in some thread, the server is started, a
  loop takes over its queue or calls the next functor. Each happens in a thread of its own.
\<close>

inductive srv_step ::
    "(string \<Rightarrow> in_addr) \<Rightarrow> 'c conn_ops \<Rightarrow> ('c, 'k, 'e) tcp_server \<Rightarrow> ('c, 'k, 'e) tcp_server \<Rightarrow> bool"
  for inet_addr ops where
  ss_accept: "Acceptor_handleRead inet_addr (\<lambda>f s. s) (Some (newConnection ops E la)) ans s = Inr s' \<Longrightarrow>
    srv_step inet_addr ops s s'"
| ss_close: "removeConnection ops E p s = Inr s' \<Longrightarrow> srv_step inet_addr ops s s'"
| ss_start: "srv_start ops E garbage tid newloop num s = Inr s' \<Longrightarrow> srv_step inet_addr ops s s'"
| ss_swap: "srv_step inet_addr ops s (s\<lparr>loops := (loops s)(l := doPending_swap (loops s l))\<rparr>)"
| ss_run: "todo (loops s l) = f # fs \<Longrightarrow>
    run_srv ops E f (s\<lparr>loops := (loops s)(l := doPending_call (loops s l))\<rparr>) = Inr s' \<Longrightarrow>
    srv_step inet_addr ops s s'"

section \<open>Names and the map\<close>

lemma connName_inj:
  assumes "length ip \<le> 21" "i < 2 ^ 31" "j < 2 ^ 31"
  shows "connName nm ip i = connName nm ip j \<longleftrightarrow> i = j"
  using assms length_dec [of i 9] length_dec [of j 9] by (simp add: connName_def dec_inj)

text \<open>
  The map and the heap of connections fit together: objects are named after their number, an entry
  of the map is an object of that name, and an object leaves the map at the moment its destruction
  is queued on its own loop.
\<close>

definition destroy_queued :: "nat \<Rightarrow> nat \<Rightarrow> ('c, 'k, 'e) tcp_server \<Rightarrow> bool" where
  "destroy_queued p l s \<longleftrightarrow> FConnectDestroyed p \<in> set (queued (loops s l))"

text \<open>What identifies the object at a pointer: its name and its loop.\<close>

definition info :: "('c, 'k, 'e) tcp_server \<Rightarrow> nat \<Rightarrow> (string \<times> nat) option" where
  "info s p = map_option (\<lambda>ci. (ci_name ci, ci_loop ci)) (conns s p)"

definition srv_inv :: "('c, 'k, 'e) tcp_server \<Rightarrow> bool" where
  "srv_inv s \<longleftrightarrow>
     length (srv_ipPort s) \<le> 21 \<and> nextConnId s = fresh s + 1 \<and> nextConnId s < 2 ^ 31 \<and>
     (\<forall>p nm l. info s p = Some (nm, l) \<longrightarrow>
        p < fresh s \<and> nm = connName (srv_name s) (srv_ipPort s) (p + 1) \<and>
        (connections s nm = None \<longleftrightarrow> destroy_queued p l s)) \<and>
     (\<forall>nm p. connections s nm = Some p \<longrightarrow> (\<exists>l. info s p = Some (nm, l))) \<and>
     (\<forall>p l. destroy_queued p l s \<longrightarrow> info s p \<noteq> None)"

lemma srv_inv_entry: "srv_inv s \<Longrightarrow> connections s nm = Some p \<Longrightarrow> \<exists>l. info s p = Some (nm, l)"
  unfolding srv_inv_def by blast

lemma srv_inv_queued: "srv_inv s \<Longrightarrow> destroy_queued p l s \<Longrightarrow> info s p \<noteq> None"
  unfolding srv_inv_def by blast

lemma srv_inv_same:
  assumes "srv_inv s" "srv_ipPort t = srv_ipPort s" "srv_name t = srv_name s" "fresh t = fresh s"
    "nextConnId t = nextConnId s" "connections t = connections s" "info t = info s"
    "\<And>p l. destroy_queued p l t \<longleftrightarrow> destroy_queued p l s"
  shows "srv_inv t"
  using assms(1) unfolding srv_inv_def assms(2-8) .

lemma destroy_queued_conns [simp]:
  "destroy_queued p l (s\<lparr>connections := m\<rparr>) = destroy_queued p l s"
  by (simp add: destroy_queued_def)

lemma queue_srv_simps [simp]:
  "srv_ipPort (queue_srv E l f s) = srv_ipPort s" "srv_name (queue_srv E l f s) = srv_name s"
  "fresh (queue_srv E l f s) = fresh s" "nextConnId (queue_srv E l f s) = nextConnId s"
  "connections (queue_srv E l f s) = connections s" "conns (queue_srv E l f s) = conns s"
  "threadPool (queue_srv E l f s) = threadPool s"
  by (simp_all add: queue_srv_def)

lemma queueInLoop_queued [simp]: "queued (queueInLoop w tid f lp) = queued lp @ [f]"
  by (simp add: queueInLoop_def queueInLoop_notify_def queueInLoop_push_def wakeup_def)

lemma destroy_queued_queue [simp]:
  "destroy_queued p l (queue_srv E m f s) \<longleftrightarrow> destroy_queued p l s \<or> l = m \<and> f = FConnectDestroyed p"
  by (auto simp: destroy_queued_def queue_srv_def)

lemma srv_inv_upd [simp]:
  "srv_inv (s\<lparr>srv_acceptor := a\<rparr>) = srv_inv s" "srv_inv (s\<lparr>srv_poller := q\<rparr>) = srv_inv s"
  "srv_inv (s\<lparr>srv_started := n\<rparr>) = srv_inv s" "srv_inv (s\<lparr>threadPool := tp\<rparr>) = srv_inv s"
  by (simp_all add: srv_inv_def info_def destroy_queued_def)

lemma srv_inv_queue:
  "srv_inv s \<Longrightarrow> (\<And>p. f \<noteq> FConnectDestroyed p) \<Longrightarrow> srv_inv (queue_srv E l f s)"
  by (rule srv_inv_same) (auto simp: info_def fun_eq_iff)

lemma srv_inv_on_conn:
  assumes "srv_inv s" "on_conn f p s = Inr s'"
  shows "srv_inv s'"
  using assms
  by (auto simp: on_conn_def bindR_eq_Inr destroy_queued_def info_def fun_eq_iff
      intro: srv_inv_same split: option.splits)

lemma srv_inv_remove:
  assumes inv: "srv_inv s" and r: "removeConnectionInLoop E p s = Inr s'"
  shows "srv_inv s'"
proof -
  obtain ci where ci: "conns s p = Some ci"
    and s': "s' = queue_srv E (ci_loop ci) (FConnectDestroyed p)
               (s\<lparr>connections := (connections s)(ci_name ci := None)\<rparr>)"
    using r by (auto simp: removeConnectionInLoop_def split: option.splits)
  have lens: "length (srv_ipPort s) \<le> 21" "fresh s + 1 < 2 ^ 31" using inv by (simp_all add: srv_inv_def)
  have info: "info s p = Some (ci_name ci, ci_loop ci)" by (simp add: info_def ci)
  have named: "q < fresh s" "nm = connName (srv_name s) (srv_ipPort s) (q + 1)"
    "connections s nm = None \<longleftrightarrow> destroy_queued q l s" if "info s q = Some (nm, l)" for q nm l
    using inv that by (simp_all add: srv_inv_def)
  have inj: "nm = ci_name ci \<longleftrightarrow> q = p" if "info s q = Some (nm, l)" for q nm l
    using connName_inj [OF lens(1), of "q + 1" "p + 1" "srv_name s"] named(1,2) [OF that]
      named(1,2) [OF info] lens(2) by auto
  have same: "info s' = info s" by (simp add: s' info_def fun_eq_iff)
  have entry: "q < fresh s \<and> nm = connName (srv_name s) (srv_ipPort s) (q + 1) \<and>
      (connections s' nm = None \<longleftrightarrow> destroy_queued q l s')" if "info s q = Some (nm, l)" for q nm l
    using named [OF that] inj [OF that] that info by (auto simp: s')
  have looked: "\<exists>l. info s q = Some (nm, l)" if "connections s' nm = Some q" for nm q
    using inv that by (auto simp: srv_inv_def s' split: if_splits)
  have dq: "info s q \<noteq> None" if "destroy_queued q l s'" for q l
    using inv that info by (auto simp: srv_inv_def s')
  show ?thesis
    unfolding srv_inv_def same using lens inv entry looked dq
    by (simp add: srv_inv_def s')
qed

lemma srv_inv_run:
  assumes "srv_inv s" "run_srv ops E f s = Inr s'"
  shows "srv_inv s'"
proof (cases f)
  case FListen
  with assms show ?thesis
    by (auto simp: run_srv_def bindR_eq_Inr )
qed (use assms in \<open>auto simp: run_srv_def intro: srv_inv_on_conn srv_inv_remove\<close>)

lemma srv_inv_runInLoop:
  assumes "srv_inv s" "srv_runInLoop ops E l f s = Inr s'" "\<And>p. f \<noteq> FConnectDestroyed p"
  shows "srv_inv s'"
  using assms by (auto simp: srv_runInLoop_def intro: srv_inv_run srv_inv_queue split: if_splits)

lemma srv_inv_new:
  assumes inv: "srv_inv s" and nc: "newConnection ops E la connfd peer s = Inr s'"
  shows "srv_inv s'"
proof -
  let ?nm = "connName (srv_name s) (srv_ipPort s) (nextConnId s)"
  obtain l pool c where small: "nextConnId s + 1 < 2 ^ 31"
    and run: "srv_runInLoop ops E l (FConnectEstablished (fresh s))
       (s\<lparr>threadPool := pool, nextConnId := nextConnId s + 1, fresh := fresh s + 1,
          conns := (conns s)(fresh s \<mapsto> \<lparr>ci_name = ?nm, ci_loop = l, ci_local = la, ci_peer = peer,
            ci_obj = c\<rparr>),
          connections := (connections s)(?nm \<mapsto> fresh s)\<rparr>) = Inr s'"
    (is "srv_runInLoop _ _ _ _ ?t = _")
    using nc by (auto simp: newConnection_def bindR_eq_Inr Let_def split: if_splits)
  have named: "q < fresh s" "nm = connName (srv_name s) (srv_ipPort s) (q + 1)"
    "connections s nm = None \<longleftrightarrow> destroy_queued q m s" if "info s q = Some (nm, m)" for q nm m
    using inv that by (simp_all add: srv_inv_def)
  have lens: "length (srv_ipPort s) \<le> 21" "nextConnId s = fresh s + 1" using inv by (simp_all add: srv_inv_def)
  have new: "nm \<noteq> ?nm" if "info s q = Some (nm, m)" for q nm m
    using connName_inj [OF lens(1), of "q + 1" "nextConnId s" "srv_name s"] named(1,2) [OF that] lens(2) small
    by auto
  have same: "info ?t = (info s)(fresh s \<mapsto> (?nm, l))" by (simp add: info_def fun_eq_iff)
  have dq: "destroy_queued q m ?t \<longleftrightarrow> destroy_queued q m s" for q m by (simp add: destroy_queued_def)
  have old: "q \<noteq> fresh s" if "info s q = Some x" for q x using named(1) that by (cases x) blast
  have ndq: "\<not> destroy_queued (fresh s) m s" for m
    using srv_inv_queued [OF inv] old [of "fresh s"] by blast
  have entry: "q < fresh ?t \<and> nm = connName (srv_name ?t) (srv_ipPort ?t) (q + 1) \<and>
      (connections ?t nm = None \<longleftrightarrow> destroy_queued q m ?t)" if "info ?t q = Some (nm, m)" for q nm m
  proof (cases "q = fresh s")
    case True
    with that show ?thesis using ndq lens(2) unfolding same dq by simp
  next
    case False
    then have q: "info s q = Some (nm, m)" using that unfolding same by simp
    show ?thesis using named [OF q] new [OF q] unfolding dq by simp
  qed
  have looked: "\<exists>m. info ?t q = Some (nm, m)" if "connections ?t nm = Some q" for nm q
  proof (cases "nm = ?nm")
    case True
    with that show ?thesis unfolding same by simp
  next
    case False
    with that have "connections s nm = Some q" by simp
    then obtain m where m: "info s q = Some (nm, m)" using srv_inv_entry [OF inv] by blast
    then show ?thesis unfolding same using old [OF m] by simp
  qed
  have dqi: "info ?t q \<noteq> None" if "destroy_queued q m ?t" for q m
    using srv_inv_queued [OF inv, of q m] that unfolding same dq by simp
  have nums: "nextConnId ?t = fresh ?t + 1" "nextConnId ?t < 2 ^ 31" "length (srv_ipPort ?t) \<le> 21"
    using lens small by simp_all
  have "srv_inv ?t"
    unfolding srv_inv_def using nums entry looked dqi by blast
  then show ?thesis by (rule srv_inv_runInLoop [OF _ run]) simp
qed

lemma srv_inv_step: "srv_step inet_addr ops s s' \<Longrightarrow> srv_inv s \<Longrightarrow> srv_inv s'"
proof (induction rule: srv_step.induct)
  case (ss_accept E la ans s s')
  then show ?case
    by (auto simp: Acceptor_handleRead_def Socket_accept_def split: sum.splits prod.splits
        intro: srv_inv_new)
next
  case (ss_close E p s s')
  then show ?case by (auto simp: removeConnection_def intro: srv_inv_runInLoop)
next
  case (ss_start E garbage tid newloop num s s')
  then show ?case
    by (auto simp: srv_start_def bindR_eq_Inr Let_def
        elim!: srv_inv_runInLoop [rotated] split: if_splits)
next
  case (ss_swap s l)
  then show ?case by (rule srv_inv_same) (auto simp: info_def fun_eq_iff destroy_queued_def doPending_swap_def)
next
  case (ss_run s l f fs E s')
  have "srv_inv (s\<lparr>loops := (loops s)(l := doPending_call (loops s l))\<rparr>)"
    using ss_run.prems
    by (rule srv_inv_same) (auto simp: info_def fun_eq_iff destroy_queued_def doPending_call_def split: list.splits)
  then show ?case using ss_run.hyps(2) by (rule srv_inv_run)
qed

lemma srv_inv_steps: "(srv_step inet_addr ops)\<^sup>*\<^sup>* s s' \<Longrightarrow> srv_inv s \<Longrightarrow> srv_inv s'"
  by (induction rule: rtranclp_induct) (auto intro: srv_inv_step)

lemma srv_inv_created:
  assumes "TcpServer_new l socket_ans bind_ok p listenAddr nm reuse q ls = Inr s"
    "\<forall>i. queued (ls i) = []"
  shows "srv_inv s"
  using assms toIpPort_length [of listenAddr]
  by (auto simp: TcpServer_new_def bindR_eq_Inr srv_inv_def destroy_queued_def info_def)

section \<open>Establishing a connection\<close>

text \<open>A new connection in the thread of its loop is set up at once: it ends up with its channel
registered for reading and the user's callback called.\<close>

lemma connectEstablished_new:
  assumes c: "TcpConnection_new (Some lp) q nm f p = Inr c"
    and ctl: "fst (env_ctl E EPOLL_CTL_ADD f (kReadEvent, p) (kern q))"
  shows "\<exists>c1. connectEstablished E U self c = call (connectionCallback U) c1 \<and>
    state c1 = kConnected \<and> cname c1 = nm \<and> channels (cpoller c1) f = Some p \<and>
    index (the_channel c1) = kAdded \<and> events (the_channel c1) = kReadEvent \<and>
    outputBuffer c1 = outputBuffer c \<and> inputBuffer c1 = inputBuffer c"
proof -
  obtain k where k: "env_ctl E EPOLL_CTL_ADD f (kReadEvent, p) (kern q) = (True, k)"
    using ctl by (metis (full_types) surjective_pairing)
  have "c = \<lparr>cname = nm, state = kConnecting, reading = True,
     cpoller = upd_chan p (\<lambda>_. (Channel_new f)\<lparr>readCallback := True, writeCallback := True,
       closeCallback := True, errorCallback := True\<rparr>) q,
     cloop = lp, channel_ptr = p, inputBuffer = Buffer_new kInitialSize,
     outputBuffer = Buffer_new kInitialSize, highWaterMark = 64 * 1024 * 1024, wire = [],
     accepted = [], shut = False\<rparr>"
    using c by (simp add: TcpConnection_new_def)
  then show ?thesis
    by (simp add: connectEstablished_def on_channel_def Let_def enableReading_def updateChannel_def
        update_def Channel_new_def tie_to_def the_channel_def kNew_def k)
      (intro exI conjI, rule refl, simp_all add: tie_to_def)
qed

section \<open>Properties\<close>

text \<open>
  C12: the map of a server is exact. From its construction on, through any accepts, closings,
  starts and runs of its loops by any threads: two connection objects never share a name, an entry
  of the map leads to the object of that name, and an object is missing from the map exactly when
  its destruction has been queued on its own loop.
\<close>

theorem connections_tracked:
  assumes "TcpServer_new l socket_ans bind_ok q listenAddr nm reuse ps ls = Inr s"
    "\<forall>i. queued (ls i) = []" "(srv_step inet_addr ops)\<^sup>*\<^sup>* s s'"
  shows "(\<forall>p p' ci ci'. conns s' p = Some ci \<longrightarrow> conns s' p' = Some ci' \<longrightarrow> ci_name ci = ci_name ci' \<longrightarrow>
      p = p') \<and>
    (\<forall>n p. connections s' n = Some p \<longrightarrow> (\<exists>ci. conns s' p = Some ci \<and> ci_name ci = n)) \<and>
    (\<forall>p ci. conns s' p = Some ci \<longrightarrow>
      (connections s' (ci_name ci) = None \<longleftrightarrow>
       FConnectDestroyed p \<in> set (queued (loops s' (ci_loop ci)))))"
proof -
  have inv: "srv_inv s'"
    using srv_inv_steps [OF assms(3) srv_inv_created [OF assms(1,2)]] .
  have named: "p < fresh s'" "ci_name ci = connName (srv_name s') (srv_ipPort s') (p + 1)"
    "connections s' (ci_name ci) = None \<longleftrightarrow> destroy_queued p (ci_loop ci) s'"
    if "conns s' p = Some ci" for p ci
    using inv that by (simp_all add: srv_inv_def info_def)
  have len: "length (srv_ipPort s') \<le> 21" "fresh s' + 1 < 2 ^ 31" using inv by (simp_all add: srv_inv_def)
  have uniq: "p = p'" if "conns s' p = Some ci" "conns s' p' = Some ci'" "ci_name ci = ci_name ci'"
    for p p' ci ci'
    using connName_inj [OF len(1), of "p + 1" "p' + 1" "srv_name s'"] named(1,2) [OF that(1)]
      named(1,2) [OF that(2)] that(3) len(2) by auto
  have entry: "\<exists>ci. conns s' p = Some ci \<and> ci_name ci = n" if "connections s' n = Some p" for n p
    using inv that by (fastforce simp: srv_inv_def info_def)
  show ?thesis using uniq entry named(3) by (auto simp: destroy_queued_def)
qed

definition demo_srv_addr :: sockaddr_in where
  "demo_srv_addr = InetAddress_new (\<lambda>_. (127, 0, 0, 1)) 8000 ''127.0.0.1''"

lemma demo_srv_ipPort: "toIpPort demo_srv_addr = Inr ''127.0.0.1:8000''"
proof -
  have "dec 127 = ''127''" "dec 0 = ''0''" "dec 1 = ''1''" "dec 8000 = ''8000''"
    by (simp_all add: dec.simps)
  then show ?thesis
    by (simp add: toIpPort_fits demo_srv_addr_def InetAddress_new_def inet_ntop_def dec_byte_def)
qed

definition demo_srv_ops :: "nat conn_ops" where
  "demo_srv_ops = \<lparr>op_new = (\<lambda>l n f la pa. Inr l), op_established = Inr, op_destroyed = Inr\<rparr>"

definition demo_srv_env :: "(unit, nat) srv_env" where
  "demo_srv_env = \<lparr>senv_ctl = (\<lambda>_ _ _ k. (True, k)), senv_listen_ok = True, senv_efd_write = Suc,
     senv_tid = 1\<rparr>"

definition demo_srv :: "('c, unit, nat) tcp_server result" where
  "demo_srv = TcpServer_new (Some 0) (Inr 3) True 0 demo_srv_addr ''web'' False
     \<lparr>chan = (\<lambda>_. Channel_new 0), channels = (\<lambda>_. None), kern = (), ev_size = 16\<rparr>
     (\<lambda>i. EventLoop_new 1 0)"

lemma demo_srv_fields:
  obtains s :: "('c, unit, nat) tcp_server" where "demo_srv = Inr s"
    "srv_ipPort s = ''127.0.0.1:8000''" "srv_name s = ''web''" "nextConnId s = 1" "fresh s = 0"
    "getNextLoop (threadPool s) = Inr (0, threadPool s)" "loops s = (\<lambda>i. EventLoop_new 1 0)"
    "pool_loops (threadPool s) = []" "baseLoop (threadPool s) = 0"
proof -
  obtain s :: "('c, unit, nat) tcp_server" where s: "demo_srv = Inr s"
    by (simp add: demo_srv_def TcpServer_new_def CheckLoopNotNull_def toIpPort_fits Acceptor_new_def
        createNonbloking_def bindAddress_def)
  then show thesis
    by (intro that [of s]) (auto simp: demo_srv_def TcpServer_new_def CheckLoopNotNull_def demo_srv_ipPort
        Acceptor_new_def createNonbloking_def bindAddress_def EventLoopThreadPool_new_def getNextLoop_def)
qed

theorem connections_tracked_witness:
  "\<exists>s s'. demo_srv = Inr s \<and>
    Acceptor_handleRead (\<lambda>_. (127, 0, 0, 1)) (\<lambda>f s. s)
      (Some (newConnection demo_srv_ops demo_srv_env demo_srv_addr)) (Inr (7, demo_srv_addr)) s = Inr s' \<and>
    connections s' ''web-127.0.0.1:8000#1'' = Some 0 \<and>
    (\<exists>ci. conns s' 0 = Some ci \<and> FConnectDestroyed 0 \<notin> set (queued (loops s' (ci_loop ci))))"
proof -
  obtain s :: "(nat, unit, nat) tcp_server" where s: "demo_srv = Inr s"
    and f: "srv_ipPort s = ''127.0.0.1:8000''" "srv_name s = ''web''" "nextConnId s = 1" "fresh s = 0"
      "getNextLoop (threadPool s) = Inr (0, threadPool s)" "loops s = (\<lambda>i. EventLoop_new 1 0)"
    using demo_srv_fields by blast
  define accept where "accept = Acceptor_handleRead (\<lambda>_. (127, 0, 0, 1)) (\<lambda>f s. s)
      (Some (newConnection demo_srv_ops demo_srv_env demo_srv_addr)) (Inr (7, demo_srv_addr)) s"
  have nm: "connName ''web'' ''127.0.0.1:8000'' (Suc 0) = ''web-127.0.0.1:8000#1''"
    by (simp add: connName_def snprintf_def dec.simps)
  obtain s' where s': "accept = Inr s'" "connections s' ''web-127.0.0.1:8000#1'' = Some 0"
    by (simp add: accept_def f nm Let_def Acceptor_handleRead_def Socket_accept_def newConnection_def
        demo_srv_ops_def demo_srv_env_def srv_runInLoop_def isInLoopThread_def EventLoop_new_def
        run_srv_def on_conn_def)
  have step: "(srv_step (\<lambda>_. (127, 0, 0, 1)) demo_srv_ops)\<^sup>*\<^sup>* s s'"
    using s'(1) by (auto simp: accept_def intro: ss_accept)
  have "\<exists>ci. conns s' 0 = Some ci \<and> FConnectDestroyed 0 \<notin> set (queued (loops s' (ci_loop ci)))"
  proof -
    have "\<forall>i. queued (EventLoop_new 1 0 :: (srv_functor, nat) event_loop) = []"
      by (simp add: EventLoop_new_def)
    from connections_tracked [OF s [unfolded demo_srv_def] this step] s'(2)
    show ?thesis by (metis option.distinct(1))
  qed
  with s s' show ?thesis by (auto simp: accept_def)
qed

text \<open>
  C27: accepting a connection, with the operations of \<open>TcpConnection\<close> behind the server. When the
  connection lives on the loop of the accepting thread and the kernel accepts the registration, the
  server takes the next number for its name, enters it into the map, and the new connection is
  connected and registered for reading when the user's callback sees it.
\<close>

theorem newConnection_establishes:
  assumes "pool_loops (threadPool s) = []" "nextConnId s + 1 < 2 ^ 31"
    "senv_tid E = threadId (loops s (baseLoop (threadPool s)))"
    "fst (env_ctl N EPOLL_CTL_ADD f (kReadEvent, p) (kern (ps (baseLoop (threadPool s)))))"
    "connectionCallback U = Some cb"
  shows "\<exists>c. state c = kConnected \<and> cname c = connName (srv_name s) (srv_ipPort s) (nextConnId s) \<and>
    channels (cpoller c) f = Some p \<and> events (the_channel c) = kReadEvent \<and>
    newConnection (tcp_ops N U lp ps p self) E la f pa s =
      bindR (cb c) (\<lambda>c'. Inr (s\<lparr>nextConnId := nextConnId s + 1, fresh := fresh s + 1,
        connections := (connections s)(cname c \<mapsto> fresh s),
        conns := (conns s)(fresh s \<mapsto> \<lparr>ci_name = cname c, ci_loop = baseLoop (threadPool s),
          ci_local = la, ci_peer = pa, ci_obj = c'\<rparr>)\<rparr>))"
proof -
  let ?b = "baseLoop (threadPool s)"
  let ?nm = "connName (srv_name s) (srv_ipPort s) (nextConnId s)"
  obtain c0 where c0: "TcpConnection_new (Some (lp ?b)) (ps ?b) ?nm f p = Inr c0"
    by (simp add: TcpConnection_new_def)
  obtain c1 where c1: "connectEstablished N U self c0 = cb c1" "state c1 = kConnected" "cname c1 = ?nm"
      "channels (cpoller c1) f = Some p" "events (the_channel c1) = kReadEvent"
    using connectEstablished_new [OF c0 assms(4), of U self] assms(5) by (auto simp: call_def)
  have "newConnection (tcp_ops N U lp ps p self) E la f pa s =
      bindR (cb c1) (\<lambda>c'. Inr (s\<lparr>nextConnId := nextConnId s + 1, fresh := fresh s + 1,
        connections := (connections s)(?nm \<mapsto> fresh s),
        conns := (conns s)(fresh s \<mapsto> \<lparr>ci_name = ?nm, ci_loop = ?b,
          ci_local = la, ci_peer = pa, ci_obj = c'\<rparr>)\<rparr>))"
    using assms(1,2,3) c0 c1(1)
    by (simp add: newConnection_def getNextLoop_def tcp_ops_def srv_runInLoop_def isInLoopThread_def
        run_srv_def on_conn_def Let_def)
  with c1(2-5) show ?thesis by (intro exI [of _ c1]) simp
qed

theorem newConnection_establishes_witness:
  "\<exists>s s' ci. demo_srv = Inr s \<and>
    newConnection (tcp_ops demo_env demo_user (\<lambda>_. EventLoop_new 1 0) (\<lambda>_. demo_poller) 4 9)
      demo_srv_env demo_srv_addr 7 demo_srv_addr s = Inr s' \<and>
    connections s' ''web-127.0.0.1:8000#1'' = Some 0 \<and> conns s' 0 = Some ci \<and>
    state (ci_obj ci) = kConnected \<and> events (the_channel (ci_obj ci)) = kReadEvent"
proof -
  obtain s :: "((int \<Rightarrow> (evmask \<times> chan_ptr) option, nat) tcp_connection, unit, nat) tcp_server"
    where s: "demo_srv = Inr s"
    and f: "srv_ipPort s = ''127.0.0.1:8000''" "srv_name s = ''web''" "nextConnId s = 1" "fresh s = 0"
      "loops s = (\<lambda>i. EventLoop_new 1 0)" "pool_loops (threadPool s) = []" "baseLoop (threadPool s) = 0"
    using demo_srv_fields by blast
  have nm: "connName ''web'' ''127.0.0.1:8000'' (Suc 0) = ''web-127.0.0.1:8000#1''"
    by (simp add: connName_def snprintf_def dec.simps)
  have cb: "connectionCallback demo_user = Some Inr" by (simp add: demo_user_def)
  have ctl: "fst (env_ctl demo_env EPOLL_CTL_ADD 7 (kReadEvent, 4) (kern demo_poller))"
    by (simp add: demo_env_def simple_epoll_def demo_poller_def)
  have "\<exists>s' ci. newConnection (tcp_ops demo_env demo_user (\<lambda>_. EventLoop_new 1 0) (\<lambda>_. demo_poller) 4 9)
      demo_srv_env demo_srv_addr 7 demo_srv_addr s = Inr s' \<and>
    connections s' ''web-127.0.0.1:8000#1'' = Some 0 \<and> conns s' 0 = Some ci \<and>
    state (ci_obj ci) = kConnected \<and> events (the_channel (ci_obj ci)) = kReadEvent"
    using newConnection_establishes [of s demo_srv_env demo_env 7 4 "\<lambda>_. demo_poller" demo_user Inr
      "\<lambda>_. EventLoop_new 1 0" 9 demo_srv_addr demo_srv_addr] ctl cb
    by (auto simp: f nm demo_srv_env_def EventLoop_new_def)
  with s show ?thesis by blast
qed

end
