(* ===== verification/EchoServer.thy ===== *)
theory EchoServer
  imports TcpServer
begin

text \<open>
  The example program (\<^verbatim>\<open>example/testserver.cc\<close>): a server that sends every message back and shuts the connection
  down. It composes the TCP server, the connection and the buffer.
\<close>

section \<open>Definitions\<close>

text \<open>\<^verbatim>\<open>onConnection\<close> only logs.\<close>

definition echo_onConnection :: "('k, 'e) tcp_connection \<Rightarrow> ('k, 'e) tcp_connection result" where
  "echo_onConnection c = Inr c"

text \<open>Of the callbacks, sending looks only at those for high water and completed writes, which are not set.\<close>

definition echo_onMessage ::
    "('k, 'e) net_env \<Rightarrow> ('k, 'e) tcp_connection user_callbacks \<Rightarrow> (char list \<Rightarrow> int + nat) \<Rightarrow> int \<Rightarrow>
     ('k, 'e) tcp_connection \<Rightarrow> ('k, 'e) tcp_connection result" where
  "echo_onMessage E U wr time c =
     bindR (retrieveAllAsString (inputBuffer c)) (\<lambda>(msg, b).
     bindR (send_string E U wr msg (c\<lparr>inputBuffer := b\<rparr>)) (\<lambda>c1.
     Inr (shutdown E c1)))"

definition echo_quiet :: "'c user_callbacks" where
  "echo_quiet =
     \<lparr>connectionCallback = None, messageCallback = None, writeCompleteCallback = None,
      closeCallbackU = None, highWaterMarkCallback = None\<rparr>"

text \<open>
  The callbacks of a connection: the two of the constructor; \<^verbatim>\<open>closeCallback\<close> is set by the TCP server and leaves
  the connection itself as it is.
\<close>

definition echo_user ::
    "('k, 'e) net_env \<Rightarrow> (char list \<Rightarrow> int + nat) \<Rightarrow> ('k, 'e) tcp_connection user_callbacks" where
  "echo_user E wr =
     \<lparr>connectionCallback = Some echo_onConnection,
      messageCallback = Some (echo_onMessage E echo_quiet wr),
      writeCompleteCallback = None, closeCallbackU = Some Inr, highWaterMarkCallback = None\<rparr>"

text \<open>The constructor and \<^verbatim>\<open>start\<close>; three loop threads.\<close>

definition EchoServer_new ::
    "nat option \<Rightarrow> int + int \<Rightarrow> bool \<Rightarrow> chan_ptr \<Rightarrow> sockaddr_in \<Rightarrow> string \<Rightarrow> 'k poller \<Rightarrow>
     (nat \<Rightarrow> (srv_functor, 'e) event_loop) \<Rightarrow> ('c, 'k, 'e) tcp_server result" where
  "EchoServer_new l socket_ans bind_ok p addr nm s ls =
     bindR (TcpServer_new l socket_ans bind_ok p addr nm False s ls) (\<lambda>srv. Inr (srv_setThreadNum 3 srv))"

definition EchoServer_start ::
    "'c conn_ops \<Rightarrow> ('k, 'e) srv_env \<Rightarrow> thread_func option \<Rightarrow> (nat \<Rightarrow> int) \<Rightarrow> (nat \<Rightarrow> nat) \<Rightarrow> int \<Rightarrow>
     ('c, 'k, 'e) tcp_server \<Rightarrow> ('c, 'k, 'e) tcp_server result" where
  "EchoServer_start = srv_start"

section \<open>Echoing\<close>

lemma retrieveAll_content:
  assumes wf: "wf_buffer b"
  shows "\<exists>b'. retrieveAllAsString b = Inr (content b, b') \<and> wf_buffer b' \<and> content b' = []"
proof -
  note w = wf_bufferD [OF wf]
  have "retrieveAllAsString b = Inr (content b, retrieve (readableBytes b) b)"
    using w content_eq_take [OF wf]
    by (simp add: retrieveAllAsString_def retrieveAsString_def peek_def readableBytes_exact wf)
  moreover have "wf_buffer (retrieve (readableBytes b) b)" "content (retrieve (readableBytes b) b) = []"
    using wf_retrieve [OF wf] content_retrieve [OF wf] by (simp_all add: readableBytes_content [OF wf])
  ultimately show ?thesis by blast
qed

lemma echo_quiet_flags [simp]: "writeCompleteCallback echo_quiet = None" "highWaterMarkCallback echo_quiet = None"
  by (simp_all add: echo_quiet_def)

text \<open>A send of which the kernel takes \<open>k\<close> bytes, all of them or some.\<close>

lemma echo_send:
  assumes c: "state c = kConnected" "isInLoopThread (env_tid E) (cloop c)" "quiet_inv c" "content (outputBuffer c) = []"
    and k: "wr d = Inr k" "k \<le> length d" "length d \<le> room (outputBuffer c)"
  shows "\<exists>b. send_string E echo_quiet wr d c =
      Inr (c\<lparr>wire := wire c @ take k d, accepted := accepted c @ d, outputBuffer := b\<rparr>) \<and> content b = drop k d"
proof -
  have wf: "wf_buffer (outputBuffer c)" and nw: "\<not> isWriting (the_channel c)"
    using c(3) by (simp_all add: quiet_inv_def stream_inv_def)
  have r: "readableBytes (outputBuffer c) = 0" by (simp add: readableBytes_content wf c(4))
  have "length d \<le> vector_max_size" using k(3) by (simp add: room_def)
  then have sub: "szsub (length d) k = length d - k" using k(2) by (simp add: szsub_exact buffer_consts)
  show ?thesis
  proof (cases "k = length d")
    case True
    then have "send_string E echo_quiet wr d c = Inr (c\<lparr>wire := wire c @ take k d, accepted := accepted c @ d\<rparr>)"
      using c(1,2) k(1) nw r sub by (simp add: send_string_def sendInLoop_def sendInLoop_write_def Let_def)
    then show ?thesis using True c(4) by (intro exI [of _ "outputBuffer c"]) simp
  next
    case False
    have "length (drop k d) \<le> room (outputBuffer c)" using k(3) by simp
    then obtain b where b: "append (drop k d) (outputBuffer c) = Inr b" "content b = drop k d"
      using append_ok [OF wf, of "drop k d"] c(4) by (metis append_Nil)
    have "send_string E echo_quiet wr d c =
        Inr (c\<lparr>wire := wire c @ take k d, accepted := accepted c @ d, outputBuffer := b\<rparr>)"
      using c(1,2) k(1,2) False nw r sub b(1)
      by (simp add: send_string_def sendInLoop_def sendInLoop_write_def Let_def the_channel_def)
    then show ?thesis using b(2) by blast
  qed
qed

section \<open>Properties\<close>

text \<open>
  C31: the echo server, end to end. When bytes arrive on an idle connection of the server in its own thread and
  the kernel takes the first \<open>k\<close> bytes of the reply, handling the read event and then the functor it has
  queued writes exactly these \<open>k\<close> bytes behind what was sent before, empties the input buffer and closes the
  write side: all of the message if the kernel takes all of it. What the kernel does not take
  stays in the output buffer, behind the closed write side.
\<close>

theorem echo_replies:
  assumes "state c = kConnected" "isInLoopThread (env_tid E) (cloop c)" "quiet_inv c" "content (outputBuffer c) = []"
    "wf_buffer (inputBuffer c)" "content (inputBuffer c) = []" "d \<noteq> []"
    "length d \<le> room (inputBuffer c) + writableBytes (inputBuffer c)" "length d \<le> room (outputBuffer c)"
    "wr d = Inr k" "k \<le> length d"
  shows "\<exists>c1 c2. conn_handleRead E (echo_user E wr) (Inr d) gso t c = Inr c1 \<and>
    queued (cloop c1) = queued (cloop c) @ [FShutdownInLoop] \<and>
    run_functor E (echo_user E wr) wr mem FShutdownInLoop c1 = Inr c2 \<and>
    wire c2 = wire c @ take k d \<and> content (inputBuffer c2) = [] \<and> content (outputBuffer c2) = drop k d \<and>
    state c2 = kDisConnecting \<and> shut c2"
proof -
  obtain b where b: "readFd (Inr d) (inputBuffer c) = Inr (int (length d), None, b)" "wf_buffer b" "content b = d"
    using readFd_ok [OF assms(5,8)] assms(6) by auto
  obtain b' where b': "retrieveAllAsString b = Inr (d, b')" "content b' = []"
    using retrieveAll_content [OF b(2)] b(3) by auto
  let ?c = "c\<lparr>inputBuffer := b'\<rparr>"
  have "quiet_inv ?c" using assms(3) by (simp add: quiet_inv_def stream_inv_def the_channel_def)
  then obtain ob where s: "send_string E echo_quiet wr d ?c =
      Inr (?c\<lparr>wire := wire c @ take k d, accepted := accepted c @ d, outputBuffer := ob\<rparr>)" "content ob = drop k d"
    using echo_send [of ?c E wr d k] assms by auto
  let ?c1 = "shutdown E (?c\<lparr>wire := wire c @ take k d, accepted := accepted c @ d, outputBuffer := ob\<rparr>)"
  have "echo_onMessage E echo_quiet wr t (c\<lparr>inputBuffer := b\<rparr>) = Inr ?c1"
    using b'(1) s(1) by (simp add: echo_onMessage_def)
  then have "conn_handleRead E (echo_user E wr) (Inr d) gso t c = Inr ?c1"
    using b(1) assms(7) by (simp add: conn_handleRead_def call_def echo_user_def)
  moreover have "\<not> isWriting (the_channel ?c1)"
    using assms(1,3) by (simp add: quiet_inv_def shutdown_def queue_functor_def the_channel_def)
  ultimately show ?thesis
    using assms(1) b'(2) s(2)
    by (intro exI [of _ ?c1] exI [of _ "?c1\<lparr>shut := True\<rparr>"])
      (simp add: run_functor_def shutdownInLoop_def shutdown_def queue_functor_def)
qed

theorem echo_replies_witness:
  "\<exists>(c :: (int \<Rightarrow> (evmask \<times> chan_ptr) option, nat) tcp_connection) c1 c2.
    conn_handleRead demo_env (echo_user demo_env demo_write) (Inr ''hello'') (Inl 0) 0 c = Inr c1 \<and>
    run_functor demo_env (echo_user demo_env demo_write) demo_write (\<lambda>_. []) FShutdownInLoop c1 = Inr c2 \<and>
    wire c2 = wire c @ ''he'' \<and> content (outputBuffer c2) = ''llo'' \<and> shut c2"
proof -
  obtain c0 c where "conn_step demo_env demo_user c0 c" and c: "state c = kConnected"
      "outputBuffer c = Buffer_new kInitialSize" "isInLoopThread (env_tid demo_env) (cloop c)" "quiet_inv c"
    by (rule demo_established)
  define c' where "c' = c\<lparr>inputBuffer := Buffer_new kInitialSize\<rparr>"
  have new: "wf_buffer (Buffer_new kInitialSize)" "content (Buffer_new kInitialSize) = []"
    by (rule wf_Buffer_new) (simp_all add: kInitialSize_def buffer_consts content_def window_def Buffer_new_def)
  have c'': "state c' = kConnected" "isInLoopThread (env_tid demo_env) (cloop c')" "quiet_inv c'"
      "content (outputBuffer c') = []" "wf_buffer (inputBuffer c')" "content (inputBuffer c') = []"
    using c new by (simp_all add: c'_def quiet_inv_def stream_inv_def the_channel_def)
  have fits: "length ''hello'' \<le> room (inputBuffer c') + writableBytes (inputBuffer c')"
      "length ''hello'' \<le> room (outputBuffer c')"
    using demo_room by (simp_all add: c'_def c(2))
  from echo_replies [OF c'' _ fits, of demo_write 2 "Inl 0" 0 "\<lambda>_. []"] show ?thesis
    by (fastforce simp: demo_write_def)
qed

text \<open>
  The three threads are never made: after the constructor and \<^verbatim>\<open>start\<close> the pool has no loops of its own, so that
  every connection is handled by the main loop.
\<close>

lemma EchoServer_single_loop:
  assumes new: "EchoServer_new l socket_ans bind_ok p addr nm s ls = Inr srv"
    and start: "EchoServer_start ops E garbage tid newloop num srv = Inr srv'"
    and here: "isInLoopThread (senv_tid E) (loops srv (baseLoop (threadPool srv)))"
  shows "getNextLoop (threadPool srv') = Inr (baseLoop (threadPool srv), threadPool srv')"
proof -
  obtain base where srv: "threadPool srv = EventLoopThreadPool_new base nm" "srv_started srv = 0"
      "threadInitCallback srv = None"
    using new by (auto simp: EchoServer_new_def TcpServer_new_def srv_setThreadNum_def setThreadNum_def bindR_eq_Inr)
  let ?pool = "(threadPool srv)\<lparr>pool_started := True\<rparr>"
  have "pool_start garbage None tid newloop (num, threadPool srv) = Inr (num, ?pool)"
    by (simp add: srv(1) pool_start_def EventLoopThreadPool_new_def)
  then have "run_srv ops E FListen (srv\<lparr>srv_started := 1, threadPool := ?pool\<rparr>) = Inr srv'"
    using start srv here by (simp add: EchoServer_start_def srv_start_def srv_runInLoop_def)
  then have "threadPool srv' = ?pool" by (auto simp: run_srv_def bindR_eq_Inr)
  then show ?thesis by (simp add: getNextLoop_def srv(1) EventLoopThreadPool_new_def)
qed

end
