(* ===== verification/FreeList.thy ===== *)
theory FreeList
  imports Prelude
begin

text \<open>
  The free lists of the memory pool (\<^verbatim>\<open>NEXT_OBJ\<close> and \<^verbatim>\<open>FreeList\<close> in
  \<^verbatim>\<open>src/memory/common.hpp\<close>) and the object pool of \<^verbatim>\<open>src/memory/ObjectPool.hpp\<close>. Free objects are linked through their
  own first word, so the operations are written over a heap that maps an address to the
  pointer stored there; address 0 is the null pointer.
\<close>

section \<open>Memory and linked chains\<close>

type_synonym addr = nat
type_synonym heap = "addr \<Rightarrow> addr"

definition NEXT_OBJ :: "heap \<Rightarrow> addr \<Rightarrow> addr result" where
  "NEXT_OBJ m obj = (if obj = 0 then Inl NullDeref else Inr (m obj))"

definition set_NEXT_OBJ :: "addr \<Rightarrow> addr \<Rightarrow> heap \<Rightarrow> heap result" where
  "set_NEXT_OBJ obj v m = (if obj = 0 then Inl NullDeref else Inr (m(obj := v)))"

text \<open>\<open>walk m k p\<close> follows \<open>k\<close> links from \<open>p\<close>.\<close>

fun walk :: "heap \<Rightarrow> nat \<Rightarrow> addr \<Rightarrow> addr result" where
  "walk m 0 p = Inr p"
| "walk m (Suc k) p = bindR (NEXT_OBJ m p) (walk m k)"

text \<open>\<open>chain m p xs q\<close>: the objects \<open>xs\<close> are linked one after the other from \<open>p\<close> to \<open>q\<close>.\<close>

fun chain :: "heap \<Rightarrow> addr \<Rightarrow> addr list \<Rightarrow> addr \<Rightarrow> bool" where
  "chain m p [] q \<longleftrightarrow> p = q"
| "chain m p (x # xs) q \<longleftrightarrow> p = x \<and> x \<noteq> 0 \<and> chain m (m x) xs q"

section \<open>The free list\<close>

record free_list =
  head :: addr
  maxSize :: size_t
  fl_size :: size_t

definition FreeList_init :: free_list where
  "FreeList_init = \<lparr>head = 0, maxSize = 1, fl_size = 0\<rparr>"

definition push :: "addr \<Rightarrow> heap \<times> free_list \<Rightarrow> (heap \<times> free_list) result" where
  "push obj s =
     (case s of (m, fl) \<Rightarrow>
        bindR (set_NEXT_OBJ obj (head fl) m) (\<lambda>m1.
          Inr (m1, fl\<lparr>head := obj, fl_size := szadd (fl_size fl) 1\<rparr>)))"

definition PushRange ::
    "addr \<Rightarrow> addr \<Rightarrow> size_t \<Rightarrow> heap \<times> free_list \<Rightarrow> (heap \<times> free_list) result" where
  "PushRange start end n s =
     (case s of (m, fl) \<Rightarrow>
        bindR (set_NEXT_OBJ end (head fl) m) (\<lambda>m1.
          Inr (m1, fl\<lparr>head := start, fl_size := szadd (fl_size fl) n\<rparr>)))"

definition PopRange ::
    "size_t \<Rightarrow> heap \<times> free_list \<Rightarrow> (addr \<times> addr \<times> heap \<times> free_list) result" where
  "PopRange n s =
     (case s of (m, fl) \<Rightarrow>
        bindR (assertR (n \<ge> fl_size fl)) (\<lambda>_.
        let start = head fl in
        bindR (walk m (szsub n 1) start) (\<lambda>end.
        bindR (NEXT_OBJ m end) (\<lambda>nxt.
        bindR (set_NEXT_OBJ end 0 m) (\<lambda>m1.
          Inr (start, end, m1, fl\<lparr>head := nxt, fl_size := szsub (fl_size fl) n\<rparr>))))))"

definition pop :: "heap \<times> free_list \<Rightarrow> (addr \<times> heap \<times> free_list) result" where
  "pop s =
     (case s of (m, fl) \<Rightarrow>
        let obj = head fl in
        bindR (NEXT_OBJ m (head fl)) (\<lambda>nxt.
          Inr (obj, m, fl\<lparr>head := nxt, fl_size := szsub (fl_size fl) 1\<rparr>)))"

definition fl_empty :: "free_list \<Rightarrow> bool" where
  "fl_empty fl \<longleftrightarrow> head fl = 0"

section \<open>The list a free list represents\<close>

definition fl_rep :: "heap \<times> free_list \<Rightarrow> addr list \<Rightarrow> bool" where
  "fl_rep s xs \<longleftrightarrow>
     (case s of (m, fl) \<Rightarrow>
        chain m (head fl) xs 0 \<and> distinct xs \<and> fl_size fl = length xs \<and> length xs < size_mod)"

lemma fl_rep_init: "fl_rep (m, FreeList_init) []"
  by (simp add: fl_rep_def FreeList_init_def size_mod_def)

lemma chain_nonnull: "chain m p xs q \<Longrightarrow> 0 \<notin> set xs"
  by (induction xs arbitrary: p) auto

lemma chain_append: "chain m p (xs @ ys) r \<longleftrightarrow> (\<exists>q. chain m p xs q \<and> chain m q ys r)"
  by (induction xs arbitrary: p) auto

lemma chain_upd [simp]: "x \<notin> set xs \<Longrightarrow> chain (m(x := v)) p xs q \<longleftrightarrow> chain m p xs q"
  by (induction xs arbitrary: p) auto

lemma chain_frame:
  "(\<And>x. x \<in> set xs \<Longrightarrow> m' x = m x) \<Longrightarrow> chain m' p xs q \<longleftrightarrow> chain m p xs q"
  by (induction xs arbitrary: p) auto

lemma chain_null_iff: "chain m p xs 0 \<Longrightarrow> p = 0 \<longleftrightarrow> xs = []"
  by (cases xs) auto

lemma chain_unique: "chain m p xs 0 \<Longrightarrow> chain m p ys 0 \<Longrightarrow> xs = ys"
proof (induction xs arbitrary: p ys)
  case Nil
  then show ?case by (cases ys) auto
next
  case (Cons x xs)
  then show ?case by (cases ys) auto
qed

lemma walk_chain:
  "chain m p xs q \<Longrightarrow> k < length xs \<Longrightarrow> walk m k p = Inr (xs ! k)"
proof (induction k arbitrary: p xs)
  case 0
  then show ?case by (cases xs) auto
next
  case (Suc k)
  then show ?case by (cases xs) (auto simp: NEXT_OBJ_def)
qed

lemma walk_past_end:
  "chain m p xs 0 \<Longrightarrow> length xs < k \<Longrightarrow> walk m k p = Inl NullDeref"
proof (induction xs arbitrary: p k)
  case Nil
  then show ?case by (cases k) (auto simp: NEXT_OBJ_def)
next
  case (Cons x xs)
  then show ?case by (cases k) (auto simp: NEXT_OBJ_def)
qed

lemma chain_nth_link:
  "chain m p xs 0 \<Longrightarrow> k < length xs \<Longrightarrow>
   m (xs ! k) = (if Suc k < length xs then xs ! Suc k else 0)"
proof (induction xs arbitrary: p k)
  case Nil
  then show ?case by simp
next
  case (Cons x xs)
  then show ?case
    by (cases k; cases xs) auto
qed

section \<open>Each operation on the represented list\<close>

lemma push_ok:
  assumes "fl_rep s xs" "x \<noteq> 0" "x \<notin> set xs" "Suc (length xs) < size_mod"
  shows "\<exists>s'. push x s = Inr s' \<and> fl_rep s' (x # xs) \<and>
              fst s' = (fst s)(x := head (snd s)) \<and> maxSize (snd s') = maxSize (snd s)"
  using assms by (cases s) (auto simp: push_def fl_rep_def set_NEXT_OBJ_def szadd_exact)

lemma pop_ok:
  assumes "fl_rep s (x # xs)"
  shows "\<exists>s'. pop s = Inr (x, s') \<and> fl_rep s' xs \<and> fst s' = fst s \<and>
              maxSize (snd s') = maxSize (snd s)"
  using assms by (cases s) (auto simp: pop_def fl_rep_def NEXT_OBJ_def Let_def szsub_exact)

lemma pop_empty: "fl_rep s [] \<Longrightarrow> pop s = Inl NullDeref"
  by (cases s) (simp add: pop_def fl_rep_def NEXT_OBJ_def Let_def)

lemma fl_empty_iff: "fl_rep s xs \<Longrightarrow> fl_empty (snd s) \<longleftrightarrow> xs = []"
  by (cases s) (auto simp: fl_rep_def fl_empty_def dest: chain_null_iff)

lemma PushRange_ok:
  assumes rep: "fl_rep s xs" and seg: "chain (fst s) start (ys @ [e]) q"
    and fresh: "distinct (ys @ [e])" "set (ys @ [e]) \<inter> set xs = {}"
    and len: "n = Suc (length ys)" "length xs + n < size_mod"
  shows "\<exists>s'. PushRange start e n s = Inr s' \<and> fl_rep s' (ys @ e # xs)"
proof -
  obtain m fl where s: "s = (m, fl)" by (cases s)
  have e: "e \<noteq> 0" "e \<notin> set ys" "e \<notin> set xs"
    using seg fresh chain_nonnull [OF seg] by auto
  have "chain m start ys e"
    using seg by (auto simp: s chain_append)
  then have "chain (m(e := head fl)) start (ys @ e # xs) 0"
    using rep e by (auto simp: s fl_rep_def chain_append)
  then show ?thesis
    using rep e fresh len
    by (auto simp: PushRange_def s set_NEXT_OBJ_def fl_rep_def szadd_exact)
qed

text \<open>
  \<^verbatim>\<open>PopRange\<close> asserts \<open>n \<ge> _size\<close>, so it can only succeed when the whole list is taken:
  with fewer objects the assertion fails, with more the walk runs into the null pointer.
\<close>

lemma PopRange_all:
  assumes rep: "fl_rep s xs" and ne: "xs \<noteq> []"
  shows "\<exists>s'. PopRange (length xs) s = Inr (hd xs, last xs, s') \<and> fl_rep s' [] \<and>
              chain (fst s') (hd xs) xs 0"
proof -
  obtain m fl where s: "s = (m, fl)" by (cases s)
  have c: "chain m (head fl) xs 0" "fl_size fl = length xs" "length xs < size_mod"
    using rep by (simp_all add: s fl_rep_def)
  obtain ys e where xs: "xs = ys @ [e]"
    using ne by (cases xs rule: rev_cases) auto
  have hd: "head fl = hd xs" and nz: "e \<noteq> 0"
    using c(1) ne chain_nonnull [OF c(1)] by (cases xs; auto simp: xs)+
  have k: "szsub (length xs) 1 = length ys"
    using c(3) by (simp add: xs szsub_exact)
  have w: "walk m (length ys) (head fl) = Inr e"
    using walk_chain [OF c(1), of "length ys"] by (simp add: xs)
  have l: "m e = 0"
    using chain_nth_link [OF c(1), of "length ys"] by (simp add: xs)
  have m1: "m(e := 0) = m" using l by auto
  show ?thesis
    using c w l nz hd k
    by (simp add: PopRange_def s Let_def NEXT_OBJ_def set_NEXT_OBJ_def fl_rep_def m1 szsub_exact
        size_mod_def) (simp add: xs)
qed

lemma PopRange_too_few:
  "fl_rep s xs \<Longrightarrow> n < length xs \<Longrightarrow> PopRange n s = Inl AssertFailed"
  by (cases s) (simp add: PopRange_def fl_rep_def assertR_def)

lemma PopRange_too_many:
  assumes "fl_rep s xs" "length xs < n" "n < size_mod"
  shows "PopRange n s = Inl NullDeref"
proof -
  obtain m fl where s: "s = (m, fl)" by (cases s)
  have c: "chain m (head fl) xs 0" "fl_size fl = length xs"
    using assms by (simp_all add: s fl_rep_def)
  have k: "szsub n (Suc 0) = n - Suc 0"
    using assms by (simp add: szsub_exact)
  show ?thesis
  proof (cases "length xs < n - 1")
    case True
    then show ?thesis
      using c assms walk_past_end [OF c(1) True] by (simp add: PopRange_def s Let_def k)
  next
    case False
    then have n: "n - 1 = length xs" using assms by simp
    have "walk m (length xs) (head fl) = Inr 0"
      using c(1)
    proof (induction xs arbitrary: fl)
      case Nil
      then show ?case by simp
    next
      case (Cons x xs)
      then show ?case
        using Cons.IH [of "fl\<lparr>head := m x\<rparr>"] by (simp add: NEXT_OBJ_def)
    qed
    then show ?thesis
      using c assms n by (simp add: PopRange_def s Let_def k NEXT_OBJ_def)
  qed
qed


section \<open>The interface: a stack of free objects in memory\<close>

text \<open>
  What the thread cache relies on: a stack whose elements are memory addresses, with a
  representation relation instead of an abstraction function because it depends on the heap.
\<close>

locale object_stack =
  fixes rep :: "'s \<Rightarrow> addr list \<Rightarrow> bool"
    and put :: "addr \<Rightarrow> 's \<Rightarrow> 's result"
    and take_top :: "'s \<Rightarrow> (addr \<times> 's) result"
    and is_empty :: "'s \<Rightarrow> bool"
    and capacity :: nat
  assumes rep_put: "rep s xs \<Longrightarrow> x \<noteq> 0 \<Longrightarrow> x \<notin> set xs \<Longrightarrow> Suc (length xs) < capacity \<Longrightarrow>
      \<exists>s'. put x s = Inr s' \<and> rep s' (x # xs)"
    and rep_take: "rep s (x # xs) \<Longrightarrow> \<exists>s'. take_top s = Inr (x, s') \<and> rep s' xs"
    and rep_empty: "rep s xs \<Longrightarrow> is_empty s \<longleftrightarrow> xs = []"
begin

text \<open>Objects that are freed and allocated again come back, last freed first.\<close>

lemma put_all:
  assumes "rep s xs" "0 \<notin> set ys" "distinct ys" "set ys \<inter> set xs = {}"
    "length xs + length ys < capacity"
  shows "\<exists>s'. foldR put ys s = Inr s' \<and> rep s' (rev ys @ xs)"
  using assms
proof (induction ys arbitrary: s xs)
  case Nil
  then show ?case by auto
next
  case (Cons y ys)
  then obtain s1 where s1: "put y s = Inr s1" "rep s1 (y # xs)"
    using rep_put [of s xs y] by auto
  then show ?case
    using Cons.prems Cons.IH [of s1 "y # xs"] by auto
qed

lemma put_then_take:
  assumes "rep s xs" "x \<noteq> 0" "x \<notin> set xs" "Suc (length xs) < capacity"
  shows "\<exists>s1 s2. put x s = Inr s1 \<and> \<not> is_empty s1 \<and> take_top s1 = Inr (x, s2) \<and> rep s2 xs"
  using rep_put [OF assms] rep_take rep_empty by fastforce

end

interpretation fl: object_stack fl_rep push pop "\<lambda>s. fl_empty (snd s)" size_mod
proof unfold_locales
  fix s x xs
  show "\<exists>s'. push x s = Inr s' \<and> fl_rep s' (x # xs)"
    if "fl_rep s xs" "x \<noteq> 0" "x \<notin> set xs" "Suc (length xs) < size_mod"
    using push_ok [OF that] by blast
  show "\<exists>s'. pop s = Inr (x, s') \<and> fl_rep s' xs" if "fl_rep s (x # xs)"
    using pop_ok [OF that] by blast
  show "fl_empty (snd s) = (xs = [])" if "fl_rep s xs"
    using that by (rule fl_empty_iff)
qed

section \<open>The object pool\<close>

text \<open>
  \<open>objSize\<close> is the size of an object (at least a pointer), \<open>sbrk\<close> the system
  call, from a number of bytes and the state of the system to an address and the next state,
  \<open>ctor\<close> what the constructor of the object writes. \<open>sbrk\<close>
  signals failure with the address \<open>-1\<close>, which \<^verbatim>\<open>SystemAlloc_sbrk\<close> does not test for.
\<close>

record object_pool =
  memory :: addr
  remainBytes :: size_t
  freeList :: addr

definition objectPool_init :: object_pool where
  "objectPool_init = \<lparr>memory = 0, remainBytes = 0, freeList = 0\<rparr>"

type_synonym 'o sbrk = "nat \<Rightarrow> 'o \<Rightarrow> addr \<times> 'o"

definition SystemAlloc_sbrk :: "'o sbrk \<Rightarrow> size_t \<Rightarrow> 'o \<Rightarrow> (addr \<times> 'o) result" where
  "SystemAlloc_sbrk sbrk kpage os =
     (let (ptr, os1) = sbrk (kpage * 2 ^ 13 mod size_mod) os in
      if ptr = 0 then Inl BadAlloc else Inr (ptr, os1))"

definition pool_objSize :: "size_t \<Rightarrow> size_t" where
  "pool_objSize sizeof_T = (if sizeof_T < 8 then 8 else sizeof_T)"

definition New ::
    "(addr \<Rightarrow> heap \<Rightarrow> heap) \<Rightarrow> 'o sbrk \<Rightarrow> size_t \<Rightarrow> heap \<times> object_pool \<Rightarrow> 'o \<Rightarrow>
     (addr \<times> (heap \<times> object_pool) \<times> 'o) result" where
  "New ctor sbrk sizeof_T s os =
     (case s of (m, P) \<Rightarrow>
        if freeList P \<noteq> 0 then
          let obj = freeList P in
          bindR (NEXT_OBJ m obj) (\<lambda>nxt. Inr (obj, (ctor obj m, P\<lparr>freeList := nxt\<rparr>), os))
        else
          let objSize = pool_objSize sizeof_T in
          bindR (if remainBytes P < objSize
                 then bindR (SystemAlloc_sbrk sbrk (128 * 1024 div 2 ^ 13) os) (\<lambda>(p, os1).
                        Inr (P\<lparr>remainBytes := 128 * 1024, memory := p\<rparr>, os1))
                 else Inr (P, os)) (\<lambda>(P1, os1).
            let obj = memory P1 in
            Inr (obj, (ctor obj m,
                       P1\<lparr>remainBytes := szsub (remainBytes P1) objSize, memory := obj + objSize\<rparr>),
                 os1)))"

definition Delete :: "addr \<Rightarrow> heap \<times> object_pool \<Rightarrow> (heap \<times> object_pool) result" where
  "Delete obj s =
     (case s of (m, P) \<Rightarrow>
        bindR (set_NEXT_OBJ obj (freeList P) m) (\<lambda>m1. Inr (m1, P\<lparr>freeList := obj\<rparr>)))"

text \<open>
  The invariant of a pool with free objects \<open>fr\<close> and live objects \<open>live\<close>: the objects are
  pairwise disjoint blocks, and disjoint from the unused rest of the current chunk.
\<close>

definition block :: "nat \<Rightarrow> addr \<Rightarrow> addr set" where
  "block n a = {a..<a + n}"

definition disjoint_blocks :: "nat \<Rightarrow> addr list \<Rightarrow> bool" where
  "disjoint_blocks n xs \<longleftrightarrow>
     distinct xs \<and> (\<forall>x\<in>set xs. \<forall>y\<in>set xs. x \<noteq> y \<longrightarrow> block n x \<inter> block n y = {})"

definition pool_inv :: "nat \<Rightarrow> heap \<times> object_pool \<Rightarrow> addr list \<Rightarrow> addr list \<Rightarrow> bool" where
  "pool_inv n s fr live \<longleftrightarrow>
     (case s of (m, P) \<Rightarrow>
        chain m (freeList P) fr 0 \<and> disjoint_blocks n (fr @ live) \<and>
        (\<forall>x\<in>set (fr @ live). x \<noteq> 0 \<and> block n x \<inter> block (remainBytes P) (memory P) = {}) \<and>
        remainBytes P \<le> 128 * 1024 \<and> (0 < remainBytes P \<longrightarrow> memory P \<noteq> 0))"

lemma pool_inv_init: "pool_inv n (m, objectPool_init) [] []"
  by (simp add: pool_inv_def objectPool_init_def disjoint_blocks_def)

lemma block_self [simp]: "0 < n \<Longrightarrow> a \<in> block n a"
  by (simp add: block_def)

lemma disjoint_blocks_move:
  "disjoint_blocks n (x # fr @ live) \<longleftrightarrow> disjoint_blocks n (fr @ x # live)"
  by (auto simp: disjoint_blocks_def)

lemma disjoint_blocksD:
  "disjoint_blocks n xs \<Longrightarrow> x \<in> set xs \<Longrightarrow> y \<in> set xs \<Longrightarrow> x \<noteq> y \<Longrightarrow> block n x \<inter> block n y = {}"
  by (simp add: disjoint_blocks_def)

lemma block_split: "k \<le> r \<Longrightarrow> block k a \<subseteq> block r a \<and> block (r - k) (a + k) \<subseteq> block r a"
  by (auto simp: block_def)

text \<open>A constructor writes only inside the object it constructs.\<close>

definition ctor_local :: "nat \<Rightarrow> (addr \<Rightarrow> heap \<Rightarrow> heap) \<Rightarrow> bool" where
  "ctor_local n ctor \<longleftrightarrow> (\<forall>a m x. x \<notin> block n a \<longrightarrow> ctor a m x = m x)"

lemma chain_ctor:
  assumes "ctor_local n ctor" "0 < n" "\<forall>y\<in>set xs. block n x \<inter> block n y = {}"
  shows "chain (ctor x m) p xs q \<longleftrightarrow> chain m p xs q"
proof (rule chain_frame)
  fix y assume "y \<in> set xs"
  then have "y \<notin> block n x" using assms(2,3) by (metis IntI block_self empty_iff)
  then show "ctor x m y = m y" using assms(1) by (simp add: ctor_local_def)
qed

lemma New_recycles:
  assumes inv: "pool_inv n (m, P) (x # fr) live" and n: "n = pool_objSize t"
    and ctor: "ctor_local n ctor"
  shows "\<exists>s'. New ctor sbrk t (m, P) os = Inr (x, s', os) \<and> pool_inv n s' fr (x # live)"
proof -
  have pos: "0 < n" by (simp add: n pool_objSize_def)
  have c: "freeList P = x" "x \<noteq> 0" "chain m (m x) fr 0"
    using inv by (simp_all add: pool_inv_def)
  have d: "disjoint_blocks n (x # fr @ live)"
    using inv by (simp add: pool_inv_def)
  then have "\<forall>y\<in>set fr. block n x \<inter> block n y = {}"
    by (auto simp: disjoint_blocks_def)
  then have "chain (ctor x m) (m x) fr 0"
    using c chain_ctor [OF ctor pos] by simp
  then show ?thesis
    using inv c d by (simp add: New_def Let_def NEXT_OBJ_def pool_inv_def disjoint_blocks_move)
qed

lemma New_carves:
  assumes inv: "pool_inv n (m, P) [] live" and n: "n = pool_objSize t" "n \<le> 131072"
    and ctor: "ctor_local n ctor"
    and fresh: "fst (sbrk 131072 os) \<noteq> 0"
      "\<forall>x\<in>set live. block n x \<inter> block 131072 (fst (sbrk 131072 os)) = {}"
  shows "\<exists>x s' os'. New ctor sbrk t (m, P) os = Inr (x, s', os') \<and> pool_inv n s' [] (x # live)"
proof -
  have pos: "0 < n" by (simp add: n pool_objSize_def)
  have fl: "freeList P = 0" using inv by (simp add: pool_inv_def)
  define P1 where "P1 = (if remainBytes P < n
     then P\<lparr>remainBytes := 131072, memory := fst (sbrk 131072 os)\<rparr> else P)"
  define x where "x = memory P1"
  let ?P2 = "P1\<lparr>remainBytes := szsub (remainBytes P1) n, memory := x + n\<rparr>"
  have P1: "n \<le> remainBytes P1" "remainBytes P1 \<le> 131072" "x \<noteq> 0" "freeList P1 = 0"
    "\<forall>y\<in>set live. block n y \<inter> block (remainBytes P1) x = {}"
    using inv n(2) pos fresh by (auto simp: P1_def x_def pool_inv_def)
  have sub: "szsub (remainBytes P1) n = remainBytes P1 - n"
    using P1 by (simp add: szsub_exact size_mod_def)
  have new: "\<exists>os'. New ctor sbrk t (m, P) os = Inr (x, (ctor x m, ?P2), os')"
    using fl fresh(1) by (auto simp: New_def Let_def SystemAlloc_sbrk_def size_mod_def P1_def x_def
        split: prod.splits simp flip: n(1))
  have sp: "block n x \<subseteq> block (remainBytes P1) x"
      "block (remainBytes P1 - n) (x + n) \<subseteq> block (remainBytes P1) x"
    using block_split [OF P1(1), of x] by auto
  have own: "block n x \<inter> block (remainBytes P1 - n) (x + n) = {}"
    by (auto simp: block_def)
  have "disjoint_blocks n live"
    using inv by (simp add: pool_inv_def)
  moreover have "x \<notin> set live"
    using P1(5) sp(1) block_self [OF pos, of x] by blast
  moreover have "\<forall>y\<in>set live. block n y \<inter> block n x = {}"
    using P1(5) sp(1) by blast
  ultimately have "disjoint_blocks n (x # live)"
    by (auto simp: disjoint_blocks_def)
  moreover have "\<forall>y\<in>set live. y \<noteq> 0 \<and> block n y \<inter> block (remainBytes P1 - n) (x + n) = {}"
    using P1(5) sp(2) inv by (auto simp: pool_inv_def)
  ultimately have "pool_inv n (ctor x m, ?P2) [] (x # live)"
    using P1 own by (simp add: pool_inv_def sub)
  then show ?thesis using new by blast
qed

lemma Delete_ok:
  assumes inv: "pool_inv n (m, P) fr live" and x: "x \<in> set live"
  shows "\<exists>s'. Delete x (m, P) = Inr s' \<and> pool_inv n s' (x # fr) (remove1 x live)"
proof -
  have nz: "x \<noteq> 0" and d: "disjoint_blocks n (fr @ live)"
    using inv x by (auto simp: pool_inv_def)
  then have dist: "distinct live" "x \<notin> set fr"
    using x by (auto simp: disjoint_blocks_def)
  then have "set (x # fr @ remove1 x live) = set (fr @ live)"
    "distinct (x # fr @ remove1 x live)"
    using x d by (auto simp: disjoint_blocks_def)
  moreover from this have "disjoint_blocks n (x # fr @ remove1 x live)"
    using d by (simp only: disjoint_blocks_def) simp
  moreover have "chain (m(x := freeList P)) x (x # fr) 0"
    using inv nz dist by (simp add: pool_inv_def)
  ultimately show ?thesis
    using inv nz dist x by (auto simp: Delete_def set_NEXT_OBJ_def pool_inv_def)
qed

section \<open>Properties\<close>



text \<open>
  \<^verbatim>\<open>FreeList\<close> is a stack of objects: pushing any distinct non-null objects one after the
  other succeeds and the list then holds them, last pushed first, on top of what it held; and
  \<^verbatim>\<open>pop\<close> of a non-empty list returns its first object and leaves the rest.
\<close>

theorem FreeList_is_stack:
  assumes "fl_rep s xs" "0 \<notin> set ys" "distinct ys" "set ys \<inter> set xs = {}"
    "length xs + length ys < size_mod"
  shows "\<exists>s'. foldR push ys s = Inr s' \<and> fl_rep s' (rev ys @ xs) \<and>
    (\<forall>z zs. rev ys @ xs = z # zs \<longrightarrow> (\<exists>s''. pop s' = Inr (z, s'') \<and> fl_rep s'' zs))"
proof -
  obtain s' where "foldR push ys s = Inr s'" "fl_rep s' (rev ys @ xs)"
    using fl.put_all [OF assms] by blast
  then show ?thesis using fl.rep_take by metis
qed

theorem FreeList_is_stack_witness:
  "\<exists>s'. foldR push [16, 32] (\<lambda>_. 0, FreeList_init) = Inr s' \<and> fl_rep s' [32, 16] \<and>
    (\<forall>z zs. [32, 16] = z # zs \<longrightarrow> (\<exists>s''. pop s' = Inr (z, s'') \<and> fl_rep s'' zs))"
  using FreeList_is_stack [OF fl_rep_init, of "[16, 32]" "\<lambda>_. 0"] by (simp add: size_mod_def)

text \<open>
  \<^verbatim>\<open>FreeList::PopRange(n)\<close> for a list of \<open>k > 0\<close> objects. Its assertion \<open>n \<ge> _size\<close> makes
  \<open>n = k\<close> the only value for which it returns (the whole chain, null-terminated); for fewer
  objects the assertion fails, for more it dereferences the null pointer.
\<close>

theorem PopRange_only_whole_list:
  assumes "fl_rep s xs" "xs \<noteq> []" "n < size_mod"
  shows "PopRange n s =
           (if n < length xs then Inl AssertFailed
            else if length xs < n then Inl NullDeref
            else PopRange (length xs) s) \<and>
         (\<exists>s'. PopRange (length xs) s = Inr (hd xs, last xs, s') \<and> fl_rep s' [] \<and>
               chain (fst s') (hd xs) xs 0)"
  using PopRange_too_few [OF assms(1), of n] PopRange_too_many [OF assms(1) _ assms(3)]
    PopRange_all [OF assms(1,2)] by auto

theorem PopRange_only_whole_list_witness:
  "PopRange 1 ((\<lambda>_. 0)(32 := 16), \<lparr>head = 32, maxSize = 1, fl_size = 2\<rparr>) = Inl AssertFailed"
proof -
  have "fl_rep ((\<lambda>_. 0)(32 := 16), \<lparr>head = 32, maxSize = 1, fl_size = 2\<rparr>) [32, 16]"
    by (simp add: fl_rep_def size_mod_def)
  from PopRange_only_whole_list [OF this, of 1] show ?thesis by (simp add: size_mod_def)
qed

end
