(* ===== verification/SpanList.thy ===== *)
theory SpanList
  imports FreeList
begin

text \<open>
  Spans and the circular doubly linked list of spans with a head node (\<^verbatim>\<open>Span\<close> and \<^verbatim>\<open>SpanList\<close>
  in \<^verbatim>\<open>src/memory/common.hpp\<close>). Spans live on a heap of their own, named by their pointers; the
  list is named by the pointer of its head node.
\<close>

section \<open>Definitions\<close>

record span =
  pageid :: nat
  npage :: size_t
  nxt :: addr
  prv :: addr
  objlist :: addr
  objsize :: size_t
  usecount :: size_t
  isUse :: bool

type_synonym spans = "addr \<Rightarrow> span"

text \<open>The default member initialisers; \<^verbatim>\<open>_pageid\<close> and \<^verbatim>\<open>_npage\<close> keep what was in the memory.\<close>

definition Span_init :: "span \<Rightarrow> span" where
  "Span_init s =
     s\<lparr>nxt := 0, prv := 0, objlist := 0, objsize := 0, usecount := 0, isUse := False\<rparr>"

text \<open>Following a span pointer, and assigning to a field behind it.\<close>

definition deref_span :: "addr \<Rightarrow> spans \<Rightarrow> span result" where
  "deref_span p h = (if p = 0 then Inl NullDeref else Inr (h p))"

definition upd_span :: "addr \<Rightarrow> (span \<Rightarrow> span) \<Rightarrow> spans \<Rightarrow> spans result" where
  "upd_span p f h = (if p = 0 then Inl NullDeref else Inr (h(p := f (h p))))"

definition SpanList_new :: "addr \<Rightarrow> spans \<Rightarrow> spans result" where
  "SpanList_new hp h =
     bindR (upd_span hp (\<lambda>s. (Span_init s)\<lparr>nxt := hp\<rparr>) h) (upd_span hp (\<lambda>s. s\<lparr>prv := hp\<rparr>))"

definition sl_begin :: "addr \<Rightarrow> spans \<Rightarrow> addr result" where
  "sl_begin hp h = bindR (deref_span hp h) (\<lambda>s. Inr (nxt s))"

definition sl_end :: "addr \<Rightarrow> addr" where
  "sl_end hp = hp"

definition sl_empty :: "addr \<Rightarrow> spans \<Rightarrow> bool result" where
  "sl_empty hp h = bindR (deref_span hp h) (\<lambda>s. Inr (nxt s = hp))"

definition sl_insert :: "addr \<Rightarrow> addr \<Rightarrow> spans \<Rightarrow> spans result" where
  "sl_insert cur newspan h =
     bindR (assertR (cur \<noteq> 0)) (\<lambda>_.
     bindR (assertR (newspan \<noteq> 0)) (\<lambda>_.
     bindR (deref_span cur h) (\<lambda>c.
     let prev = prv c in
     bindR (upd_span prev (\<lambda>s. s\<lparr>nxt := newspan\<rparr>) h) (\<lambda>h1.
     bindR (upd_span newspan (\<lambda>s. s\<lparr>prv := prev\<rparr>) h1) (\<lambda>h2.
     bindR (upd_span newspan (\<lambda>s. s\<lparr>nxt := cur\<rparr>) h2) (\<lambda>h3.
     upd_span cur (\<lambda>s. s\<lparr>prv := newspan\<rparr>) h3))))))"

definition sl_erase :: "addr \<Rightarrow> addr \<Rightarrow> spans \<Rightarrow> spans result" where
  "sl_erase hp cur h =
     bindR (assertR (cur \<noteq> 0)) (\<lambda>_.
     bindR (assertR (cur \<noteq> hp)) (\<lambda>_.
     bindR (deref_span cur h) (\<lambda>c.
     let prev = prv c; nx = nxt c in
     bindR (upd_span prev (\<lambda>s. s\<lparr>nxt := nx\<rparr>) h) (\<lambda>h1.
     upd_span nx (\<lambda>s. s\<lparr>prv := prev\<rparr>) h1))))"

definition push_front :: "addr \<Rightarrow> addr \<Rightarrow> spans \<Rightarrow> spans result" where
  "push_front hp sp h = bindR (sl_begin hp h) (\<lambda>b. sl_insert b sp h)"

definition pop_front :: "addr \<Rightarrow> spans \<Rightarrow> (addr \<times> spans) result" where
  "pop_front hp h =
     bindR (deref_span hp h) (\<lambda>s.
     let front = nxt s in
     bindR (sl_erase hp front h) (\<lambda>h1. Inr (front, h1)))"

section \<open>The list a head node represents\<close>

text \<open>\<open>linked h ps\<close>: consecutive nodes of \<open>ps\<close> point to each other.\<close>

fun linked :: "spans \<Rightarrow> addr list \<Rightarrow> bool" where
  "linked h (x # y # ps) \<longleftrightarrow> nxt (h x) = y \<and> prv (h y) = x \<and> linked h (y # ps)"
| "linked h ps \<longleftrightarrow> True"

definition sl_rep :: "spans \<Rightarrow> addr \<Rightarrow> addr list \<Rightarrow> bool" where
  "sl_rep h hp xs \<longleftrightarrow> linked h (hp # xs @ [hp]) \<and> distinct (hp # xs) \<and> 0 \<notin> set (hp # xs)"

lemma linked_append:
  "linked h (xs @ y # ys) \<longleftrightarrow> linked h (xs @ [y]) \<and> linked h (y # ys)"
proof (induction xs)
  case (Cons x xs)
  then show ?case by (cases xs) auto
qed simp

text \<open>
  Only the next pointers of all but the last node and the previous pointers of all but the first
  matter.
\<close>

lemma linked_frame:
  assumes "\<And>x. x \<in> set (butlast ps) \<Longrightarrow> nxt (h' x) = nxt (h x)"
    "\<And>x. x \<in> set (tl ps) \<Longrightarrow> prv (h' x) = prv (h x)"
  shows "linked h' ps \<longleftrightarrow> linked h ps"
  using assms
proof (induction h ps rule: linked.induct)
  case (1 h x y ps)
  then show ?case by (cases ps) auto
qed auto

lemma butlast_append_one [simp]: "butlast (xs @ [a]) = xs"
  by simp

text \<open>
  Inserting between two neighbours \<open>a\<close> and \<open>b\<close>, and taking out what is between them, when the
  two ends of the list are the same node.
\<close>

lemma sl_rep_split:
  assumes "sl_rep h hp (as @ bs)"
  defines "a \<equiv> last (hp # as)" and "b \<equiv> hd (bs @ [hp])"
  shows "linked h (hp # as)" "linked h (bs @ [hp])" "nxt (h a) = b" "prv (h b) = a"
proof -
  have as: "hp # as = butlast (hp # as) @ [a]" unfolding a_def by simp
  have bs: "bs @ [hp] = b # tl (bs @ [hp])" unfolding b_def by simp
  have "linked h ((hp # as) @ (bs @ [hp]))"
    using assms(1) by (simp add: sl_rep_def)
  then have "linked h (butlast (hp # as) @ a # b # tl (bs @ [hp]))"
    by (subst (asm) as, subst (asm) bs) (simp only: append_assoc append.simps)
  then show "linked h (hp # as)" "linked h (bs @ [hp])" "nxt (h a) = b" "prv (h b) = a"
    using linked_append [of h "butlast (hp # as)" a "b # tl (bs @ [hp])"]
      linked_append [of h "[a]" b "tl (bs @ [hp])"] as bs by (simp_all only: append.simps) simp_all
qed

lemma sl_rep_join:
  assumes "linked h (hp # as)" "linked h (bs @ [hp])"
    "nxt (h (last (hp # as))) = hd (bs @ [hp])" "prv (h (hd (bs @ [hp]))) = last (hp # as)"
    "distinct (hp # as @ bs)" "0 \<notin> set (hp # as @ bs)"
  shows "sl_rep h hp (as @ bs)"
proof -
  have as: "hp # as = butlast (hp # as) @ [last (hp # as)]" by simp
  have "linked h (last (hp # as) # bs @ [hp])"
    using assms(2-4) by (cases bs) (simp_all del: last.simps)
  then have "linked h (butlast (hp # as) @ last (hp # as) # bs @ [hp])"
    using assms(1) linked_append [of h "butlast (hp # as)" "last (hp # as)" "bs @ [hp]"] as by metis
  then have "linked h ((hp # as) @ bs @ [hp])"
    using as by (metis append.assoc append_Cons append_Nil)
  then show ?thesis using assms(5,6) by (simp add: sl_rep_def)
qed

section \<open>Operations\<close>

text \<open>The two neighbours at a position occur nowhere else in the parts they close off.\<close>

lemma neighbours_apart:
  assumes "distinct (hp # as @ bs)"
  shows "last (hp # as) \<notin> set (butlast (hp # as))" "last (hp # as) \<notin> set bs"
    "hd (bs @ [hp]) \<notin> set as" "hd (bs @ [hp]) \<notin> set (tl (bs @ [hp]))"
    "last (hp # as) \<in> set (hp # as)" "hd (bs @ [hp]) \<in> set (hp # bs)"
proof -
  have "distinct (hp # as)" using assms by simp
  then have "distinct (butlast (hp # as) @ [last (hp # as)])"
    by (subst append_butlast_last_id) simp_all
  then show "last (hp # as) \<notin> set (butlast (hp # as))" by simp
  show m: "last (hp # as) \<in> set (hp # as)" by (rule last_in_set) simp
  show "last (hp # as) \<notin> set bs" using m assms by auto
  show "hd (bs @ [hp]) \<notin> set as" "hd (bs @ [hp]) \<notin> set (tl (bs @ [hp]))"
    "hd (bs @ [hp]) \<in> set (hp # bs)"
    using assms by (cases bs; auto)+
qed

text \<open>
  The effect of an operation at a position: the two outer parts are kept when only the pointers
  of the neighbours towards the position change.
\<close>

lemma outer_parts_kept:
  assumes "sl_rep h hp (as @ bs)"
    "\<And>p. p \<in> set (hp # as @ bs) \<Longrightarrow> p \<noteq> last (hp # as) \<Longrightarrow> nxt (h' p) = nxt (h p)"
    "\<And>p. p \<in> set (hp # as @ bs) \<Longrightarrow> p \<noteq> hd (bs @ [hp]) \<Longrightarrow> prv (h' p) = prv (h p)"
  shows "linked h' (hp # as)" "linked h' (bs @ [hp])"
proof -
  have d: "distinct (hp # as @ bs)" using assms(1) by (simp add: sl_rep_def)
  note n = neighbours_apart [OF d]
  have "linked h' (hp # as) = linked h (hp # as)"
  proof (rule linked_frame)
    fix p assume "p \<in> set (butlast (hp # as))"
    then show "nxt (h' p) = nxt (h p)"
      using n(1) assms(2) by (metis UnCI in_set_butlastD list.set(2) set_append insert_iff)
  qed (use n(3) assms(3) in \<open>metis UnCI list.sel(3) list.set_intros(2) set_append\<close>)
  with sl_rep_split(1) [OF assms(1)] show "linked h' (hp # as)" by simp
  have "linked h' (bs @ [hp]) = linked h (bs @ [hp])"
  proof (rule linked_frame)
    fix p assume "p \<in> set (butlast (bs @ [hp]))"
    then have "p \<in> set bs" by simp
    then show "nxt (h' p) = nxt (h p)" using n(2) assms(2) by auto
  next
    fix p assume p: "p \<in> set (tl (bs @ [hp]))"
    then have "p \<in> set (hp # as @ bs)" by (cases bs) auto
    moreover have "p \<noteq> hd (bs @ [hp])" using n(4) p by metis
    ultimately show "prv (h' p) = prv (h p)" by (rule assms(3))
  qed
  with sl_rep_split(2) [OF assms(1)] show "linked h' (bs @ [hp])" by simp
qed

lemma sl_insert_ok:
  assumes "sl_rep h hp (as @ bs)" "x \<noteq> 0" "x \<notin> set (hp # as @ bs)"
  shows "\<exists>h'. sl_insert (hd (bs @ [hp])) x h = Inr h' \<and> sl_rep h' hp (as @ x # bs) \<and>
    (\<forall>p. p \<notin> set (x # hp # as @ bs) \<longrightarrow> h' p = h p)"
proof -
  define a b where "a = last (hp # as)" and "b = hd (bs @ [hp])"
  note s = sl_rep_split [OF assms(1), folded a_def b_def]
  have d: "distinct (hp # as @ bs)" "0 \<notin> set (hp # as @ bs)"
    using assms(1) by (simp_all add: sl_rep_def)
  note n = neighbours_apart [OF d(1), folded a_def b_def]
  have nz: "a \<noteq> 0" "b \<noteq> 0" "a \<noteq> x" "b \<noteq> x"
    using n(5,6) d(2) assms(3) by (metis Un_iff list.set_intros(1) set_ConsD set_append list.set_intros(2))+
  define h1 where "h1 = h(a := (h a)\<lparr>nxt := x\<rparr>)"
  define h2 where "h2 = h1(x := (h1 x)\<lparr>prv := a, nxt := b\<rparr>)"
  define h' where "h' = h2(b := (h2 b)\<lparr>prv := x\<rparr>)"
  have run: "sl_insert b x h = Inr h'"
    using assms(2) nz s(4)
    by (simp add: sl_insert_def deref_span_def upd_span_def Let_def h1_def h2_def h'_def)
  have f: "nxt (h' p) = (if p = x then b else if p = a then x else nxt (h p))"
    "prv (h' p) = (if p = b then x else if p = x then a else prv (h p))" for p
    using nz by (simp_all add: h'_def h2_def h1_def)
  have parts: "linked h' (hp # as)" "linked h' (bs @ [hp])"
    by (rule outer_parts_kept [OF assms(1), folded a_def b_def]; use f assms(3) in auto)+
  have "linked h' ((x # bs) @ [hp])"
    using parts(2) f(1) [of x] f(2) [of b] by (cases bs) (auto simp: b_def)
  moreover have "nxt (h' (last (hp # as))) = hd ((x # bs) @ [hp])"
    "prv (h' (hd ((x # bs) @ [hp]))) = last (hp # as)"
    using f(1) [of a] f(2) [of x] nz by (simp_all add: a_def)
  moreover have "distinct (hp # as @ x # bs)" "0 \<notin> set (hp # as @ x # bs)"
    using d assms(2,3) by auto
  ultimately have "sl_rep h' hp (as @ x # bs)"
    using parts(1) by (intro sl_rep_join)
  moreover have "h' p = h p" if "p \<notin> set (x # hp # as @ bs)" for p
    using that n(5,6) by (auto simp: h'_def h2_def h1_def)
  ultimately show ?thesis
    using run by (auto simp: b_def)
qed

lemma sl_erase_ok:
  assumes "sl_rep h hp (as @ x # bs)"
  shows "\<exists>h'. sl_erase hp x h = Inr h' \<and> sl_rep h' hp (as @ bs) \<and>
    (\<forall>p. p \<notin> set (hp # as @ bs) \<longrightarrow> h' p = h p)"
proof -
  define a b where "a = last (hp # as)" and "b = hd (bs @ [hp])"
  have d: "distinct (hp # as @ x # bs)" "0 \<notin> set (hp # as @ x # bs)"
    using assms by (simp_all add: sl_rep_def)
  note s = sl_rep_split [OF assms, folded a_def]
  have s2: "linked h (hp # as @ [x])" "linked h (bs @ [hp])" "nxt (h x) = b" "prv (h b) = x"
    using sl_rep_split [of h hp "as @ [x]" bs] assms by (simp_all add: b_def)
  have d2: "distinct (hp # as @ bs)" "0 \<notin> set (hp # as @ bs)" using d by auto
  note n = neighbours_apart [OF d2(1), folded a_def b_def]
  have "set (hp # as) \<union> set (hp # bs) \<subseteq> set (hp # as @ x # bs) - {x}"
    using d(1) by auto
  then have ab: "a \<in> set (hp # as @ x # bs) - {x}" "b \<in> set (hp # as @ x # bs) - {x}"
    using n(5,6) by (meson UnI1 UnI2 subsetD)+
  then have nz: "a \<noteq> 0" "b \<noteq> 0" "a \<noteq> x" "b \<noteq> x"
    using d(2) by (metis DiffD1, metis DiffD1, simp_all)
  have xz: "x \<noteq> 0" "x \<noteq> hp" using d by auto
  have ax: "prv (h x) = a" using s(4) by simp
  define h1 where "h1 = h(a := (h a)\<lparr>nxt := b\<rparr>)"
  define h' where "h' = h1(b := (h1 b)\<lparr>prv := a\<rparr>)"
  have run: "sl_erase hp x h = Inr h'"
    using nz xz ax s2(3) by (simp add: sl_erase_def deref_span_def upd_span_def Let_def h1_def h'_def)
  have f: "nxt (h' p) = (if p = a then b else nxt (h p))"
    "prv (h' p) = (if p = b then a else prv (h p))" for p
    by (simp_all add: h'_def h1_def)
  have "linked h' (hp # as) = linked h (hp # as)"
  proof (rule linked_frame)
    fix p assume "p \<in> set (butlast (hp # as))"
    with n(1) have "p \<noteq> a" by blast
    then show "nxt (h' p) = nxt (h p)" by (simp add: f(1))
  next
    fix p assume "p \<in> set (tl (hp # as))"
    with n(3) have "p \<noteq> b" by auto
    then show "prv (h' p) = prv (h p)" by (simp add: f(2))
  qed
  moreover have "linked h' (bs @ [hp]) = linked h (bs @ [hp])"
  proof (rule linked_frame)
    fix p assume "p \<in> set (butlast (bs @ [hp]))"
    with n(2) have "p \<noteq> a" by auto
    then show "nxt (h' p) = nxt (h p)" by (simp add: f(1))
  next
    fix p assume "p \<in> set (tl (bs @ [hp]))"
    with n(4) have "p \<noteq> b" by blast
    then show "prv (h' p) = prv (h p)" by (simp add: f(2))
  qed
  ultimately have "sl_rep h' hp (as @ bs)"
    using s(1) s2(2) f(1) [of a] f(2) [of b] d2 by (intro sl_rep_join) (simp_all add: a_def b_def)
  moreover have "h' p = h p" if "p \<notin> set (hp # as @ bs)" for p
    using that n(5,6) by (auto simp: h'_def h1_def)
  ultimately show ?thesis using run by blast
qed

lemma push_front_ok:
  assumes "sl_rep h hp xs" "x \<noteq> 0" "x \<notin> set (hp # xs)"
  shows "\<exists>h'. push_front hp x h = Inr h' \<and> sl_rep h' hp (x # xs) \<and>
    (\<forall>p. p \<notin> set (x # hp # xs) \<longrightarrow> h' p = h p)"
proof -
  have "sl_begin hp h = Inr (hd (xs @ [hp]))"
    using sl_rep_split(3) [of h hp "[]" xs] assms(1) by (simp add: sl_begin_def deref_span_def sl_rep_def)
  then show ?thesis
    using sl_insert_ok [of h hp "[]" xs x] assms by (simp add: push_front_def)
qed

lemma pop_front_ok:
  assumes "sl_rep h hp (x # xs)"
  shows "\<exists>h'. pop_front hp h = Inr (x, h') \<and> sl_rep h' hp xs \<and>
    (\<forall>p. p \<notin> set (hp # xs) \<longrightarrow> h' p = h p)"
proof -
  have "nxt (h hp) = x" "hp \<noteq> 0"
    using assms by (simp_all add: sl_rep_def)
  then show ?thesis
    using sl_erase_ok [of h hp "[]" x xs] assms by (auto simp: pop_front_def deref_span_def)
qed

lemma sl_empty_iff: "sl_rep h hp xs \<Longrightarrow> sl_empty hp h = Inr (xs = [])"
  by (cases xs) (auto simp: sl_rep_def sl_empty_def deref_span_def)

lemma SpanList_new_ok: "hp \<noteq> 0 \<Longrightarrow> \<exists>h'. SpanList_new hp h = Inr h' \<and> sl_rep h' hp []"
  by (simp add: SpanList_new_def upd_span_def sl_rep_def)

section \<open>The interface: a list of spans\<close>

text \<open>
  What the page cache and the central cache rely on: pushing at the front, taking from the
  front and taking a member out anywhere act on the represented list.
\<close>

locale span_bucket =
  fixes rep :: "'h \<Rightarrow> addr \<Rightarrow> addr list \<Rightarrow> bool"
    and push :: "addr \<Rightarrow> addr \<Rightarrow> 'h \<Rightarrow> 'h result"
    and pop :: "addr \<Rightarrow> 'h \<Rightarrow> (addr \<times> 'h) result"
    and remove :: "addr \<Rightarrow> addr \<Rightarrow> 'h \<Rightarrow> 'h result"
    and is_empty :: "addr \<Rightarrow> 'h \<Rightarrow> bool result"
  assumes rep_push: "rep h l xs \<Longrightarrow> x \<noteq> 0 \<Longrightarrow> x \<notin> set (l # xs) \<Longrightarrow>
      \<exists>h'. push l x h = Inr h' \<and> rep h' l (x # xs)"
    and rep_pop: "rep h l (x # xs) \<Longrightarrow> \<exists>h'. pop l h = Inr (x, h') \<and> rep h' l xs"
    and rep_remove: "rep h l (as @ x # bs) \<Longrightarrow> \<exists>h'. remove l x h = Inr h' \<and> rep h' l (as @ bs)"
    and rep_empty: "rep h l xs \<Longrightarrow> is_empty l h = Inr (xs = [])"
begin

text \<open>A member that is taken out and pushed again is at the front, the others keep their order.\<close>

lemma move_to_front:
  assumes "rep h l (as @ x # bs)" "x \<noteq> 0" "x \<notin> set (l # as @ bs)"
  shows "\<exists>h1 h2. remove l x h = Inr h1 \<and> push l x h1 = Inr h2 \<and> rep h2 l (x # as @ bs)"
  using rep_remove [OF assms(1)] rep_push assms(2,3) by blast

lemma pop_all:
  "rep h l xs \<Longrightarrow> \<exists>h'. foldR (\<lambda>x h. bindR (pop l h) (\<lambda>(y, h1). if y = x then Inr h1 else Inl AssertFailed)) xs h
     = Inr h' \<and> rep h' l [] \<and> is_empty l h' = Inr True"
proof (induction xs arbitrary: h)
  case Nil
  then show ?case using rep_empty [of h l "[]"] by auto
next
  case (Cons x xs)
  then obtain h1 where "pop l h = Inr (x, h1)" "rep h1 l xs" using rep_pop by blast
  with Cons.IH [of h1] show ?case by simp
qed

end

interpretation sl: span_bucket sl_rep push_front pop_front sl_erase sl_empty
proof unfold_locales
  fix h l x xs as bs
  show "\<exists>h'. push_front l x h = Inr h' \<and> sl_rep h' l (x # xs)"
    if "sl_rep h l xs" "x \<noteq> 0" "x \<notin> set (l # xs)"
    using push_front_ok [OF that] by blast
  show "\<exists>h'. pop_front l h = Inr (x, h') \<and> sl_rep h' l xs" if "sl_rep h l (x # xs)"
    using pop_front_ok [OF that] by blast
  show "\<exists>h'. sl_erase l x h = Inr h' \<and> sl_rep h' l (as @ bs)" if "sl_rep h l (as @ x # bs)"
    using sl_erase_ok [OF that] by blast
  show "sl_empty l h = Inr (xs = [])" if "sl_rep h l xs"
    using that by (rule sl_empty_iff)
qed

section \<open>Properties\<close>

text \<open>
  C24: \<^verbatim>\<open>SpanList\<close> is a doubly linked list. On a list that represents \<open>as @ x # bs\<close>, \<^verbatim>\<open>erase(x)\<close> leaves
  \<open>as @ bs\<close>, and \<^verbatim>\<open>push_front(x)\<close> of the erased span gives \<open>x # as @ bs\<close>, with all next and previous
  pointers consistent, no assertion failing and no null pointer followed; and \<^verbatim>\<open>pop_front\<close> then
  gives \<open>x\<close> back.
\<close>

theorem SpanList_refines_list:
  assumes "sl_rep h hp (as @ x # bs)"
  shows "\<exists>h1 h2 h3. sl_erase hp x h = Inr h1 \<and> sl_rep h1 hp (as @ bs) \<and>
    push_front hp x h1 = Inr h2 \<and> sl_rep h2 hp (x # as @ bs) \<and>
    pop_front hp h2 = Inr (x, h3) \<and> sl_rep h3 hp (as @ bs)"
proof -
  have "x \<noteq> 0" "x \<notin> set (hp # as @ bs)"
    using assms by (auto simp: sl_rep_def)
  then show ?thesis
    using sl.rep_remove [OF assms] sl.rep_push sl.rep_pop by meson
qed

theorem SpanList_refines_list_witness:
  "\<exists>h h1 h2 h3. sl_rep h 8 [16, 24] \<and> sl_erase 8 24 h = Inr h1 \<and> push_front 8 24 h1 = Inr h2 \<and>
     sl_rep h2 8 [24, 16] \<and> pop_front 8 h2 = Inr (24, h3) \<and> sl_rep h3 8 [16]"
proof -
  define z where "z = \<lparr>pageid = 0, npage = 0, nxt = 0, prv = 0, objlist = 0, objsize = 0,
    usecount = 0, isUse = False\<rparr>"
  define h where "h = (\<lambda>_ :: addr. z)(8 := z\<lparr>nxt := 16, prv := 24\<rparr>, 16 := z\<lparr>nxt := 24, prv := 8\<rparr>,
    24 := z\<lparr>nxt := 8, prv := 16\<rparr>)"
  have "sl_rep h 8 ([16] @ 24 # [])"
    by (simp add: sl_rep_def h_def)
  from SpanList_refines_list [OF this] this show ?thesis by auto
qed

end
