(* ===== verification/PageMap.thy ===== *)
theory PageMap
  imports FreeList
begin

text \<open>
  The three-level radix tree that maps a page number to the span that owns the page,
  \<^verbatim>\<open>TCMalloc_PageMap3<48 - PAGE_SHIFT>\<close> in \<^verbatim>\<open>src/memory/PageMap.hpp\<close>, with the three index
  computations, the null checks and the growing loop of \<^verbatim>\<open>Ensure\<close>. A span pointer is an
  address, 0 the null pointer. Shifts and masks by powers of two are \<open>div\<close>, \<open>mod\<close> and \<open>*\<close>.
\<close>

section \<open>Definitions\<close>

definition BITS :: nat where
  "BITS = 48 - 13"

definition INTERIOR_BITS :: nat where
  "INTERIOR_BITS = (BITS + 2) div 3"

definition INTERIOR_LENGTH :: nat where
  "INTERIOR_LENGTH = 2 ^ INTERIOR_BITS"

definition LEAF_BITS :: nat where
  "LEAF_BITS = BITS - 2 * INTERIOR_BITS"

definition LEAF_LENGTH :: nat where
  "LEAF_LENGTH = 2 ^ LEAF_BITS"

definition LEAFCOVEREDBYTES :: nat where
  "LEAFCOVEREDBYTES = 2 ^ (INTERIOR_BITS + 13)"

definition LEAFHUGEPAGES :: nat where
  "LEAFHUGEPAGES = LEAFCOVEREDBYTES div 2 ^ 21"

text \<open>
  Of a leaf only the array \<^verbatim>\<open>span\<close> is ever used. \<open>sizeof_Leaf\<close> counts its three arrays
  (one byte, one pointer and one pointer per element), \<open>sizeof_Node\<close> one pointer per child.
\<close>

type_synonym leaf = "nat \<Rightarrow> addr"
type_synonym node = "nat \<Rightarrow> leaf option"

definition sizeof_Leaf :: nat where
  "sizeof_Leaf = INTERIOR_LENGTH * 1 + INTERIOR_LENGTH * 8 + LEAFHUGEPAGES * 8"

definition sizeof_Node :: nat where
  "sizeof_Node = INTERIOR_LENGTH * 8"

record page_map =
  root :: "nat \<Rightarrow> node option"
  bytes_used :: size_t

definition PageMap_init :: page_map where
  "PageMap_init = \<lparr>root = (\<lambda>_. None), bytes_used = 0\<rparr>"

definition idx1 :: "nat \<Rightarrow> nat" where
  "idx1 k = k div 2 ^ (LEAF_BITS + INTERIOR_BITS)"

definition idx2 :: "nat \<Rightarrow> nat" where
  "idx2 k = k div 2 ^ LEAF_BITS mod INTERIOR_LENGTH"

definition idx3 :: "nat \<Rightarrow> nat" where
  "idx3 k = k mod LEAF_LENGTH"

definition set_span :: "nat \<Rightarrow> addr \<Rightarrow> page_map \<Rightarrow> page_map result" where
  "set_span k s pm =
     bindR (assertR (k div 2 ^ BITS = 0)) (\<lambda>_.
     case root pm (idx1 k) of
       None \<Rightarrow> Inl NullDeref
     | Some nd \<Rightarrow>
         (case nd (idx2 k) of
            None \<Rightarrow> Inl NullDeref
          | Some lf \<Rightarrow>
              Inr (pm\<lparr>root := (root pm)(idx1 k \<mapsto> nd(idx2 k \<mapsto> lf(idx3 k := s)))\<rparr>)))"

definition get_span :: "nat \<Rightarrow> page_map \<Rightarrow> addr" where
  "get_span k pm =
     (if k div 2 ^ BITS > 0 then 0
      else case root pm (idx1 k) of
             None \<Rightarrow> 0
           | Some nd \<Rightarrow> (case nd (idx2 k) of None \<Rightarrow> 0 | Some lf \<Rightarrow> lf (idx3 k)))"

text \<open>
  One round of \<^verbatim>\<open>Ensure\<close>: make the node and the leaf of a key exist. \<^verbatim>\<open>SystemAlloc_sbrk\<close> is
  called with the size of a node or a leaf in bytes although it takes a number of pages.
\<close>

definition ensure_key :: "'o sbrk \<Rightarrow> nat \<Rightarrow> page_map \<times> 'o \<Rightarrow> (page_map \<times> 'o) result" where
  "ensure_key sbrk key s =
     (case s of (pm, os) \<Rightarrow>
        bindR (case root pm (idx1 key) of
                 Some nd \<Rightarrow> Inr (nd, pm, os)
               | None \<Rightarrow> bindR (SystemAlloc_sbrk sbrk sizeof_Node os) (\<lambda>(_, os1).
                   let nd = (\<lambda>_. None) in
                   Inr (nd, pm\<lparr>root := (root pm)(idx1 key \<mapsto> nd),
                               bytes_used := szadd (bytes_used pm) sizeof_Node\<rparr>, os1)))
          (\<lambda>(nd, pm1, os1).
             case nd (idx2 key) of
               Some lf \<Rightarrow> Inr (pm1, os1)
             | None \<Rightarrow> bindR (SystemAlloc_sbrk sbrk sizeof_Leaf os1) (\<lambda>(_, os2).
                 Inr (pm1\<lparr>root := (root pm1)(idx1 key \<mapsto> nd(idx2 key \<mapsto> (\<lambda>_. 0))),
                          bytes_used := szadd (bytes_used pm1) sizeof_Leaf\<rparr>, os2))))"

lemma pm_consts:
  "BITS = 35" "INTERIOR_BITS = 12" "LEAF_BITS = 11" "INTERIOR_LENGTH = 4096" "LEAF_LENGTH = 2048"
  by (simp_all add: BITS_def INTERIOR_BITS_def LEAF_BITS_def INTERIOR_LENGTH_def LEAF_LENGTH_def)

lemma next_key_bounds:
  assumes "(key::nat) div 2 ^ 23 < 4096"
  shows "key < (key div 2048 + 1) * 2048" "(key div 2048 + 1) * 2048 \<le> 2 ^ 35"
proof -
  show "key < (key div 2048 + 1) * 2048"
    using div_mult_mod_eq [of key 2048] by simp
  have "key < 2 ^ 35" using assms by simp
  then have "key div 2048 < 2 ^ 24" by simp
  then show "(key div 2048 + 1) * 2048 \<le> 2 ^ 35" by simp
qed

text \<open>
  The loop of \<^verbatim>\<open>Ensure\<close>. It ends for every input: either \<open>key\<close> passes \<open>final\<close>, or after at most
  \<open>2 ^ 24\<close> rounds the index check \<open>i1 \<ge> INTERIOR_LENGTH\<close> ends it.
\<close>

function Ensure_loop ::
    "'o sbrk \<Rightarrow> nat \<Rightarrow> nat \<Rightarrow> page_map \<times> 'o \<Rightarrow> (bool \<times> page_map \<times> 'o) result" where
  "Ensure_loop sbrk key final s =
     (if key \<le> final then
        if idx1 key \<ge> INTERIOR_LENGTH \<or> idx2 key \<ge> INTERIOR_LENGTH then Inr (False, s)
        else case ensure_key sbrk key s of
               Inl e \<Rightarrow> Inl e
             | Inr s1 \<Rightarrow> Ensure_loop sbrk ((key div 2 ^ LEAF_BITS + 1) * 2 ^ LEAF_BITS) final s1
      else Inr (True, s))"
  by pat_completeness auto
termination
proof (relation "measure (\<lambda>(sbrk, key, final, s). 2 ^ 36 - key)")
  fix sbrk key final s s1
  assume "\<not> (INTERIOR_LENGTH \<le> idx1 key \<or> INTERIOR_LENGTH \<le> idx2 key)"
  then have "key div 2 ^ 23 < 4096"
    by (simp add: idx1_def pm_consts)
  from next_key_bounds [OF this]
  show "((sbrk, (key div 2 ^ LEAF_BITS + 1) * 2 ^ LEAF_BITS, final, s1), (sbrk, key, final, s))
      \<in> measure (\<lambda>(sbrk, key, final, s). 2 ^ 36 - key)"
    by (simp add: pm_consts)
qed simp

declare Ensure_loop.simps [simp del]

definition Ensure ::
    "'o sbrk \<Rightarrow> nat \<Rightarrow> size_t \<Rightarrow> page_map \<times> 'o \<Rightarrow> (bool \<times> page_map \<times> 'o) result" where
  "Ensure sbrk start n s = Ensure_loop sbrk start (szsub (szadd start n) 1) s"

section \<open>Indices\<close>

text \<open>The three indices determine the key.\<close>

lemma idx1_alt: "idx1 k = k div 2048 div 4096"
  by (simp add: idx1_def pm_consts flip: div_mult2_eq)

lemma key_of_indices: "k = (idx1 k * 4096 + idx2 k) * 2048 + idx3 k"
  by (simp add: idx1_alt idx2_def idx3_def pm_consts del: mult_numeral_left)

lemma idx_inject:
  assumes "idx1 k = idx1 j" "idx2 k = idx2 j" "idx3 k = idx3 j"
  shows "k = j"
  using key_of_indices [of k] key_of_indices [of j] assms by simp

lemma idx2_less [simp]: "idx2 k < INTERIOR_LENGTH"
  by (simp add: idx2_def pm_consts)

lemma idx1_less: "k < 2 ^ BITS \<Longrightarrow> idx1 k < INTERIOR_LENGTH"
  by (simp add: idx1_def pm_consts)

section \<open>Ready keys\<close>

definition ready :: "page_map \<Rightarrow> nat \<Rightarrow> bool" where
  "ready pm k \<longleftrightarrow> k < 2 ^ BITS \<and>
     (case root pm (idx1 k) of None \<Rightarrow> False | Some nd \<Rightarrow> nd (idx2 k) \<noteq> None)"

lemma get_set_span:
  assumes "ready pm k"
  shows "\<exists>pm'. set_span k s pm = Inr pm' \<and>
     (\<forall>j. get_span j pm' = (if j = k then s else get_span j pm)) \<and> (\<forall>j. ready pm' j = ready pm j)"
proof -
  obtain nd lf where nd: "root pm (idx1 k) = Some nd" "nd (idx2 k) = Some lf" and k: "k < 2 ^ BITS"
    using assms by (auto simp: ready_def split: option.splits)
  let ?pm = "pm\<lparr>root := (root pm)(idx1 k \<mapsto> nd(idx2 k \<mapsto> lf(idx3 k := s)))\<rparr>"
  have "set_span k s pm = Inr ?pm"
    using nd k by (simp add: set_span_def)
  moreover have "get_span j ?pm = (if j = k then s else get_span j pm)" for j
    using nd k idx_inject [of j k] by (auto simp: get_span_def split: option.splits)
  moreover have "ready ?pm j = ready pm j" for j
    using nd by (auto simp: ready_def split: option.splits)
  ultimately show ?thesis by blast
qed

lemma set_span_unready: "k < 2 ^ BITS \<Longrightarrow> \<not> ready pm k \<Longrightarrow> set_span k s pm = Inl NullDeref"
  by (auto simp: set_span_def ready_def split: option.splits)

lemma set_span_out_of_range: "2 ^ BITS \<le> k \<Longrightarrow> set_span k s pm = Inl AssertFailed"
  by (simp add: set_span_def div_eq_0_iff)

section \<open>Ensure\<close>

text \<open>
  \<open>extends pm pm'\<close>: \<open>pm'\<close> answers every query as \<open>pm\<close> does and every key that was ready is
  still ready.
\<close>

definition extends :: "page_map \<Rightarrow> page_map \<Rightarrow> bool" where
  "extends pm pm' \<longleftrightarrow>
     (\<forall>k. get_span k pm' = get_span k pm) \<and> (\<forall>k. ready pm k \<longrightarrow> ready pm' k)"

lemma extends_refl [simp]: "extends pm pm"
  by (simp add: extends_def)

lemma extends_trans: "extends a b \<Longrightarrow> extends b c \<Longrightarrow> extends a c"
  by (simp add: extends_def)

definition sbrk_ok :: "'o sbrk \<Rightarrow> bool" where
  "sbrk_ok sbrk \<longleftrightarrow> (\<forall>n os. fst (sbrk n os) \<noteq> 0)"

lemma SystemAlloc_ok: "sbrk_ok sbrk \<Longrightarrow> \<exists>p os'. SystemAlloc_sbrk sbrk n os = Inr (p, os')"
proof -
  assume "sbrk_ok sbrk"
  moreover obtain p os1 where "sbrk (n * 2 ^ 13 mod size_mod) os = (p, os1)" by (cases "sbrk (n * 2 ^ 13 mod size_mod) os")
  ultimately show ?thesis
    by (auto simp: SystemAlloc_sbrk_def sbrk_ok_def) (metis fst_conv neq0_conv)
qed

lemma ready_same_leaf:
  assumes "ready pm k" "j div 2048 = k div 2048"
  shows "ready pm j"
proof -
  have "idx2 j = idx2 k" "idx1 j = idx1 k"
    using assms(2) by (simp_all add: idx1_alt idx2_def pm_consts)
  moreover have "j < 2 ^ BITS"
    using assms div_less_iff_less_mult [of 2048 j "2 ^ 24"] div_less_iff_less_mult [of 2048 k "2 ^ 24"]
    by (simp add: ready_def pm_consts)
  ultimately show ?thesis
    using assms(1) by (auto simp: ready_def split: option.splits)
qed

text \<open>Adding an empty leaf where there was none changes no answer.\<close>

lemma extends_new_leaf:
  assumes "nd = (case root pm i of None \<Rightarrow> (\<lambda>_. None) | Some nd' \<Rightarrow> nd')" "nd j = None"
  shows "extends pm (pm\<lparr>root := (root pm)(i \<mapsto> nd(j \<mapsto> (\<lambda>_. 0))), bytes_used := b\<rparr>)"
  using assms unfolding extends_def
  by (auto simp: get_span_def ready_def split: option.splits)

lemma ensure_key_unfold:
  assumes "sbrk_ok sbrk" "nd = (case root pm (idx1 key) of None \<Rightarrow> (\<lambda>_. None) | Some nd' \<Rightarrow> nd')"
  shows "\<exists>b os'. ensure_key sbrk key (pm, os) =
    (if nd (idx2 key) = None
     then Inr (pm\<lparr>root := (root pm)(idx1 key \<mapsto> nd(idx2 key \<mapsto> (\<lambda>_. 0))), bytes_used := b\<rparr>, os')
     else Inr (pm, os))"
proof (cases "root pm (idx1 key)")
  case None
  obtain p os1 where p: "SystemAlloc_sbrk sbrk sizeof_Node os = Inr (p, os1)"
    using SystemAlloc_ok [OF assms(1)] by blast
  obtain q os2 where "SystemAlloc_sbrk sbrk sizeof_Leaf os1 = Inr (q, os2)"
    using SystemAlloc_ok [OF assms(1)] by blast
  with p None assms(2) show ?thesis by (simp add: ensure_key_def Let_def) blast
next
  case (Some n)
  obtain q os2 where "SystemAlloc_sbrk sbrk sizeof_Leaf os = Inr (q, os2)"
    using SystemAlloc_ok [OF assms(1)] by blast
  with Some assms(2) show ?thesis
    by (auto simp: ensure_key_def split: option.splits)
qed

lemma ensure_key_ok:
  assumes "sbrk_ok sbrk" "key < 2 ^ BITS"
  shows "\<exists>pm' os'. ensure_key sbrk key (pm, os) = Inr (pm', os') \<and> extends pm pm' \<and> ready pm' key"
proof -
  define nd where "nd = (case root pm (idx1 key) of None \<Rightarrow> (\<lambda>_. None) | Some nd' \<Rightarrow> nd')"
  obtain b os' where b: "ensure_key sbrk key (pm, os) =
    (if nd (idx2 key) = None
     then Inr (pm\<lparr>root := (root pm)(idx1 key \<mapsto> nd(idx2 key \<mapsto> (\<lambda>_. 0))), bytes_used := b\<rparr>, os')
     else Inr (pm, os))"
    using ensure_key_unfold [OF assms(1) nd_def] by blast
  show ?thesis
  proof (cases "nd (idx2 key) = None")
    case True
    then show ?thesis
      using b assms(2) extends_new_leaf [OF nd_def True, of b] by (simp add: ready_def)
  next
    case False
    then show ?thesis
      using b assms(2) by (auto simp: ready_def nd_def split: option.splits)
  qed
qed

lemma Ensure_loop_ok:
  assumes "sbrk_ok sbrk" "final < 2 ^ BITS"
  shows "\<exists>pm' os'. Ensure_loop sbrk key final s = Inr (True, pm', os') \<and> extends (fst s) pm' \<and>
     (\<forall>k. key \<le> k \<longrightarrow> k \<le> final \<longrightarrow> ready pm' k)"
  using assms
proof (induction sbrk key final s rule: Ensure_loop.induct)
  case (1 sbrk key final s)
  obtain pm os where s: "s = (pm, os)" by (cases s)
  show ?case
  proof (cases "key \<le> final")
    case True
    then have key: "key < 2 ^ BITS" using "1.prems" by simp
    let ?next = "(key div 2048 + 1) * 2048"
    obtain pm1 os1 where pm1: "ensure_key sbrk key s = Inr (pm1, os1)" "extends pm pm1" "ready pm1 key"
      using ensure_key_ok [OF "1.prems"(1) key] s by blast
    have idx: "\<not> (INTERIOR_LENGTH \<le> idx1 key \<or> INTERIOR_LENGTH \<le> idx2 key)"
      using idx1_less [OF key] idx2_less [of key] by linarith
    obtain pm' os' where pm': "Ensure_loop sbrk ?next final (pm1, os1) = Inr (True, pm', os')"
        "extends pm1 pm'" "\<forall>k. ?next \<le> k \<longrightarrow> k \<le> final \<longrightarrow> ready pm' k"
      using "1.IH" [OF True idx pm1(1)] "1.prems" by (auto simp: pm_consts)
    have "ready pm' k" if "key \<le> k" "k \<le> final" for k
    proof (cases "?next \<le> k")
      case False
      then have "k div 2048 = key div 2048" using that by simp
      moreover have "ready pm' key" using pm1(3) pm'(2) by (simp add: extends_def)
      ultimately show ?thesis by (rule ready_same_leaf [rotated])
    qed (use pm' that in blast)
    moreover have "Ensure_loop sbrk key final s = Inr (True, pm', os')"
      using True idx pm1 pm' by (simp add: Ensure_loop.simps [of sbrk key final s] pm_consts)
    ultimately show ?thesis
      using pm1 pm' extends_trans s by auto
  next
    case False
    then have "Ensure_loop sbrk key final s = Inr (True, pm, os)"
      by (simp add: Ensure_loop.simps s)
    with False s show ?thesis by auto
  qed
qed

lemma Ensure_ok:
  assumes "sbrk_ok sbrk" "0 < n" "start + n \<le> 2 ^ BITS"
  shows "\<exists>pm' os'. Ensure sbrk start n (pm, os) = Inr (True, pm', os') \<and> extends pm pm' \<and>
    (\<forall>k. start \<le> k \<and> k < start + n \<longrightarrow> ready pm' k)"
proof -
  have "szsub (szadd start n) 1 = start + n - 1" "start + n - 1 < 2 ^ BITS"
    using assms by (simp_all add: szadd_exact szsub_exact size_mod_def pm_consts)
  then obtain pm' os' where "Ensure sbrk start n (pm, os) = Inr (True, pm', os')" "extends pm pm'"
      "\<forall>k. start \<le> k \<longrightarrow> k \<le> start + n - 1 \<longrightarrow> ready pm' k"
    using Ensure_loop_ok [OF assms(1), of "start + n - 1" start "(pm, os)"] by (auto simp: Ensure_def)
  then show ?thesis
    using assms(2) by (intro exI [of _ pm']) auto
qed

section \<open>The interface: a page table\<close>

text \<open>
  What the page cache relies on: after a successful store a lookup returns the stored span for
  that page and its previous answer for every other page.
\<close>

locale page_table =
  fixes lookup :: "nat \<Rightarrow> 'm \<Rightarrow> addr"
    and store :: "nat \<Rightarrow> addr \<Rightarrow> 'm \<Rightarrow> 'm result"
    and usable :: "'m \<Rightarrow> nat \<Rightarrow> bool"
  assumes store_ok: "usable m k \<Longrightarrow> \<exists>m'. store k s m = Inr m' \<and>
      (\<forall>j. lookup j m' = (if j = k then s else lookup j m)) \<and> (\<forall>j. usable m' j = usable m j)"
begin

text \<open>Registering a span for a set of its pages, as the page cache does in its loops.\<close>

lemma store_all:
  assumes "\<forall>k\<in>set ks. usable m k"
  shows "\<exists>m'. foldR (\<lambda>k. store k s) ks m = Inr m' \<and>
    (\<forall>j. lookup j m' = (if j \<in> set ks then s else lookup j m)) \<and> (\<forall>j. usable m' j = usable m j)"
  using assms
proof (induction ks arbitrary: m)
  case Nil
  then show ?case by simp
next
  case (Cons k ks)
  then obtain m1 where m1: "store k s m = Inr m1"
      "\<forall>j. lookup j m1 = (if j = k then s else lookup j m)" "\<forall>j. usable m1 j = usable m j"
    using store_ok [of m k s] by auto
  then obtain m' where "foldR (\<lambda>k. store k s) ks m1 = Inr m'"
      "\<forall>j. lookup j m' = (if j \<in> set ks then s else lookup j m1)" "\<forall>j. usable m' j = usable m1 j"
    using Cons.IH [of m1] Cons.prems by auto
  with m1 show ?case by auto
qed

end

interpretation pt: page_table get_span set_span ready
  by unfold_locales (rule get_set_span)

section \<open>Properties\<close>

text \<open>
  C23: \<^verbatim>\<open>TCMalloc_PageMap3\<close> is a map from page numbers to spans. Storing a span for a list of
  pages whose leaves exist succeeds, and afterwards \<^verbatim>\<open>get\<close> returns that span for exactly these
  pages and its old answer for every other key, out-of-range keys included: the three index
  computations never confuse two pages.
\<close>

theorem pagemap_set_get:
  assumes "\<forall>k\<in>set ks. ready pm k"
  shows "\<exists>pm'. foldR (\<lambda>k. set_span k s) ks pm = Inr pm' \<and>
    (\<forall>j. get_span j pm' = (if j \<in> set ks then s else get_span j pm))"
  using pt.store_all [OF assms] by blast

text \<open>
  \<^verbatim>\<open>Ensure(start, n)\<close> terminates and, for a non-empty range of page numbers below
  \<open>2 ^ 35\<close> with memory available, returns true, makes every page of the range storable and
  changes no answer of \<^verbatim>\<open>get\<close>.
\<close>

theorem Ensure_makes_ready:
  assumes "sbrk_ok sbrk" "0 < n" "start + n \<le> 2 ^ BITS"
  shows "\<exists>pm' os'. Ensure sbrk start n (pm, os) = Inr (True, pm', os') \<and>
    (\<forall>k. start \<le> k \<and> k < start + n \<longrightarrow> ready pm' k) \<and>
    (\<forall>k. get_span k pm' = get_span k pm)"
  using Ensure_ok [OF assms, of pm os] by (auto simp: extends_def)

theorem Ensure_makes_ready_witness:
  "\<exists>pm' os'. Ensure (\<lambda>n brk. (brk + 1, brk + n)) 5 3000 (PageMap_init, 4096) = Inr (True, pm', os') \<and>
    (\<forall>k. 5 \<le> k \<and> k < 5 + 3000 \<longrightarrow> ready pm' k) \<and>
    (\<forall>k. get_span k pm' = get_span k PageMap_init)"
  by (rule Ensure_makes_ready) (simp_all add: sbrk_ok_def pm_consts)

theorem pagemap_set_get_witness:
  "\<exists>pm pm'. ready pm 7 \<and> ready pm 8 \<and> foldR (\<lambda>k. set_span k 64) [7, 8] pm = Inr pm' \<and>
    get_span 8 pm' = 64"
proof -
  obtain pm where "\<forall>k. 5 \<le> k \<longrightarrow> k \<le> 3004 \<longrightarrow> ready pm k"
    using Ensure_loop_ok [of "\<lambda>_ _. (4096, ())" 3004 5 "(PageMap_init, ())"]
    by (auto simp: sbrk_ok_def pm_consts)
  then have r: "ready pm 7" "ready pm 8" by simp_all
  then have "\<forall>k\<in>set [7, 8]. ready pm k" by simp
  from pagemap_set_get [OF this, of 64] r show ?thesis by auto
qed

end
