(* ===== verification/SizeClass.thy ===== *)
theory SizeClass
  imports Prelude
begin

text \<open>
  The size classes of the memory pool, \<^verbatim>\<open>classSize\<close> in \<^verbatim>\<open>src/memory/common.hpp\<close>, on 64-bit
  words: the rounded object size of a request, the bucket it belongs to, and how many objects
  and pages move between the cache levels at a time.
\<close>

unbundle bit_operations_syntax

section \<open>Definitions\<close>

type_synonym word64 = "64 word"

definition MAXBYTES :: word64 where
  "MAXBYTES = 256 * 1024"

definition NFREELIST :: nat where
  "NFREELIST = 208"

definition NPAGES :: nat where
  "NPAGES = 129"

definition PAGE_SHIFT :: nat where
  "PAGE_SHIFT = 13"

definition round_up_align :: "word64 \<Rightarrow> word64 \<Rightarrow> word64" where
  "round_up_align bytes alignNum = (bytes + alignNum - 1) AND NOT (alignNum - 1)"

definition round_up :: "word64 \<Rightarrow> word64 result" where
  "round_up sz =
     (if sz \<le> 128 then Inr (round_up_align sz 8)
      else if sz \<le> 1024 then Inr (round_up_align sz 16)
      else if sz \<le> 8 * 1024 then Inr (round_up_align sz 128)
      else if sz \<le> 64 * 1024 then Inr (round_up_align sz 1024)
      else if sz \<le> 256 * 1024 then Inr (round_up_align sz (8 * 1024))
      else Inl AssertFailed)"

definition index_shift :: "word64 \<Rightarrow> nat \<Rightarrow> word64" where
  "index_shift bytes align_shift =
     drop_bit align_shift (bytes + push_bit align_shift 1 - 1) - 1"

definition group_array :: "word64 list" where
  "group_array = [16, 56, 56, 56]"

definition index :: "word64 \<Rightarrow> word64 result" where
  "index bytes =
     (if bytes \<le> 128 then Inr (index_shift bytes 3)
      else if bytes \<le> 1024 then Inr (index_shift (bytes - 128) 4 + group_array ! 0)
      else if bytes \<le> 8 * 1024
        then Inr (index_shift (bytes - 1024) 7 + group_array ! 0 + group_array ! 1)
      else if bytes \<le> 64 * 1024
        then Inr (index_shift (bytes - 8 * 1024) 10 + group_array ! 0 + group_array ! 1
                  + group_array ! 2)
      else if bytes \<le> 256 * 1024
        then Inr (index_shift (bytes - 64 * 1024) 13 + group_array ! 0 + group_array ! 1
                  + group_array ! 2 + group_array ! 3)
      else Inl AssertFailed)"

text \<open>The quotient is stored in a signed \<^verbatim>\<open>int\<close>; it is at most \<open>2 ^ 18\<close>.\<close>

definition num_move_size :: "word64 \<Rightarrow> word64 result" where
  "num_move_size sz =
     bindR (assertR (sz > 0)) (\<lambda>_.
       let num = sint (ucast (MAXBYTES div sz) :: 32 word);
           num = (if num < 2 then 2 else num);
           num = (if num > 512 then 512 else num)
       in Inr (word_of_int num))"

definition num_move_page :: "word64 \<Rightarrow> word64 result" where
  "num_move_page sz =
     bindR (num_move_size sz) (\<lambda>num.
       let npage = drop_bit PAGE_SHIFT (num * sz)
       in Inr (if npage = 0 then 1 else npage))"

section \<open>The same functions on natural numbers\<close>

text \<open>
  \<open>granule n\<close> is the alignment of a request of \<open>n\<close> bytes as a power of two, \<open>base n\<close> and
  \<open>first_bucket n\<close> are the lower end of its size range and the first bucket of that range.
\<close>

definition granule :: "nat \<Rightarrow> nat" where
  "granule n = (if n \<le> 128 then 3 else if n \<le> 1024 then 4 else if n \<le> 8192 then 7
     else if n \<le> 65536 then 10 else 13)"

definition range_base :: "nat \<Rightarrow> nat" where
  "range_base n = (if n \<le> 128 then 0 else if n \<le> 1024 then 128 else if n \<le> 8192 then 1024
     else if n \<le> 65536 then 8192 else 65536)"

definition first_bucket :: "nat \<Rightarrow> nat" where
  "first_bucket n = (if n \<le> 128 then 0 else if n \<le> 1024 then 16 else if n \<le> 8192 then 72
     else if n \<le> 65536 then 128 else 184)"

definition ceil_div :: "nat \<Rightarrow> nat \<Rightarrow> nat" where
  "ceil_div n d = (n + d - 1) div d"

lemma and_not_mask_eq: "(w :: word64) AND NOT (2 ^ k - 1) = push_bit k (drop_bit k w)"
  by (rule bit_eqI)
    (auto simp: bit_and_iff bit_not_iff bit_push_bit_iff bit_drop_bit_eq bit_mask_iff
      simp flip: mask_eq_exp_minus_1)

lemma unat_exp64: "k < 64 \<Longrightarrow> unat ((2 :: word64) ^ k) = 2 ^ k"
proof (induction k)
  case 0
  then show ?case by simp
next
  case (Suc k)
  have "(2::nat) ^ Suc k < 2 ^ 64"
    using Suc.prems by (intro power_strict_increasing) auto
  then show ?case
    using Suc by (simp add: unat_word_ariths)
qed

lemma unat_plus64: "unat (a :: word64) + unat b < 2 ^ 64 \<Longrightarrow> unat (a + b) = unat a + unat b"
  by (simp add: unat_word_ariths)

lemma unat_sub_one64:
  assumes "0 < unat (a :: word64)"
  shows "unat (a - 1) = unat a - 1"
proof -
  have "1 \<le> a" using assms by (simp add: word_le_nat_alt)
  then show ?thesis by (simp add: unat_sub)
qed

text \<open>The common subterm of both roundings, \<open>n + 2 ^ k - 1\<close>, does not wrap.\<close>

lemma unat_add_align:
  assumes "k < 64" "unat (w :: word64) + 2 ^ k < 2 ^ 64"
  shows "unat (w + 2 ^ k - 1) = unat w + 2 ^ k - 1"
proof -
  have sum: "unat (w + 2 ^ k) = unat w + 2 ^ k"
    using assms by (simp add: unat_plus64 unat_exp64)
  then have "0 < unat (w + 2 ^ k)" by simp
  then show ?thesis by (simp only: unat_sub_one64 sum)
qed

lemma unat_drop_bit_div: "unat (drop_bit k (w :: word64)) = unat w div 2 ^ k"
  using unat_drop_bit_eq [of k w] by (simp only: drop_bit_eq_div [of k "unat w"])

lemma unat_push_drop:
  assumes "k < 64"
  shows "unat (push_bit k (drop_bit k (w :: word64))) = unat w div 2 ^ k * 2 ^ k"
proof -
  have "unat w div 2 ^ k * 2 ^ k \<le> unat w" by simp
  also have "\<dots> < 2 ^ 64" using unsigned_less [of w] by simp
  finally show ?thesis
    using assms by (simp add: push_bit_eq_mult unat_word_ariths unat_drop_bit_div unat_exp64)
qed

lemma unat_round_up_align:
  assumes "k < 64" "unat w + 2 ^ k < 2 ^ 64"
  shows "unat (round_up_align w (2 ^ k)) = ceil_div (unat w) (2 ^ k) * 2 ^ k"
  using unat_add_align [OF assms] assms(1)
  by (simp add: round_up_align_def and_not_mask_eq unat_push_drop ceil_div_def)

lemma unat_index_shift:
  assumes "k < 64" "unat w + 2 ^ k < 2 ^ 64" "0 < unat w"
  shows "unat (index_shift w k) = ceil_div (unat w) (2 ^ k) - 1"
proof -
  have "push_bit k (1 :: word64) = 2 ^ k"
    by (simp add: push_bit_eq_mult)
  moreover have "0 < ceil_div (unat w) (2 ^ k)"
    using assms(3) by (simp add: ceil_div_def div_greater_zero_iff)
  moreover have "unat (drop_bit k (w + 2 ^ k - 1)) = ceil_div (unat w) (2 ^ k)"
    by (simp add: unat_drop_bit_div unat_add_align [OF assms(1,2)] ceil_div_def)
  ultimately show ?thesis
    by (simp add: index_shift_def unat_sub_one64)
qed


text \<open>Both functions, on every request the size classes cover.\<close>

definition class_size :: "nat \<Rightarrow> nat" where
  "class_size n = ceil_div n (2 ^ granule n) * 2 ^ granule n"

definition class_index :: "nat \<Rightarrow> nat" where
  "class_index n = first_bucket n + (ceil_div (n - range_base n) (2 ^ granule n) - 1)"

lemmas class_defs = granule_def range_base_def first_bucket_def ceil_div_def
  class_size_def class_index_def

lemma size_range_cases [consumes 1, case_names r8 r16 r128 r1024 r8192]:
  assumes "(n::nat) \<le> 262144"
  obtains "n \<le> 128" | "128 < n" "n \<le> 1024" | "1024 < n" "n \<le> 8192"
    | "8192 < n" "n \<le> 65536" | "65536 < n" "n \<le> 262144"
  using assms by linarith

lemma round_up_unfold:
  "round_up sz =
     (if unat sz \<le> 128 then Inr (round_up_align sz (2 ^ 3))
      else if unat sz \<le> 1024 then Inr (round_up_align sz (2 ^ 4))
      else if unat sz \<le> 8192 then Inr (round_up_align sz (2 ^ 7))
      else if unat sz \<le> 65536 then Inr (round_up_align sz (2 ^ 10))
      else if unat sz \<le> 262144 then Inr (round_up_align sz (2 ^ 13))
      else Inl AssertFailed)"
  by (simp add: round_up_def word_le_nat_alt)

lemma index_unfold:
  "index sz =
     (if unat sz \<le> 128 then Inr (index_shift sz 3)
      else if unat sz \<le> 1024 then Inr (index_shift (sz - 128) 4 + 16)
      else if unat sz \<le> 8192 then Inr (index_shift (sz - 1024) 7 + 72)
      else if unat sz \<le> 65536 then Inr (index_shift (sz - 8192) 10 + 128)
      else if unat sz \<le> 262144 then Inr (index_shift (sz - 65536) 13 + 184)
      else Inl AssertFailed)"
  by (simp add: index_def word_le_nat_alt group_array_def)

lemma round_up_nat:
  assumes "unat sz \<le> 262144"
  shows "\<exists>a. round_up sz = Inr a \<and> unat a = class_size (unat sz)"
proof -
  have "unat sz + 2 ^ k < 2 ^ 64" if "k \<le> 13" for k
    using assms power_increasing [OF that, of "2::nat"] by simp
  then have ua: "unat (round_up_align sz (2 ^ k)) = ceil_div (unat sz) (2 ^ k) * 2 ^ k"
    if "k \<le> 13" for k
    using that by (intro unat_round_up_align) auto
  from assms show ?thesis
    by (cases rule: size_range_cases)
      (simp_all add: round_up_unfold class_size_def granule_def ua del: power_numeral)
qed

lemma unat_index_part:
  assumes "k \<le> 13" "unat (w :: word64) \<le> 262144" "0 < unat w" "unat g \<le> 184"
  shows "unat (index_shift w k + g) = unat g + (ceil_div (unat w) (2 ^ k) - 1)"
proof -
  have p: "(2::nat) ^ k \<le> 8192"
    using power_increasing [OF assms(1), of "2::nat"] by simp
  have "unat w + 2 ^ k < 2 ^ 64"
    using assms p by simp
  then have i: "unat (index_shift w k) = ceil_div (unat w) (2 ^ k) - 1"
    using assms by (intro unat_index_shift) auto
  have "ceil_div (unat w) (2 ^ k) \<le> unat w + 2 ^ k - 1"
    by (simp add: ceil_div_def div_le_dividend)
  then show ?thesis
    using assms p i by (simp add: unat_plus64)
qed

lemma index_nat:
  assumes "0 < unat sz" "unat sz \<le> 262144"
  shows "\<exists>i. index sz = Inr i \<and> unat i = class_index (unat sz)"
proof -
  have part: "unat (index_shift (sz - b) k + g) =
      unat g + (ceil_div (unat sz - unat b) (2 ^ k) - 1)"
    if "unat b < unat sz" "k \<le> 13" "unat g \<le> 184" for b g k
  proof -
    have "unat (sz - b) = unat sz - unat b"
      using that by (simp add: unat_sub word_le_nat_alt)
    then show ?thesis
      using that assms by (simp add: unat_index_part)
  qed
  show ?thesis
    using assms(2)
  proof (cases rule: size_range_cases)
    case r8
    then show ?thesis
      using assms part [of 0 3 0] by (simp add: index_unfold class_defs)
  next
    case r16
    then show ?thesis
      using part [of 128 4 16] by (simp add: index_unfold class_defs)
  next
    case r128
    then show ?thesis
      using part [of 1024 7 72] by (simp add: index_unfold class_defs)
  next
    case r1024
    then show ?thesis
      using part [of 8192 10 128] by (simp add: index_unfold class_defs)
  next
    case r8192
    then show ?thesis
      using part [of 65536 13 184] by (simp add: index_unfold class_defs)
  qed
qed

section \<open>Arithmetic of the size classes\<close>

lemma class_size_bounds:
  assumes "0 < n" "n \<le> 262144"
  shows "n \<le> class_size n" "class_size n \<le> 262144" "class_size n - n < 2 ^ granule n"
    "8 dvd class_size n"
  using assms(2) assms(1) by (cases rule: size_range_cases; simp add: class_defs; presburger)+

lemma class_size_waste:
  assumes "128 < n" "n \<le> 262144"
  shows "9 * (class_size n - n) < class_size n"
  using assms(2) assms(1) by (cases rule: size_range_cases; simp add: class_defs; presburger)

lemma class_index_bound: "0 < n \<Longrightarrow> n \<le> 262144 \<Longrightarrow> class_index n < NFREELIST"
  by (rule size_range_cases, assumption; simp add: class_defs NFREELIST_def; presburger)

text \<open>The size of the objects in bucket \<open>i\<close>.\<close>

definition bucket_size :: "nat \<Rightarrow> nat" where
  "bucket_size i =
     (if i < 16 then 8 * (i + 1) else if i < 72 then 128 + 16 * (i - 15)
      else if i < 128 then 1024 + 128 * (i - 71) else if i < 184 then 8192 + 1024 * (i - 127)
      else 65536 + 8192 * (i - 183))"

lemma ceil_div_shift:
  assumes "0 < m" "0 < (d::nat)"
  shows "ceil_div (c * d + m) d = c + ceil_div m d"
proof -
  have "c * d + m + d - 1 = c * d + (m + d - 1)"
    using assms by simp
  then show ?thesis
    using assms by (simp only: ceil_div_def div_mult_self3)
qed

lemma ceil_div_le:
  assumes "0 < d" "m \<le> t * d"
  shows "ceil_div m d \<le> t"
proof -
  have "(m + d - 1) div d \<le> (t * d + (d - 1)) div d"
    using assms by (intro div_le_mono) simp
  also have "\<dots> = t"
    using assms(1) by (simp only: div_mult_self3) simp
  finally show ?thesis by (simp add: ceil_div_def)
qed

lemma ceil_div_pos: "0 < d \<Longrightarrow> 0 < m \<Longrightarrow> 0 < ceil_div m d"
  by (simp add: ceil_div_def div_greater_zero_iff)

lemma bucket_size_class_index:
  assumes "0 < n" "n \<le> 262144"
  shows "bucket_size (class_index n) = class_size n"
proof -
  have q: "ceil_div n d = c + ceil_div (n - c * d) d \<and> 0 < ceil_div (n - c * d) d \<and>
      ceil_div (n - c * d) d \<le> t"
    if "c * d < n" "n \<le> (c + t) * d" "0 < d" for c d t
    using that ceil_div_shift [of "n - c * d" d c] ceil_div_pos [of d "n - c * d"]
      ceil_div_le [of d "n - c * d" t] by (simp add: algebra_simps)
  show ?thesis
    using assms(2)
  proof (cases rule: size_range_cases)
    case r8
    with assms q [of 0 8 16] show ?thesis
      by (auto simp: class_size_def class_index_def granule_def range_base_def first_bucket_def
          bucket_size_def)
  next
    case r16
    with q [of 8 16 56] show ?thesis
      by (auto simp: class_size_def class_index_def granule_def range_base_def first_bucket_def
          bucket_size_def)
  next
    case r128
    with q [of 8 128 56] show ?thesis
      by (auto simp: class_size_def class_index_def granule_def range_base_def first_bucket_def
          bucket_size_def)
  next
    case r1024
    with q [of 8 1024 56] show ?thesis
      by (auto simp: class_size_def class_index_def granule_def range_base_def first_bucket_def
          bucket_size_def)
  next
    case r8192
    with q [of 8 8192 24] show ?thesis
      by (auto simp: class_size_def class_index_def granule_def range_base_def first_bucket_def
          bucket_size_def)
  qed
qed

lemma ceil_div_mult [simp]:
  assumes "0 < d"
  shows "ceil_div (q * d) d = q"
proof -
  have "q * d + d - 1 = q * d + (d - 1)"
    using assms by simp
  moreover have "(q * d + (d - 1)) div d = q"
    using assms by (simp only: div_mult_self3) simp
  ultimately show ?thesis
    by (simp only: ceil_div_def)
qed

lemma class_size_le:
  assumes "n \<le> t * 2 ^ granule n"
  shows "class_size n \<le> t * 2 ^ granule n"
  using ceil_div_le [OF _ assms] by (simp add: class_size_def)

lemma granule_class_size:
  assumes "0 < n" "n \<le> 262144"
  shows "granule (class_size n) = granule n"
proof -
  have ge: "n \<le> class_size n" by (rule class_size_bounds(1) [OF assms])
  show ?thesis
    using assms(2)
  proof (cases rule: size_range_cases)
    case r8
    with class_size_le [of n 16] show ?thesis by (simp add: granule_def)
  next
    case r16
    with ge class_size_le [of n 64] show ?thesis by (simp add: granule_def)
  next
    case r128
    with ge class_size_le [of n 64] show ?thesis by (simp add: granule_def)
  next
    case r1024
    with ge class_size_le [of n 64] show ?thesis by (simp add: granule_def)
  next
    case r8192
    with ge show ?thesis by (simp add: granule_def)
  qed
qed

lemma class_size_idem:
  assumes "0 < n" "n \<le> 262144"
  shows "class_size (class_size n) = class_size n"
proof -
  have "class_size (class_size n) = ceil_div (class_size n) (2 ^ granule n) * 2 ^ granule n"
    by (simp add: class_size_def [of "class_size n"] granule_class_size [OF assms])
  then show ?thesis
    by (simp add: class_size_def [of n])
qed

lemma bucket_size_mono:
  assumes "i < j"
  shows "bucket_size i < bucket_size j"
proof -
  have "bucket_size k < bucket_size (Suc k)" for k
    by (auto simp: bucket_size_def)
  then show ?thesis
    using assms by (rule lift_Suc_mono_less)
qed

lemma bucket_size_inj: "bucket_size i = bucket_size j \<longleftrightarrow> i = j"
  by (metis bucket_size_mono less_irrefl nat_neq_iff)

lemma class_index_eq_iff:
  assumes "0 < m" "m \<le> 262144" "0 < n" "n \<le> 262144"
  shows "class_index m = class_index n \<longleftrightarrow> class_size m = class_size n"
  using assms by (simp flip: bucket_size_class_index add: bucket_size_inj)

lemma class_index_class_size:
  assumes "0 < n" "n \<le> 262144"
  shows "class_index (class_size n) = class_index n"
  using assms class_size_bounds [OF assms]
  by (simp add: class_index_eq_iff class_size_idem)

section \<open>Batches\<close>

lemma num_move_size_nat:
  assumes "0 < unat sz"
  shows "\<exists>k. num_move_size sz = Inr k \<and> unat k = max 2 (min 512 (262144 div unat sz))"
proof -
  let ?q = "262144 div unat sz"
  have q: "unat (MAXBYTES div sz) = ?q"
    by (simp add: MAXBYTES_def unat_div_distrib)
  have le: "?q \<le> 262144" by simp
  have "(ucast (MAXBYTES div sz) :: 32 word) = of_nat ?q"
    by (metis q of_nat_unat unsigned_def)
  moreover have "signed_take_bit 31 (int q) = int q" if "q \<le> 262144" for q
    using that by (simp add: signed_take_bit_int_eq_self)
  from this [OF le] have "signed_take_bit 31 (int ?q) = int ?q" .
  ultimately have "sint (ucast (MAXBYTES div sz) :: 32 word) = int ?q"
    by (simp add: signed_of_nat)
  moreover have "unat (word_of_int (int k) :: word64) = k" if "k \<le> 512" for k
    using that by (simp add: unat_of_nat)
  ultimately show ?thesis
    using assms by (auto simp: num_move_size_def Let_def word_less_nat_alt)
qed

lemma batch_pages_bounds:
  assumes "0 < n" "n \<le> 262144"
  defines "k \<equiv> max 2 (min 512 (262144 div n :: nat))"
  shows "k * n \<le> 524288" "n \<le> max 1 (k * n div 8192) * 8192"
proof -
  consider "262144 div n < 2" | "2 \<le> 262144 div n" "262144 div n \<le> 512" | "512 < 262144 div n"
    by linarith
  then have "k * n \<le> 524288 \<and> n \<le> max 1 (k * n div 8192) * 8192"
  proof cases
    case 1
    then have "k = 2" by (simp add: k_def)
    then show ?thesis using assms by simp
  next
    case 2
    then have k: "k = 262144 div n" by (simp add: k_def)
    have "262144 = k * n + 262144 mod n"
      by (simp add: k)
    moreover have "262144 mod n < n" using assms by simp
    moreover have "2 * n \<le> k * n" using 2 k by simp
    ultimately have "n \<le> 131072" "131072 \<le> k * n" "k * n \<le> 262144" by linarith+
    then show ?thesis using div_le_mono [of 131072 "k * n" 8192] by simp
  next
    case 3
    then have k: "k = 512" by (simp add: k_def)
    have "512 * n \<le> 262144 div n * n" using 3 by simp
    also have "\<dots> \<le> 262144" by simp
    finally show ?thesis using k by simp
  qed
  then show "k * n \<le> 524288" "n \<le> max 1 (k * n div 8192) * 8192" by blast+
qed

lemma num_move_page_nat:
  assumes "0 < unat sz" "unat sz \<le> 262144"
  shows "\<exists>p. num_move_page sz = Inr p \<and>
    unat p = max 1 (max 2 (min 512 (262144 div unat sz)) * unat sz div 8192)"
proof -
  let ?k = "max 2 (min 512 (262144 div unat sz))"
  obtain k where k: "num_move_size sz = Inr k" "unat k = ?k"
    using num_move_size_nat [OF assms(1)] by blast
  have "unat (k * sz) = ?k * unat sz"
    using batch_pages_bounds(1) [OF assms] k(2) by (simp add: unat_word_ariths)
  then have d: "unat (drop_bit PAGE_SHIFT (k * sz)) = ?k * unat sz div 8192"
    by (simp add: unat_drop_bit_div PAGE_SHIFT_def)
  then have "drop_bit PAGE_SHIFT (k * sz) = 0 \<longleftrightarrow> ?k * unat sz div 8192 = 0"
    by (metis unat_eq_zero)
  then show ?thesis
    using k d by (auto simp: num_move_page_def Let_def)
qed

section \<open>Properties\<close>



text \<open>
  C13: the buckets are homogeneous. Every request of 1 byte to 256 KiB has a bucket below
  \<open>NFREELIST\<close>, the bucket of the rounded size (used by \<^verbatim>\<open>Allocate\<close>) is the bucket of the
  request, and two requests share a bucket exactly when they are rounded to the same size, so
  no free list ever mixes objects of different sizes.
\<close>

theorem buckets_homogeneous:
  assumes "0 < unat s" "unat s \<le> 262144" "0 < unat t" "unat t \<le> 262144"
  shows "\<exists>i a. index s = Inr i \<and> unat i < NFREELIST \<and> round_up s = Inr a \<and> index a = Inr i \<and>
             (index t = Inr i \<longleftrightarrow> round_up t = Inr a)"
proof -
  obtain i a where i: "index s = Inr i" "unat i = class_index (unat s)"
      and a: "round_up s = Inr a" "unat a = class_size (unat s)"
    using index_nat [OF assms(1,2)] round_up_nat [OF assms(2)] by blast
  obtain j b where j: "index t = Inr j" "unat j = class_index (unat t)"
      and b: "round_up t = Inr b" "unat b = class_size (unat t)"
    using index_nat [OF assms(3,4)] round_up_nat [OF assms(4)] by blast
  have "0 < unat a" "unat a \<le> 262144"
    using a class_size_bounds [OF assms(1,2)] assms(1) by simp_all
  then obtain k where "index a = Inr k" "unat k = class_index (unat a)"
    using index_nat by blast
  then have "index a = Inr i"
    using i a assms by (simp add: class_index_class_size word_unat_eq_iff)
  moreover have "j = i \<longleftrightarrow> b = a"
    using i j a b assms by (simp add: word_unat_eq_iff class_index_eq_iff)
  ultimately show ?thesis
    using i a j b class_index_bound [OF assms(1,2)] by auto
qed

theorem buckets_homogeneous_witness:
  "\<exists>i a. index 1 = Inr i \<and> unat i < NFREELIST \<and> round_up 1 = Inr a \<and> index a = Inr i \<and>
         (index 262144 = Inr i \<longleftrightarrow> round_up 262144 = Inr a)"
  by (rule buckets_homogeneous) simp_all

text \<open>
  C36: the batch sizes. \<^verbatim>\<open>num_move_size\<close> is between 2 and 512, and \<^verbatim>\<open>num_move_page\<close> asks for
  between 1 and 64 pages, always enough for at least one object of the class; so the page
  cache serves every such request from its buckets and never from the path for large spans.
\<close>

theorem batch_sizes_bounded:
  assumes "0 < unat sz" "unat sz \<le> 262144"
  shows "\<exists>k p. num_move_size sz = Inr k \<and> 2 \<le> k \<and> k \<le> 512 \<and>
             num_move_page sz = Inr p \<and> 1 \<le> p \<and> p \<le> 64 \<and> unat sz \<le> unat p * 8192"
proof -
  obtain k p where k: "num_move_size sz = Inr k" "unat k = max 2 (min 512 (262144 div unat sz))"
      and p: "num_move_page sz = Inr p" "unat p = max 1 (unat k * unat sz div 8192)"
    using num_move_size_nat [OF assms(1)] num_move_page_nat [OF assms] by metis
  have "unat k * unat sz \<le> 524288"
    using batch_pages_bounds(1) [OF assms] k by simp
  then have "unat k * unat sz div 8192 \<le> 64"
    using div_le_mono [of "unat k * unat sz" 524288 8192] by simp
  moreover have sz: "unat sz \<le> unat p * 8192"
    using batch_pages_bounds(2) [OF assms] k p by simp
  moreover have "2 \<le> unat k" "unat k \<le> 512" "1 \<le> unat p"
    using k(2) p(2) by simp_all
  ultimately have "2 \<le> k" "k \<le> 512" "1 \<le> p" "p \<le> 64"
    using p(2) by (simp_all add: word_le_nat_alt)
  with k(1) p(1) sz show ?thesis by blast
qed

theorem batch_sizes_bounded_witness:
  "\<exists>k p. num_move_size 24 = Inr k \<and> 2 \<le> k \<and> k \<le> 512 \<and>
         num_move_page 24 = Inr p \<and> 1 \<le> p \<and> p \<le> 64 \<and> unat (24 :: word64) \<le> unat p * 8192"
  by (rule batch_sizes_bounded) simp_all

text \<open>
  Outside the covered range. Above 256 KiB both \<^verbatim>\<open>round_up\<close> and \<^verbatim>\<open>index\<close> end in their
  \<^verbatim>\<open>assert(false)\<close>; for a request of 0 bytes \<^verbatim>\<open>round_up\<close> is 0 and the bucket index wraps
  around to \<open>2 ^ 64 - 1\<close>, far outside the free list array.
\<close>

theorem size_class_edges:
  "(262144 < unat sz \<longrightarrow> round_up sz = Inl AssertFailed \<and> index sz = Inl AssertFailed) \<and>
   round_up 0 = Inr 0 \<and> index 0 = Inr (2 ^ 64 - 1)"
proof -
  have "262144 < unat sz \<longrightarrow> round_up sz = Inl AssertFailed \<and> index sz = Inl AssertFailed"
    by (simp add: round_up_unfold index_unfold)
  moreover have "round_up 0 = Inr 0"
    by (simp add: round_up_def round_up_align_def)
  moreover have "index 0 = Inr (2 ^ 64 - 1)"
    by (simp add: index_def index_shift_def)
  ultimately show ?thesis by blast
qed

theorem size_class_edges_witness:
  "round_up 262145 = Inl AssertFailed \<and> index 262145 = Inl AssertFailed"
  using size_class_edges [of 262145] by simp

end
