(* ===== verification/PageCache.thy ===== *)
theory PageCache
  imports SpanList PageMap SizeClass
begin

text \<open>
  The page cache (\<^verbatim>\<open>src/memory/PageCache.hpp\<close>, \<^verbatim>\<open>PageCache.cc\<close>): spans of whole pages in buckets by
  their number of pages, cut from larger spans and merged with their neighbours when they come
  back. Span objects come from the object pool; the first word of a span object is its page number,
  which is also the word that links it into the pool's free list when it is deleted. The operations
  are the critical sections under \<^verbatim>\<open>_mtx\<close>.
\<close>

section \<open>State\<close>

definition PAGE_SIZE :: nat where
  "PAGE_SIZE = 2 ^ 13"

text \<open>Seven words and a flag, padded.\<close>

definition sizeof_Span :: nat where
  "sizeof_Span = 64"

text \<open>\<open>pagelist i\<close> is the head node of the \<open>i\<close>-th bucket, \<open>pc_os\<close> the state of the system.\<close>

record 'o page_cache =
  pc_spans :: spans
  pagelist :: "nat \<Rightarrow> addr"
  spanPool :: object_pool
  id_span_map :: page_map
  pc_os :: 'o

text \<open>
  The constructor makes a head node for every bucket, at the addresses that \<open>pl\<close> gives; \<open>h\<close> is what
  was in the memory before.
\<close>

definition PageCache_new :: "(nat \<Rightarrow> addr) \<Rightarrow> spans \<Rightarrow> 'o \<Rightarrow> 'o page_cache result" where
  "PageCache_new pl h os =
     bindR (foldR (\<lambda>i. SpanList_new (pl i)) [0..<NPAGES] h) (\<lambda>h1.
       Inr \<lparr>pc_spans = h1, pagelist = pl, spanPool = objectPool_init, id_span_map = PageMap_init,
            pc_os = os\<rparr>)"

section \<open>Span objects\<close>

definition first_words :: "spans \<Rightarrow> heap" where
  "first_words h = (\<lambda>a. pageid (h a))"

definition spanPool_New :: "'o sbrk \<Rightarrow> 'o page_cache \<Rightarrow> (addr \<times> 'o page_cache) result" where
  "spanPool_New sbrk c =
     bindR (New (\<lambda>a m. m) sbrk sizeof_Span (first_words (pc_spans c), spanPool c) (pc_os c))
       (\<lambda>(p, (m, P), os).
          Inr (p, c\<lparr>pc_spans := (pc_spans c)(p := Span_init (pc_spans c p)), spanPool := P, pc_os := os\<rparr>))"

definition spanPool_Delete :: "addr \<Rightarrow> 'o page_cache \<Rightarrow> 'o page_cache result" where
  "spanPool_Delete p c =
     bindR (Delete p (first_words (pc_spans c), spanPool c)) (\<lambda>(m, P).
       Inr (c\<lparr>pc_spans := (\<lambda>a. (pc_spans c a)\<lparr>pageid := m a\<rparr>), spanPool := P\<rparr>))"

text \<open>Assignments to fields of a span, and to the map.\<close>

definition upd_field :: "addr \<Rightarrow> (span \<Rightarrow> span) \<Rightarrow> 'o page_cache \<Rightarrow> 'o page_cache result" where
  "upd_field p f c = bindR (upd_span p f (pc_spans c)) (\<lambda>h. Inr (c\<lparr>pc_spans := h\<rparr>))"

definition set_page :: "nat \<Rightarrow> addr \<Rightarrow> 'o page_cache \<Rightarrow> 'o page_cache result" where
  "set_page k p c = bindR (set_span k p (id_span_map c)) (\<lambda>pm. Inr (c\<lparr>id_span_map := pm\<rparr>))"

definition push_page :: "nat \<Rightarrow> addr \<Rightarrow> 'o page_cache \<Rightarrow> 'o page_cache result" where
  "push_page i p c = bindR (push_front (pagelist c i) p (pc_spans c)) (\<lambda>h. Inr (c\<lparr>pc_spans := h\<rparr>))"

definition pop_page :: "nat \<Rightarrow> 'o page_cache \<Rightarrow> (addr \<times> 'o page_cache) result" where
  "pop_page i c =
     bindR (pop_front (pagelist c i) (pc_spans c)) (\<lambda>(p, h). Inr (p, c\<lparr>pc_spans := h\<rparr>))"

section \<open>Allocation\<close>

text \<open>Requests of more than 128 pages go to the system.\<close>

definition new_Span_large :: "'o sbrk \<Rightarrow> size_t \<Rightarrow> 'o page_cache \<Rightarrow> (addr \<times> 'o page_cache) result" where
  "new_Span_large sbrk NumPage c =
     bindR (SystemAlloc_sbrk sbrk NumPage (pc_os c)) (\<lambda>(ptr, os).
     bindR (spanPool_New sbrk (c\<lparr>pc_os := os\<rparr>)) (\<lambda>(sp, c1).
     let pid = ptr div PAGE_SIZE in
     bindR (upd_field sp (\<lambda>s. s\<lparr>pageid := pid, npage := NumPage,
              objsize := NumPage * PAGE_SIZE mod size_mod\<rparr>) c1) (\<lambda>c2.
     bindR (set_page pid sp c2) (\<lambda>c3. Inr (sp, c3)))))"

text \<open>A span of the bucket itself; the loop sets the same key in every round.\<close>

definition new_Span_exact :: "size_t \<Rightarrow> 'o page_cache \<Rightarrow> (addr \<times> 'o page_cache) result" where
  "new_Span_exact NumPage c =
     bindR (pop_page NumPage c) (\<lambda>(sp, c1).
     bindR (deref_span sp (pc_spans c1)) (\<lambda>s.
     bindR (foldR (\<lambda>i. set_page (pageid s) sp) [0..<npage s] c1) (\<lambda>c2. Inr (sp, c2))))"

text \<open>The first bucket of a list of buckets that is not empty.\<close>

fun find_bucket :: "'o page_cache \<Rightarrow> nat list \<Rightarrow> nat option result" where
  "find_bucket c [] = Inr None"
| "find_bucket c (i # is) =
     bindR (sl_empty (pagelist c i) (pc_spans c)) (\<lambda>e. if \<not> e then Inr (Some i) else find_bucket c is)"

text \<open>A span of a larger bucket is cut at its front; the rest goes into its bucket.\<close>

definition new_Span_split ::
    "'o sbrk \<Rightarrow> nat \<Rightarrow> size_t \<Rightarrow> 'o page_cache \<Rightarrow> (addr \<times> 'o page_cache) result" where
  "new_Span_split sbrk i NumPage c =
     bindR (spanPool_New sbrk c) (\<lambda>(sp, c1).
     bindR (pop_page i c1) (\<lambda>(n, c2).
     bindR (deref_span n (pc_spans c2)) (\<lambda>s.
     bindR (upd_field sp (\<lambda>t. t\<lparr>pageid := pageid s, npage := NumPage\<rparr>) c2) (\<lambda>c3.
     bindR (upd_field n (\<lambda>t. t\<lparr>pageid := szadd (pageid t) NumPage, npage := szsub (npage t) NumPage\<rparr>) c3)
       (\<lambda>c4.
     bindR (deref_span n (pc_spans c4)) (\<lambda>r.
     bindR (push_page (npage r) n c4) (\<lambda>c5.
     bindR (set_page (pageid r) n c5) (\<lambda>c6.
     bindR (set_page (szsub (szadd (pageid r) (npage r)) 1) n c6) (\<lambda>c7.
     bindR (deref_span sp (pc_spans c7)) (\<lambda>t.
     bindR (foldR (\<lambda>j. set_page (szadd (pageid t) j) sp) [0..<npage t] c7) (\<lambda>c8.
     Inr (sp, c8))))))))))))"

text \<open>With all buckets empty, 128 pages are taken from the system into the last bucket.\<close>

definition grow :: "'o sbrk \<Rightarrow> 'o page_cache \<Rightarrow> 'o page_cache result" where
  "grow sbrk c =
     bindR (spanPool_New sbrk c) (\<lambda>(sp, c1).
     bindR (SystemAlloc_sbrk sbrk (NPAGES - 1) (pc_os c1)) (\<lambda>(ptr, os).
     let pid = ptr div PAGE_SIZE; bytes = (NPAGES - 1) * PAGE_SIZE in
     bindR (upd_field sp (\<lambda>s. s\<lparr>pageid := pid, npage := NPAGES - 1, objsize := bytes\<rparr>)
              (c1\<lparr>pc_os := os\<rparr>)) (\<lambda>c2.
     bindR (Ensure sbrk pid bytes (id_span_map c2, pc_os c2)) (\<lambda>(_, pm, os1).
     push_page (NPAGES - 1) sp (c2\<lparr>id_span_map := pm, pc_os := os1\<rparr>)))))"

text \<open>\<^verbatim>\<open>new_Span\<close>; the number of nested calls is bounded by the first argument.\<close>

fun new_Span :: "nat \<Rightarrow> 'o sbrk \<Rightarrow> size_t \<Rightarrow> 'o page_cache \<Rightarrow> (addr \<times> 'o page_cache) result" where
  "new_Span 0 sbrk NumPage c = Inl Diverges"
| "new_Span (Suc f) sbrk NumPage c =
     bindR (assertR (NumPage > 0)) (\<lambda>_.
     if NumPage \<ge> NPAGES then new_Span_large sbrk NumPage c
     else
       bindR (sl_empty (pagelist c NumPage) (pc_spans c)) (\<lambda>e.
       if \<not> e then new_Span_exact NumPage c
       else
         bindR (find_bucket c [NumPage + 1..<NPAGES]) (\<lambda>r.
         case r of
           Some i \<Rightarrow> new_Span_split sbrk i NumPage c
         | None \<Rightarrow> bindR (grow sbrk c) (new_Span f sbrk NumPage))))"

definition map_object_to_Span :: "addr \<Rightarrow> 'o page_cache \<Rightarrow> addr result" where
  "map_object_to_Span obj c =
     (let ret = get_span (obj div PAGE_SIZE) (id_span_map c)
      in bindR (assertR (ret \<noteq> 0)) (\<lambda>_. Inr ret))"

section \<open>Release\<close>

text \<open>
  The two merging loops. The first argument bounds the number of rounds; each round makes the span
  longer, so that \<open>NPAGES\<close> rounds are enough.
\<close>

fun merge_prev :: "nat \<Rightarrow> addr \<Rightarrow> 'o page_cache \<Rightarrow> 'o page_cache result" where
  "merge_prev 0 sp c = Inl Diverges"
| "merge_prev (Suc f) sp c =
     bindR (deref_span sp (pc_spans c)) (\<lambda>s.
     let ret = get_span (szsub (pageid s) 1) (id_span_map c) in
     if ret = 0 then Inr c
     else
       let r = pc_spans c ret in
       if isUse r then Inr c
       else if szadd (npage r) (npage s) \<ge> NPAGES then Inr c
       else
         bindR (upd_field sp (\<lambda>t. t\<lparr>pageid := pageid r, npage := szadd (npage t) (npage r)\<rparr>) c) (\<lambda>c1.
         bindR (sl_erase (pagelist c1 (npage r)) ret (pc_spans c1)) (\<lambda>h.
         bindR (spanPool_Delete ret (c1\<lparr>pc_spans := h\<rparr>)) (merge_prev f sp))))"

fun merge_next :: "nat \<Rightarrow> addr \<Rightarrow> 'o page_cache \<Rightarrow> 'o page_cache result" where
  "merge_next 0 sp c = Inl Diverges"
| "merge_next (Suc f) sp c =
     bindR (deref_span sp (pc_spans c)) (\<lambda>s.
     let ret = get_span (szadd (pageid s) (npage s)) (id_span_map c) in
     if ret = 0 then Inr c
     else
       let r = pc_spans c ret in
       if isUse r then Inr c
       else if szadd (npage r) (npage s) \<ge> NPAGES then Inr c
       else
         bindR (upd_field sp (\<lambda>t. t\<lparr>npage := szadd (npage t) (npage r)\<rparr>) c) (\<lambda>c1.
         bindR (sl_erase (pagelist c1 (npage r)) ret (pc_spans c1)) (\<lambda>h.
         bindR (spanPool_Delete ret (c1\<lparr>pc_spans := h\<rparr>)) (merge_next f sp))))"

text \<open>\<^verbatim>\<open>SystemFree_brk\<close> moves the end of the data segment to the given address.\<close>

definition SystemFree_brk :: "(addr \<Rightarrow> 'o \<Rightarrow> 'o) \<Rightarrow> addr \<Rightarrow> 'o \<Rightarrow> 'o" where
  "SystemFree_brk brk ptr os = brk ptr os"

definition relase_to_PageCache ::
    "(addr \<Rightarrow> 'o \<Rightarrow> 'o) \<Rightarrow> addr \<Rightarrow> 'o page_cache \<Rightarrow> 'o page_cache result" where
  "relase_to_PageCache brk sp c =
     bindR (deref_span sp (pc_spans c)) (\<lambda>s.
     if npage s \<ge> NPAGES then
       spanPool_Delete sp (c\<lparr>pc_os := SystemFree_brk brk (pageid s * PAGE_SIZE mod size_mod) (pc_os c)\<rparr>)
     else
       bindR (merge_prev NPAGES sp c) (\<lambda>c1.
       bindR (merge_next NPAGES sp c1) (\<lambda>c2.
       bindR (deref_span sp (pc_spans c2)) (\<lambda>t.
       bindR (push_page (npage t) sp c2) (\<lambda>c3.
       bindR (upd_field sp (\<lambda>t. t\<lparr>isUse := False\<rparr>) c3) (\<lambda>c4.
       bindR (set_page (pageid t) sp c4) (\<lambda>c5.
       set_page (szsub (szadd (pageid t) (npage t)) 1) sp c5)))))))"

end
