(* ===== verification/PageCacheInv.thy ===== *)
theory PageCacheInv
  imports PageCache "HOL-Library.Multiset"
begin

text \<open>
  The invariant of the page cache: the buckets are well-formed lists, span objects are disjoint
  blocks of the pool, no page belongs to two spans, and the page map leads from the first and the
  last page of a span to the span. Allocation of up to 127 pages and release keep it.
\<close>

section \<open>Bucket lists\<close>

text \<open>The list operations change links only.\<close>

definition same_data :: "spans \<Rightarrow> spans \<Rightarrow> bool" where
  "same_data h h' \<longleftrightarrow>
     (\<forall>p. pageid (h' p) = pageid (h p) \<and> npage (h' p) = npage (h p) \<and> isUse (h' p) = isUse (h p) \<and>
        usecount (h' p) = usecount (h p) \<and> objlist (h' p) = objlist (h p) \<and> objsize (h' p) = objsize (h p))"

definition same_links :: "spans \<Rightarrow> spans \<Rightarrow> addr set \<Rightarrow> bool" where
  "same_links h h' A \<longleftrightarrow> (\<forall>p\<in>A. nxt (h' p) = nxt (h p) \<and> prv (h' p) = prv (h p))"

lemma same_data_refl [simp]: "same_data h h"
  by (simp add: same_data_def)

lemma same_data_trans: "same_data h h1 \<Longrightarrow> same_data h1 h2 \<Longrightarrow> same_data h h2"
  by (simp add: same_data_def)

lemma upd_link_data:
  "upd_span p (\<lambda>s. s\<lparr>nxt := a\<rparr>) h = Inr h' \<Longrightarrow> same_data h h'"
  "upd_span p (\<lambda>s. s\<lparr>prv := a\<rparr>) h = Inr h' \<Longrightarrow> same_data h h'"
  by (auto simp: upd_span_def same_data_def split: if_splits)

lemma sl_insert_data: "sl_insert cur x h = Inr h' \<Longrightarrow> same_data h h'"
  by (auto simp: sl_insert_def bindR_eq_Inr Let_def dest!: upd_link_data intro: same_data_trans)

lemma sl_erase_data: "sl_erase hp x h = Inr h' \<Longrightarrow> same_data h h'"
  by (auto simp: sl_erase_def bindR_eq_Inr Let_def dest!: upd_link_data intro: same_data_trans)

lemma push_front_data: "push_front hp x h = Inr h' \<Longrightarrow> same_data h h'"
  by (auto simp: push_front_def bindR_eq_Inr dest: sl_insert_data)

lemma pop_front_data: "pop_front hp h = Inr (x, h') \<Longrightarrow> same_data h h'"
  by (auto simp: pop_front_def bindR_eq_Inr Let_def dest: sl_erase_data)

lemma sl_rep_cong: "same_links h h' (set (hp # xs)) \<Longrightarrow> sl_rep h' hp xs \<longleftrightarrow> sl_rep h hp xs"
  unfolding sl_rep_def same_links_def
  by (subst linked_frame [of "hp # xs @ [hp]" h' h]) (auto simp: butlast_append)

text \<open>All buckets.\<close>

definition bucket_ids :: "nat list" where
  "bucket_ids = [1..<NPAGES]"

lemma bucket_ids [simp]: "i \<in> set bucket_ids \<longleftrightarrow> 0 < i \<and> i < NPAGES" "distinct bucket_ids"
  by (auto simp: bucket_ids_def)

definition nodes :: "(nat \<Rightarrow> addr) \<Rightarrow> (nat \<Rightarrow> addr list) \<Rightarrow> addr list" where
  "nodes pl fr = concat (map (\<lambda>i. pl i # fr i) bucket_ids)"

definition frees :: "(nat \<Rightarrow> addr list) \<Rightarrow> addr set" where
  "frees fr = (\<Union>i\<in>set bucket_ids. set (fr i))"

definition links_ok :: "spans \<Rightarrow> (nat \<Rightarrow> addr) \<Rightarrow> (nat \<Rightarrow> addr list) \<Rightarrow> bool" where
  "links_ok h pl fr \<longleftrightarrow> (\<forall>i\<in>set bucket_ids. sl_rep h (pl i) (fr i))"

lemma mset_concat_upd:
  assumes "distinct L" "i \<in> set L"
  shows "mset (concat (map (\<lambda>j. pl j # (fr(i := ys)) j) L)) + mset (fr i) =
    mset (concat (map (\<lambda>j. pl j # fr j) L)) + mset ys"
  using assms
proof (induction L)
  case (Cons a L)
  show ?case
  proof (cases "a = i")
    case True
    then have "i \<notin> set L" using Cons.prems by simp
    then have "mset (concat (map (\<lambda>j. pl j # (fr(i := ys)) j) L)) = mset (concat (map (\<lambda>j. pl j # fr j) L))"
      by (intro arg_cong [where f = "\<lambda>x. mset (concat x)"] map_cong refl) auto
    with True show ?thesis by (simp del: fun_upd_apply add: fun_upd_same)
  next
    case False
    then show ?thesis using Cons by (simp add: ac_simps)
  qed
qed simp

lemma mset_nodes_upd:
  "i \<in> set bucket_ids \<Longrightarrow>
   mset (nodes pl (fr(i := ys))) + mset (fr i) = mset (nodes pl fr) + mset ys"
  unfolding nodes_def by (rule mset_concat_upd) simp_all

lemma mset_nodes_insert:
  "i \<in> set bucket_ids \<Longrightarrow> mset (nodes pl (fr(i := x # fr i))) = add_mset x (mset (nodes pl fr))"
  using mset_nodes_upd [of i pl fr "x # fr i"] by simp

lemma mset_nodes_remove:
  assumes "i \<in> set bucket_ids" "fr i = as @ x # bs"
  shows "add_mset x (mset (nodes pl (fr(i := as @ bs)))) = mset (nodes pl fr)"
  using mset_nodes_upd [OF assms(1), of pl fr "as @ bs"] assms(2) by simp

lemma in_nodes:
  "i \<in> set bucket_ids \<Longrightarrow> set (pl i # fr i) \<subseteq> set (nodes pl fr)"
  unfolding nodes_def set_concat set_map by blast

lemma frees_nodes: "frees fr \<subseteq> set (nodes pl fr)"
  by (auto simp: frees_def nodes_def)

lemma frees_upd: "i \<in> set bucket_ids \<Longrightarrow> frees (fr(i := ys)) \<subseteq> frees fr \<union> set ys"
  by (auto simp: frees_def split: if_splits)

lemma nodes_apart:
  assumes "distinct (nodes pl fr)" "i \<in> set bucket_ids" "j \<in> set bucket_ids" "i \<noteq> j"
  shows "set (pl i # fr i) \<inter> set (pl j # fr j) = {}"
proof -
  have "distinct (concat (map (\<lambda>i. pl i # fr i) L)) \<Longrightarrow> i \<in> set L \<Longrightarrow> j \<in> set L \<Longrightarrow> ?thesis" for L
  proof (induction L)
    case (Cons a L)
    then show ?case using assms(4) by fastforce
  qed simp
  then show ?thesis using assms(1-3) unfolding nodes_def by blast
qed

lemma links_ok_upd:
  assumes "links_ok h pl fr" "distinct (nodes pl fr)" "i \<in> set bucket_ids"
    "sl_rep h' (pl i) ys" "\<And>p. p \<in> set (nodes pl fr) \<Longrightarrow> p \<notin> set (pl i # fr i) \<Longrightarrow> h' p = h p"
  shows "links_ok h' pl (fr(i := ys))"
  unfolding links_ok_def
proof
  fix j assume j: "j \<in> set bucket_ids"
  show "sl_rep h' (pl j) ((fr(i := ys)) j)"
  proof (cases "j = i")
    case False
    have "h' p = h p" if "p \<in> set (pl j # fr j)" for p
      using assms(5) [of p] nodes_apart [OF assms(2,3) j] False that in_nodes [OF j, of pl fr] by blast
    then have "same_links h h' (set (pl j # fr j))" by (simp add: same_links_def)
    with False assms(1) j show ?thesis by (simp add: sl_rep_cong links_ok_def)
  qed (use assms(4) in simp)
qed

lemma links_ok_cong:
  "links_ok h pl fr \<Longrightarrow> same_links h h' (set (nodes pl fr)) \<Longrightarrow> links_ok h' pl fr"
  unfolding links_ok_def
  using in_nodes [of _ pl fr] sl_rep_cong [of h h'] by (metis same_links_def subsetD)

lemma push_links:
  assumes "links_ok h pl fr" "distinct (nodes pl fr)" "i \<in> set bucket_ids" "x \<noteq> 0" "x \<notin> set (nodes pl fr)"
  shows "\<exists>h'. push_front (pl i) x h = Inr h' \<and> links_ok h' pl (fr(i := x # fr i)) \<and> same_data h h' \<and>
    (\<forall>p. p \<notin> set (nodes pl fr) \<longrightarrow> p \<noteq> x \<longrightarrow> h' p = h p)"
proof -
  have "sl_rep h (pl i) (fr i)" "x \<notin> set (pl i # fr i)"
    using assms(1,3,5) in_nodes [OF assms(3), of pl fr] by (auto simp: links_ok_def)
  from push_front_ok [OF this(1) assms(4) this(2)]
  obtain h' where h': "push_front (pl i) x h = Inr h'" "sl_rep h' (pl i) (x # fr i)"
      "\<forall>p. p \<notin> set (x # pl i # fr i) \<longrightarrow> h' p = h p" by blast
  have "links_ok h' pl (fr(i := x # fr i))"
    using h'(3) assms(5) by (intro links_ok_upd [OF assms(1-3) h'(2)]) auto
  moreover have "h' p = h p" if "p \<notin> set (nodes pl fr)" "p \<noteq> x" for p
    using h'(3) that in_nodes [OF assms(3), of pl fr] by auto
  ultimately show ?thesis using h'(1) push_front_data by blast
qed

lemma pop_links:
  assumes "links_ok h pl fr" "distinct (nodes pl fr)" "i \<in> set bucket_ids" "fr i = x # xs"
  shows "\<exists>h'. pop_front (pl i) h = Inr (x, h') \<and> links_ok h' pl (fr(i := xs)) \<and> same_data h h' \<and>
    (\<forall>p. p \<notin> set (nodes pl fr) \<longrightarrow> h' p = h p)"
proof -
  have "sl_rep h (pl i) (x # xs)" using assms(1,3,4) by (metis links_ok_def)
  from pop_front_ok [OF this]
  obtain h' where h': "pop_front (pl i) h = Inr (x, h')" "sl_rep h' (pl i) xs"
      "\<forall>p. p \<notin> set (pl i # xs) \<longrightarrow> h' p = h p" by blast
  have "links_ok h' pl (fr(i := xs))"
    using h'(3) assms(4) by (intro links_ok_upd [OF assms(1-3) h'(2)]) auto
  moreover have "h' p = h p" if "p \<notin> set (nodes pl fr)" for p
  proof -
    have "p \<notin> set (pl i # xs)" using that in_nodes [OF assms(3), of pl fr] assms(4) by auto
    then show ?thesis using h'(3) by blast
  qed
  ultimately show ?thesis using h'(1) pop_front_data by blast
qed

lemma erase_links:
  assumes "links_ok h pl fr" "distinct (nodes pl fr)" "i \<in> set bucket_ids" "fr i = as @ x # bs"
  shows "\<exists>h'. sl_erase (pl i) x h = Inr h' \<and> links_ok h' pl (fr(i := as @ bs)) \<and> same_data h h' \<and>
    (\<forall>p. p \<notin> set (nodes pl fr) \<longrightarrow> h' p = h p)"
proof -
  have "sl_rep h (pl i) (as @ x # bs)" using assms(1,3,4) by (metis links_ok_def)
  from sl_erase_ok [OF this]
  obtain h' where h': "sl_erase (pl i) x h = Inr h'" "sl_rep h' (pl i) (as @ bs)"
      "\<forall>p. p \<notin> set (pl i # as @ bs) \<longrightarrow> h' p = h p" by blast
  have "links_ok h' pl (fr(i := as @ bs))"
    using h'(3) assms(4) by (intro links_ok_upd [OF assms(1-3) h'(2)]) auto
  moreover have "h' p = h p" if "p \<notin> set (nodes pl fr)" for p
  proof -
    have "p \<notin> set (pl i # as @ bs)" using that in_nodes [OF assms(3), of pl fr] assms(4) by auto
    then show ?thesis using h'(3) by blast
  qed
  ultimately show ?thesis using h'(1) sl_erase_data by blast
qed

section \<open>Span objects\<close>

text \<open>
  \<^verbatim>\<open>sbrk(2)\<close>: it returns the old end of the data segment and moves the end by the given number of
  bytes. \<open>brk os\<close> is the end in the state \<open>os\<close> of the system; memory does not run out.
\<close>

definition sbrk_law :: "'o sbrk \<Rightarrow> ('o \<Rightarrow> nat) \<Rightarrow> bool" where
  "sbrk_law sbrk brk \<longleftrightarrow>
     (\<forall>n os. fst (sbrk n os) = brk os \<and> brk (snd (sbrk n os)) = brk os + n \<and> 0 < brk os)"

lemma sbrk_lawD:
  assumes "sbrk_law sbrk brk"
  shows "\<exists>os'. sbrk n os = (brk os, os') \<and> brk os' = brk os + n" "0 < brk os" "sbrk_ok sbrk"
  using assms by (auto simp: sbrk_law_def sbrk_ok_def prod_eq_iff)

lemma SystemAlloc_law:
  assumes "sbrk_law sbrk brk"
  shows "\<exists>os'. SystemAlloc_sbrk sbrk n os = Inr (brk os, os') \<and> brk os' = brk os + n * 2 ^ 13 mod size_mod"
proof -
  obtain os' where "sbrk (n * 2 ^ 13 mod size_mod) os = (brk os, os')"
      "brk os' = brk os + n * 2 ^ 13 mod size_mod"
    using sbrk_lawD(1) [OF assms] by blast
  then show ?thesis using sbrk_lawD(2) [OF assms, of os] by (simp add: SystemAlloc_sbrk_def)
qed

text \<open>
  The span objects in \<open>live\<close> and those in the pool's free list are disjoint blocks, and everything
  lies below the end of the data segment, which is a multiple of the page size.
\<close>

definition objs_ok :: "('o \<Rightarrow> nat) \<Rightarrow> 'o page_cache \<Rightarrow> addr list \<Rightarrow> bool" where
  "objs_ok brk c live \<longleftrightarrow>
     (\<exists>pf. pool_inv sizeof_Span (first_words (pc_spans c), spanPool c) pf live \<and>
           (\<forall>x\<in>set (pf @ live). x + sizeof_Span \<le> brk (pc_os c))) \<and>
     memory (spanPool c) + remainBytes (spanPool c) \<le> brk (pc_os c) \<and> PAGE_SIZE dvd brk (pc_os c)"

lemma objs_okI:
  assumes "pool_inv sizeof_Span (first_words (pc_spans c), spanPool c) pf live"
    "\<forall>x\<in>set (pf @ live). x + sizeof_Span \<le> brk (pc_os c)"
    "memory (spanPool c) + remainBytes (spanPool c) \<le> brk (pc_os c)" "PAGE_SIZE dvd brk (pc_os c)"
  shows "objs_ok brk c live"
  using assms by (auto simp: objs_ok_def)

lemma pool_inv_perm:
  assumes "pool_inv n s pf live" "mset live = mset live'"
  shows "pool_inv n s pf live'"
proof -
  have s: "set live = set live'" using assms(2) by (rule mset_eq_setD)
  have d: "distinct (pf @ live) = distinct (pf @ live')"
    using assms(2) s by (metis distinct_append mset_eq_imp_distinct_iff)
  show ?thesis using assms(1) s d by (cases s) (simp add: pool_inv_def disjoint_blocks_def)
qed

lemma objs_ok_perm: "objs_ok brk c live \<Longrightarrow> mset live = mset live' \<Longrightarrow> objs_ok brk c live'"
  unfolding objs_ok_def set_append using pool_inv_perm mset_eq_setD by metis

lemma objs_ok_distinct: "objs_ok brk c live \<Longrightarrow> distinct live \<and> 0 \<notin> set live"
  by (auto simp: objs_ok_def pool_inv_def disjoint_blocks_def)

lemma objs_ok_spans:
  assumes "objs_ok brk c live" "\<And>a. a \<notin> set live \<Longrightarrow> pageid (h a) = pageid (pc_spans c a)"
  shows "objs_ok brk (c\<lparr>pc_spans := h\<rparr>) live"
proof -
  obtain pf where pf: "pool_inv sizeof_Span (first_words (pc_spans c), spanPool c) pf live"
      "\<forall>x\<in>set (pf @ live). x + sizeof_Span \<le> brk (pc_os c)"
    using assms(1) by (auto simp: objs_ok_def)
  then have "a \<notin> set live" if "a \<in> set pf" for a
    using that by (auto simp: pool_inv_def disjoint_blocks_def)
  then have "chain (first_words h) (freeList (spanPool c)) pf 0"
    using pf(1) assms(2)
    by (subst chain_frame [where m = "first_words (pc_spans c)"]) (auto simp: first_words_def pool_inv_def)
  then have "pool_inv sizeof_Span (first_words h, spanPool c) pf live"
    using pf(1) by (simp add: pool_inv_def)
  then show ?thesis using pf(2) assms(1) by (auto simp: objs_ok_def)
qed

lemma objs_ok_same_data: "objs_ok brk c live \<Longrightarrow> same_data (pc_spans c) h \<Longrightarrow> objs_ok brk (c\<lparr>pc_spans := h\<rparr>) live"
  by (rule objs_ok_spans) (simp_all add: same_data_def)

lemma objs_ok_map [simp]: "objs_ok brk (c\<lparr>id_span_map := pm\<rparr>) live = objs_ok brk c live"
  by (simp add: objs_ok_def)

lemma objs_ok_os:
  "objs_ok brk c live \<Longrightarrow> brk (pc_os c) \<le> brk os \<Longrightarrow> PAGE_SIZE dvd brk os \<Longrightarrow>
   objs_ok brk (c\<lparr>pc_os := os\<rparr>) live"
  by (auto simp: objs_ok_def dest: order_trans)

text \<open>What \<open>New\<close> does beside handing out an object.\<close>

lemma New_bounds:
  assumes law: "sbrk_law sbrk brk" and n: "n = pool_objSize t" "n \<le> 131072"
    and P: "memory P + remainBytes P \<le> brk os" "PAGE_SIZE dvd brk os" "remainBytes P \<le> 131072"
    and new: "New (\<lambda>a m. m) sbrk t (m, P) os = Inr (x, (m', P'), os')"
  shows "m' = m \<and> memory P' + remainBytes P' \<le> brk os' \<and> PAGE_SIZE dvd brk os' \<and>
    brk os \<le> brk os' \<and> brk os' \<le> brk os + 131072 \<and> (freeList P = 0 \<longrightarrow> x + n \<le> brk os')"
proof (cases "freeList P = 0")
  case False
  then show ?thesis using new P by (auto simp: New_def Let_def NEXT_OBJ_def)
next
  case True
  obtain os1 where os1: "SystemAlloc_sbrk sbrk (128 * 1024 div 2 ^ 13) os = Inr (brk os, os1)"
      "brk os1 = brk os + 131072"
    using SystemAlloc_law [OF law, of "128 * 1024 div 2 ^ 13" os] by (auto simp: size_mod_def)
  have dvd: "PAGE_SIZE dvd brk os + 131072"
    using P(2) by (simp add: PAGE_SIZE_def dvd_add_left_iff)
  show ?thesis
    using new True os1 P dvd n(2)
    by (auto simp: New_def Let_def szsub_exact size_mod_def simp flip: n(1) split: if_splits)
qed

text \<open>A new span object is different from all others; only its own fields change.\<close>

lemma spanPool_New_ok:
  assumes inv: "objs_ok brk c live" and law: "sbrk_law sbrk brk"
  shows "\<exists>sp P os. spanPool_New sbrk c = Inr (sp, c\<lparr>pc_spans := (pc_spans c)(sp := Span_init (pc_spans c sp)),
        spanPool := P, pc_os := os\<rparr>) \<and> sp \<notin> set live \<and> sp \<noteq> 0 \<and>
      objs_ok brk (c\<lparr>pc_spans := (pc_spans c)(sp := Span_init (pc_spans c sp)), spanPool := P, pc_os := os\<rparr>)
        (sp # live) \<and>
      brk (pc_os c) \<le> brk os \<and> brk os \<le> brk (pc_os c) + 131072"
proof -
  let ?m = "first_words (pc_spans c)" and ?n = "sizeof_Span"
  obtain pf where pf: "pool_inv ?n (?m, spanPool c) pf live"
      "\<forall>x\<in>set (pf @ live). x + ?n \<le> brk (pc_os c)"
    using inv by (auto simp: objs_ok_def)
  have P: "memory (spanPool c) + remainBytes (spanPool c) \<le> brk (pc_os c)" "PAGE_SIZE dvd brk (pc_os c)"
    "remainBytes (spanPool c) \<le> 131072" and n: "?n = pool_objSize ?n" "?n \<le> 131072"
    using inv pf(1) by (simp_all add: objs_ok_def pool_inv_def sizeof_Span_def pool_objSize_def)
  have loc: "ctor_local ?n (\<lambda>a m. m)" by (simp add: ctor_local_def)
  obtain sp s' os pf' where new: "New (\<lambda>a m. m) sbrk ?n (?m, spanPool c) (pc_os c) = Inr (sp, s', os)"
      "pool_inv ?n s' pf' (sp # live)" "set (sp # pf') \<subseteq> set pf \<or> pf' = [] \<and> freeList (spanPool c) = 0"
  proof (cases pf)
    case Nil
    have fresh: "fst (sbrk 131072 (pc_os c)) = brk (pc_os c)" using law by (simp add: sbrk_law_def)
    have "\<forall>x\<in>set live. block ?n x \<inter> block 131072 (fst (sbrk 131072 (pc_os c))) = {}"
    proof
      fix x assume "x \<in> set live"
      then have "x + ?n \<le> brk (pc_os c)" using pf(2) by simp
      then show "block ?n x \<inter> block 131072 (fst (sbrk 131072 (pc_os c))) = {}"
        unfolding fresh by (auto simp: block_def)
    qed
    moreover have "freeList (spanPool c) = 0" using pf(1) by (simp add: pool_inv_def Nil)
    ultimately show thesis
      using New_carves [OF pf(1) [unfolded Nil] n loc, of sbrk "pc_os c"] fresh sbrk_lawD(2) [OF law] that
      by fastforce
  next
    case (Cons x fr)
    then show thesis
      using New_recycles [OF pf(1) [unfolded Cons] n(1) loc, of sbrk "pc_os c"] that by fastforce
  qed
  obtain m' P' where s': "s' = (m', P')" by (cases s')
  note b = New_bounds [OF law n P new(1) [unfolded s']]
  let ?h = "(pc_spans c)(sp := Span_init (pc_spans c sp))"
  have fw: "first_words ?h = ?m" by (auto simp: first_words_def Span_init_def)
  have "objs_ok brk (c\<lparr>pc_spans := ?h, spanPool := P', pc_os := os\<rparr>) (sp # live)"
    using new(2,3) pf(2) b
    by (intro objs_okI [where pf = pf']) (auto simp: s' fw dest: order_trans)
  then show ?thesis
    using new(1) b objs_ok_distinct by (fastforce simp: spanPool_New_def s')
qed

lemma spanPool_Delete_ok:
  assumes "objs_ok brk c (p # live)"
  shows "\<exists>w P. spanPool_Delete p c = Inr (c\<lparr>pc_spans := (pc_spans c)(p := (pc_spans c p)\<lparr>pageid := w\<rparr>),
      spanPool := P\<rparr>) \<and>
    objs_ok brk (c\<lparr>pc_spans := (pc_spans c)(p := (pc_spans c p)\<lparr>pageid := w\<rparr>), spanPool := P\<rparr>) live"
proof -
  obtain pf where pf: "pool_inv sizeof_Span (first_words (pc_spans c), spanPool c) pf (p # live)"
      "\<forall>x\<in>set (pf @ p # live). x + sizeof_Span \<le> brk (pc_os c)"
    using assms by (auto simp: objs_ok_def)
  define w P h where "w = freeList (spanPool c)" and "P = (spanPool c)\<lparr>freeList := p\<rparr>"
    and "h = (pc_spans c)(p := (pc_spans c p)\<lparr>pageid := w\<rparr>)"
  have nz: "p \<noteq> 0" using pf(1) by (simp add: pool_inv_def)
  then have del: "Delete p (first_words (pc_spans c), spanPool c) = Inr ((first_words (pc_spans c))(p := w), P)"
    by (simp add: Delete_def set_NEXT_OBJ_def w_def P_def)
  have h: "(\<lambda>a. (pc_spans c a)\<lparr>pageid := ((first_words (pc_spans c))(p := w)) a\<rparr>) = h"
    by (auto simp: h_def first_words_def)
  have fw: "first_words h = (first_words (pc_spans c))(p := w)"
    by (auto simp: h_def first_words_def)
  have "pool_inv sizeof_Span (first_words h, P) (p # pf) live"
    using Delete_ok [OF pf(1), of p] del by (simp add: fw)
  moreover have "\<forall>x\<in>set ((p # pf) @ live). x + sizeof_Span \<le> brk (pc_os c)" using pf(2) by auto
  ultimately have "objs_ok brk (c\<lparr>pc_spans := h, spanPool := P\<rparr>) live"
    using assms by (intro objs_okI [where pf = "p # pf"]) (simp_all add: objs_ok_def P_def)
  then show ?thesis using del h by (auto simp: spanPool_Delete_def h_def)
qed

section \<open>Pages\<close>

definition pages :: "span \<Rightarrow> nat set" where
  "pages s = {pageid s..<pageid s + npage s}"

definition first_page :: "span \<Rightarrow> nat" where
  "first_page s = pageid s"

definition last_page :: "span \<Rightarrow> nat" where
  "last_page s = pageid s + npage s - 1"

text \<open>
  The spans in \<open>S\<close> are disjoint ranges of pages that the map can hold, without page 0, the map leads from the ends of
  a span to the span, except for the spans in \<open>X\<close>, and knows no pages but those of \<open>S\<close>.
\<close>

definition geo :: "spans \<Rightarrow> page_map \<Rightarrow> addr set \<Rightarrow> addr set \<Rightarrow> bool" where
  "geo h pm S X \<longleftrightarrow>
     (\<forall>p\<in>S. 0 < npage (h p) \<and> npage (h p) < NPAGES \<and> (\<forall>k\<in>pages (h p). ready pm k) \<and> 0 \<notin> pages (h p)) \<and>
     (\<forall>p\<in>S. \<forall>q\<in>S. p \<noteq> q \<longrightarrow> pages (h p) \<inter> pages (h q) = {}) \<and>
     (\<forall>p\<in>S. p \<notin> X \<longrightarrow>
        get_span (first_page (h p)) pm = p \<and> get_span (last_page (h p)) pm = p) \<and>
     (\<forall>k. get_span k pm \<noteq> 0 \<longrightarrow> (\<exists>p\<in>S. k \<in> pages (h p)))"

lemma geoI:
  assumes "\<And>p. p \<in> S \<Longrightarrow> 0 < npage (h p) \<and> npage (h p) < NPAGES"
    "\<And>p k. p \<in> S \<Longrightarrow> k \<in> pages (h p) \<Longrightarrow> ready pm k"
    "\<And>p q. p \<in> S \<Longrightarrow> q \<in> S \<Longrightarrow> p \<noteq> q \<Longrightarrow> pages (h p) \<inter> pages (h q) = {}"
    "\<And>p. p \<in> S \<Longrightarrow> p \<notin> X \<Longrightarrow> get_span (first_page (h p)) pm = p \<and> get_span (last_page (h p)) pm = p"
    "\<And>k. get_span k pm \<noteq> 0 \<Longrightarrow> \<exists>p\<in>S. k \<in> pages (h p)"
    "\<And>p. p \<in> S \<Longrightarrow> 0 \<notin> pages (h p)"
  shows "geo h pm S X"
  using assms by (simp add: geo_def)

lemma geoD:
  assumes "geo h pm S X"
  shows "p \<in> S \<Longrightarrow> 0 < npage (h p)" "p \<in> S \<Longrightarrow> npage (h p) < NPAGES"
    "p \<in> S \<Longrightarrow> k \<in> pages (h p) \<Longrightarrow> ready pm k"
    "p \<in> S \<Longrightarrow> q \<in> S \<Longrightarrow> p \<noteq> q \<Longrightarrow> pages (h p) \<inter> pages (h q) = {}"
    "p \<in> S \<Longrightarrow> p \<notin> X \<Longrightarrow> get_span (first_page (h p)) pm = p"
    "p \<in> S \<Longrightarrow> p \<notin> X \<Longrightarrow> get_span (last_page (h p)) pm = p"
    "get_span k pm \<noteq> 0 \<Longrightarrow> \<exists>p\<in>S. k \<in> pages (h p)"
    "p \<in> S \<Longrightarrow> 0 \<notin> pages (h p)"
  using assms unfolding geo_def by blast+

lemma geo_cong:
  assumes "\<And>p. p \<in> S \<Longrightarrow> pageid (h' p) = pageid (h p) \<and> npage (h' p) = npage (h p)"
  shows "geo h' pm S X \<longleftrightarrow> geo h pm S X"
proof -
  have "pages (h' p) = pages (h p)" "first_page (h' p) = first_page (h p)"
    "last_page (h' p) = last_page (h p)" "npage (h' p) = npage (h p)" if "p \<in> S" for p
    using assms [OF that] by (simp_all add: pages_def first_page_def last_page_def)
  then show ?thesis unfolding geo_def by (simp cong: ball_cong bex_cong)
qed

lemma geo_same_data: "same_data h h' \<Longrightarrow> geo h' pm S X \<longleftrightarrow> geo h pm S X"
  by (rule geo_cong) (simp add: same_data_def)

lemma geo_weaken: "geo h pm S X \<Longrightarrow> X \<subseteq> Y \<Longrightarrow> geo h pm S Y"
  unfolding geo_def by blast

lemma end_pages: "0 < npage s \<Longrightarrow> first_page s \<in> pages s \<and> last_page s \<in> pages s"
  by (auto simp: pages_def first_page_def last_page_def)

lemma ready_bound: "ready pm k \<Longrightarrow> k < 2 ^ 35"
  by (simp add: ready_def pm_consts)

lemma geo_bound:
  assumes "geo h pm S X" "p \<in> S"
  shows "pageid (h p) + npage (h p) \<le> 2 ^ 35"
proof -
  have "last_page (h p) < 2 ^ 35"
    using end_pages geoD(1,3) [OF assms(1)] assms(2) ready_bound by meson
  then show ?thesis using geoD(1) [OF assms] by (simp add: last_page_def)
qed

text \<open>Entering a page of a span into the map.\<close>

lemma geo_set:
  assumes g: "geo h pm S X" and p: "p \<in> S" "k \<in> pages (h p)"
  shows "\<exists>pm'. set_span k p pm = Inr pm' \<and> geo h pm' S X \<and>
    (\<forall>j. get_span j pm' = (if j = k then p else get_span j pm)) \<and> (\<forall>j. ready pm' j = ready pm j)"
proof -
  obtain pm' where pm': "set_span k p pm = Inr pm'"
      "\<forall>j. get_span j pm' = (if j = k then p else get_span j pm)" "\<forall>j. ready pm' j = ready pm j"
    using get_set_span [OF geoD(3) [OF g p], of p] by blast
  have "geo h pm' S X"
  proof (rule geoI)
    fix q assume q: "q \<in> S" "q \<notin> X"
    have "k \<noteq> first_page (h q) \<and> k \<noteq> last_page (h q)" if "q \<noteq> p"
      using geoD(4) [OF g p(1) q(1)] that p(2) end_pages [OF geoD(1) [OF g q(1)]] by blast
    then show "get_span (first_page (h q)) pm' = q \<and> get_span (last_page (h q)) pm' = q"
      using geoD(5,6) [OF g q] pm'(2) by metis
  next
    fix j assume "get_span j pm' \<noteq> 0"
    then show "\<exists>q\<in>S. j \<in> pages (h q)"
      using pm'(2) geoD(7) [OF g, of j] p by (cases "j = k") auto
  qed (use geoD(1-4,8) [OF g] pm'(3) in auto)
  with pm' show ?thesis by blast
qed

lemma geo_set_all:
  assumes "geo h pm S X" "p \<in> S" "\<forall>k\<in>set ks. k \<in> pages (h p)"
  shows "\<exists>pm'. foldR (\<lambda>k. set_span k p) ks pm = Inr pm' \<and> geo h pm' S X \<and>
    (\<forall>j. get_span j pm' = (if j \<in> set ks then p else get_span j pm))"
  using assms
proof (induction ks arbitrary: pm)
  case (Cons k ks)
  from geo_set [OF Cons.prems(1,2), of k] Cons.prems(3)
  obtain pm1 where pm1: "set_span k p pm = Inr pm1" "geo h pm1 S X"
      "\<forall>j. get_span j pm1 = (if j = k then p else get_span j pm)" by auto
  from Cons.IH [OF pm1(2) Cons.prems(2)] Cons.prems(3)
  obtain pm' where "foldR (\<lambda>k. set_span k p) ks pm1 = Inr pm'" "geo h pm' S X"
      "\<forall>j. get_span j pm' = (if j \<in> set ks then p else get_span j pm1)" by auto
  with pm1 show ?case by auto
qed simp

lemma geo_mapped:
  assumes "geo h pm S X" "get_span (first_page (h p)) pm = p" "get_span (last_page (h p)) pm = p"
  shows "geo h pm S (X - {p})"
  using assms unfolding geo_def by auto

text \<open>A page next to a span is the end of its neighbour, and the map knows it.\<close>

lemma neighbour_prev:
  assumes g: "geo h pm S {p}" and p: "p \<in> S" and r: "get_span (szsub (pageid (h p)) 1) pm = q" "q \<noteq> 0"
  shows "q \<in> S" "q \<noteq> p" "pageid (h q) + npage (h q) = pageid (h p)"
proof -
  have b: "pageid (h p) \<le> 2 ^ 35" using geo_bound [OF g p] by simp
  have "pageid (h p) \<noteq> 0"
  proof
    assume z: "pageid (h p) = 0"
    have "szsub 0 1 = 2 ^ 64 - 1" by (simp add: szsub_wraps size_mod_def)
    then have "get_span (szsub (pageid (h p)) 1) pm = 0" by (simp add: z get_span_def pm_consts)
    with r show False by simp
  qed
  then have k: "szsub (pageid (h p)) 1 = pageid (h p) - 1" "0 < pageid (h p)"
    using b by (simp_all add: szsub_exact size_mod_def)
  obtain s where s: "s \<in> S" "pageid (h p) - 1 \<in> pages (h s)"
    using geoD(7) [OF g, of "pageid (h p) - 1"] r k by auto
  have sp: "s \<noteq> p" using s(2) k(2) by (auto simp: pages_def)
  have "pageid (h p) \<notin> pages (h s)"
    using geoD(4) [OF g s(1) p sp] end_pages [OF geoD(1) [OF g p]] by (auto simp: first_page_def)
  then have e: "pageid (h s) + npage (h s) = pageid (h p)" using s(2) k(2) by (auto simp: pages_def)
  then have "last_page (h s) = pageid (h p) - 1" by (simp add: last_page_def)
  then have "q = s" using geoD(6) [OF g s(1)] sp r k by simp
  with s(1) sp e show "q \<in> S" "q \<noteq> p" "pageid (h q) + npage (h q) = pageid (h p)" by simp_all
qed

lemma neighbour_next:
  assumes g: "geo h pm S {p}" and p: "p \<in> S"
    and r: "get_span (szadd (pageid (h p)) (npage (h p))) pm = q" "q \<noteq> 0"
  shows "q \<in> S" "q \<noteq> p" "pageid (h q) = pageid (h p) + npage (h p)"
proof -
  have b: "pageid (h p) + npage (h p) \<le> 2 ^ 35" using geo_bound [OF g p] .
  then have k: "szadd (pageid (h p)) (npage (h p)) = pageid (h p) + npage (h p)"
    by (simp add: szadd_exact size_mod_def)
  let ?k = "pageid (h p) + npage (h p)"
  obtain s where s: "s \<in> S" "?k \<in> pages (h s)" using geoD(7) [OF g, of ?k] r k by auto
  have sp: "s \<noteq> p" using s(2) by (auto simp: pages_def)
  have "last_page (h p) \<notin> pages (h s)"
    using geoD(4) [OF g s(1) p sp] end_pages [OF geoD(1) [OF g p]] by blast
  then have e: "pageid (h s) = ?k"
    using s(2) geoD(1) [OF g p] by (auto simp: pages_def last_page_def)
  then have "first_page (h s) = ?k" by (simp add: first_page_def)
  then have "q = s" using geoD(5) [OF g s(1)] sp r k by simp
  with s(1) sp e show "q \<in> S" "q \<noteq> p" "pageid (h q) = ?k" by simp_all
qed

end
