(* ===== verification/PageCacheSafe.thy ===== *)
theory PageCacheSafe
  imports PageCacheInv
begin

text \<open>
  The operations of the page cache keep its invariant: allocating spans, splitting them, growing,
  and merging on release.
\<close>

section \<open>The invariant\<close>

abbreviation idle :: "span \<Rightarrow> bool" where
  "idle s \<equiv> \<not> isUse s \<and> usecount s = 0"

text \<open>
  \<open>fr\<close> are the spans in the buckets, \<open>us\<close> the spans handed out, \<open>ex\<close> span objects without pages, \<open>X\<close>
  the spans whose ends the map need not know at the moment.
\<close>

definition pc_st ::
    "('o \<Rightarrow> nat) \<Rightarrow> 'o page_cache \<Rightarrow> (nat \<Rightarrow> addr list) \<Rightarrow> addr list \<Rightarrow> addr list \<Rightarrow> addr set \<Rightarrow> bool" where
  "pc_st brk c fr us ex X \<longleftrightarrow>
     links_ok (pc_spans c) (pagelist c) fr \<and>
     (\<forall>i\<in>set bucket_ids. \<forall>p\<in>set (fr i). npage (pc_spans c p) = i) \<and>
     objs_ok brk c (nodes (pagelist c) fr @ us @ ex) \<and>
     geo (pc_spans c) (id_span_map c) (frees fr \<union> set us) X \<and>
     (\<forall>p\<in>frees fr \<union> set us.
        (pageid (pc_spans c p) + npage (pc_spans c p)) * PAGE_SIZE \<le> brk (pc_os c))"

definition pc_inv ::
    "('o \<Rightarrow> nat) \<Rightarrow> 'o page_cache \<Rightarrow> (nat \<Rightarrow> addr list) \<Rightarrow> addr list \<Rightarrow> addr list \<Rightarrow> bool" where
  "pc_inv brk c fr us ex \<longleftrightarrow>
     pc_st brk c fr us ex {} \<and> (\<forall>p\<in>frees fr. idle (pc_spans c p))"

lemma pc_stI:
  assumes "links_ok (pc_spans c) (pagelist c) fr"
    "\<And>i p. i \<in> set bucket_ids \<Longrightarrow> p \<in> set (fr i) \<Longrightarrow> npage (pc_spans c p) = i"
    "objs_ok brk c (nodes (pagelist c) fr @ us @ ex)"
    "geo (pc_spans c) (id_span_map c) (frees fr \<union> set us) X"
    "\<And>p. p \<in> frees fr \<union> set us \<Longrightarrow>
        (pageid (pc_spans c p) + npage (pc_spans c p)) * PAGE_SIZE \<le> brk (pc_os c)"
  shows "pc_st brk c fr us ex X"
  using assms by (simp add: pc_st_def)

lemma pc_stD:
  assumes "pc_st brk c fr us ex X"
  shows "links_ok (pc_spans c) (pagelist c) fr"
    "i \<in> set bucket_ids \<Longrightarrow> p \<in> set (fr i) \<Longrightarrow> npage (pc_spans c p) = i"
    "objs_ok brk c (nodes (pagelist c) fr @ us @ ex)"
    "geo (pc_spans c) (id_span_map c) (frees fr \<union> set us) X"
    "p \<in> frees fr \<union> set us \<Longrightarrow>
        (pageid (pc_spans c p) + npage (pc_spans c p)) * PAGE_SIZE \<le> brk (pc_os c)"
    "distinct (nodes (pagelist c) fr @ us @ ex)" "0 \<notin> set (nodes (pagelist c) fr @ us @ ex)"
  using assms objs_ok_distinct [of brk c "nodes (pagelist c) fr @ us @ ex"] unfolding pc_st_def by blast+

lemma frees_sub: "frees fr \<subseteq> set (nodes pl fr)"
  by (rule frees_nodes)

lemma in_frees: "i \<in> set bucket_ids \<Longrightarrow> p \<in> set (fr i) \<Longrightarrow> p \<in> frees fr"
  unfolding frees_def by blast

lemma frees_insert: "i \<in> set bucket_ids \<Longrightarrow> frees (fr(i := x # fr i)) = insert x (frees fr)"
  unfolding frees_def by (auto split: if_splits)

lemma frees_remove:
  assumes "i \<in> set bucket_ids" "fr i = as @ x # bs"
  shows "insert x (frees (fr(i := as @ bs))) = frees fr"
proof -
  have "set (((fr(i := as @ bs))(i := x # as @ bs)) j) = set (fr j)" for j
    using assms(2) by auto
  then have "frees fr = frees ((fr(i := as @ bs))(i := x # as @ bs))"
    unfolding frees_def by presburger
  also have "\<dots> = insert x (frees (fr(i := as @ bs)))"
    using frees_insert [OF assms(1), of "fr(i := as @ bs)" x] by simp
  finally show ?thesis by simp
qed

text \<open>Changing the data of spans that are in no bucket.\<close>

lemma pc_st_fields:
  assumes st: "pc_st brk c fr us ex X"
    and out: "\<And>p. p \<notin> set (us @ ex) \<Longrightarrow> h p = pc_spans c p"
    and perm: "mset (us' @ ex') = mset (us @ ex)"
    and g: "geo h (id_span_map c) (frees fr \<union> set us') X'"
    and b: "\<And>p. p \<in> set us' \<Longrightarrow> (pageid (h p) + npage (h p)) * PAGE_SIZE \<le> brk (pc_os c)"
  shows "pc_st brk (c\<lparr>pc_spans := h\<rparr>) fr us' ex' X'"
proof -
  have same: "h p = pc_spans c p" if "p \<in> set (nodes (pagelist c) fr)" for p
    using pc_stD(6) [OF st] that by (intro out) auto
  have node: "p \<in> set (nodes (pagelist c) fr)" if "p \<in> frees fr" for p
    using that frees_nodes by blast
  have "objs_ok brk (c\<lparr>pc_spans := h\<rparr>) (nodes (pagelist c) fr @ us @ ex)"
    by (rule objs_ok_spans [OF pc_stD(3) [OF st]]) (simp add: out)
  then have "objs_ok brk (c\<lparr>pc_spans := h\<rparr>) (nodes (pagelist c) fr @ us' @ ex')"
    by (rule objs_ok_perm) (use perm in simp)
  moreover have "links_ok h (pagelist c) fr"
    using pc_stD(1) [OF st] by (rule links_ok_cong) (simp add: same_links_def same)
  moreover have "npage (h p) = i" if "i \<in> set bucket_ids" "p \<in> set (fr i)" for i p
    using pc_stD(2) [OF st that] same [OF node [OF in_frees [of i p fr, OF that]]] by simp
  moreover have "(pageid (h p) + npage (h p)) * PAGE_SIZE \<le> brk (pc_os c)" if "p \<in> frees fr" for p
    using pc_stD(5) [OF st, of p] same [OF node [OF that]] that by simp
  ultimately show ?thesis
    using g b by (intro pc_stI) auto
qed

lemma pc_st_perm:
  assumes "pc_st brk c fr us ex X" "mset us = mset us'"
  shows "pc_st brk c fr us' ex X"
  using pc_st_fields [OF assms(1), of "pc_spans c" us' ex X] assms pc_stD(4,5) [OF assms(1)]
    mset_eq_setD [OF assms(2)] by simp

section \<open>Steps\<close>

lemma pc_st_relink:
  assumes st: "pc_st brk c fr us ex X"
    and h: "links_ok h (pagelist c) fr'" "same_data (pc_spans c) h"
    and m: "mset (nodes (pagelist c) fr @ us @ ex) = mset (nodes (pagelist c) fr' @ us' @ ex)"
    and S: "frees fr' \<union> set us' = frees fr \<union> set us"
    and n: "\<And>j p. j \<in> set bucket_ids \<Longrightarrow> p \<in> set (fr' j) \<Longrightarrow> npage (pc_spans c p) = j"
  shows "pc_st brk (c\<lparr>pc_spans := h\<rparr>) fr' us' ex X"
proof (rule pc_stI)
  show "geo (pc_spans (c\<lparr>pc_spans := h\<rparr>)) (id_span_map (c\<lparr>pc_spans := h\<rparr>)) (frees fr' \<union> set us') X"
    using pc_stD(4) [OF st] geo_same_data [OF h(2)] unfolding S by simp
  show "objs_ok brk (c\<lparr>pc_spans := h\<rparr>) (nodes (pagelist (c\<lparr>pc_spans := h\<rparr>)) fr' @ us' @ ex)"
    using objs_ok_perm [OF objs_ok_same_data [OF pc_stD(3) [OF st] h(2)] m] by simp
  show "(pageid (pc_spans (c\<lparr>pc_spans := h\<rparr>) p) + npage (pc_spans (c\<lparr>pc_spans := h\<rparr>) p)) * PAGE_SIZE
      \<le> brk (pc_os (c\<lparr>pc_spans := h\<rparr>))" if "p \<in> frees fr' \<union> set us'" for p
    using pc_stD(5) [OF st, of p] that h(2) unfolding S by (simp add: same_data_def)
qed (use h n in \<open>simp_all add: same_data_def\<close>)

lemma pc_st_pop:
  assumes st: "pc_st brk c fr us ex X" and i: "i \<in> set bucket_ids" "fr i = x # xs"
  shows "\<exists>h. pop_page i c = Inr (x, c\<lparr>pc_spans := h\<rparr>) \<and> same_data (pc_spans c) h \<and>
    pc_st brk (c\<lparr>pc_spans := h\<rparr>) (fr(i := xs)) (x # us) ex X \<and>
    (\<forall>p. p \<notin> set (nodes (pagelist c) fr) \<longrightarrow> h p = pc_spans c p)"
proof -
  have d: "distinct (nodes (pagelist c) fr)" using pc_stD(6) [OF st] by simp
  obtain h where h: "pop_front (pagelist c i) (pc_spans c) = Inr (x, h)"
      "links_ok h (pagelist c) (fr(i := xs))" "same_data (pc_spans c) h"
      "\<forall>p. p \<notin> set (nodes (pagelist c) fr) \<longrightarrow> h p = pc_spans c p"
    using pop_links [where fr = fr, OF pc_stD(1) [OF st] d i] by blast
  have "pc_st brk (c\<lparr>pc_spans := h\<rparr>) (fr(i := xs)) (x # us) ex X"
  proof (rule pc_st_relink [OF st h(2,3)])
    show "frees (fr(i := xs)) \<union> set (x # us) = frees fr \<union> set us"
      using frees_remove [OF i(1), of fr "[]" x xs] i(2) by auto
    show "npage (pc_spans c p) = j" if "j \<in> set bucket_ids" "p \<in> set ((fr(i := xs)) j)" for j p
      using pc_stD(2) [OF st that(1), of p] that(2) i by (auto split: if_splits)
  qed (use mset_nodes_remove [OF i(1), of fr "[]" x xs "pagelist c"] i(2) in simp)
  with h show ?thesis by (auto simp: pop_page_def)
qed

lemma pc_st_push:
  assumes st: "pc_st brk c fr (x # us) ex X" and i: "i = npage (pc_spans c x)"
  shows "\<exists>h. push_page i x c = Inr (c\<lparr>pc_spans := h\<rparr>) \<and> same_data (pc_spans c) h \<and>
    pc_st brk (c\<lparr>pc_spans := h\<rparr>) (fr(i := x # fr i)) us ex X \<and>
    (\<forall>p. p \<notin> set (nodes (pagelist c) fr) \<longrightarrow> p \<noteq> x \<longrightarrow> h p = pc_spans c p)"
proof -
  have d: "distinct (nodes (pagelist c) fr)" "x \<notin> set (nodes (pagelist c) fr)" "x \<noteq> 0"
    using pc_stD(6,7) [OF st] by auto
  have ib: "i \<in> set bucket_ids" using geoD(1,2) [OF pc_stD(4) [OF st], of x] i by simp
  obtain h where h: "push_front (pagelist c i) x (pc_spans c) = Inr h"
      "links_ok h (pagelist c) (fr(i := x # fr i))" "same_data (pc_spans c) h"
      "\<forall>p. p \<notin> set (nodes (pagelist c) fr) \<longrightarrow> p \<noteq> x \<longrightarrow> h p = pc_spans c p"
    using push_links [where fr = fr, OF pc_stD(1) [OF st] d(1) ib d(3,2)] by blast
  have "pc_st brk (c\<lparr>pc_spans := h\<rparr>) (fr(i := x # fr i)) us ex X"
  proof (rule pc_st_relink [OF st h(2,3)])
    show "frees (fr(i := x # fr i)) \<union> set us = frees fr \<union> set (x # us)"
      using frees_insert [OF ib, of fr x] by auto
    show "npage (pc_spans c p) = j" if "j \<in> set bucket_ids" "p \<in> set ((fr(i := x # fr i)) j)" for j p
      using pc_stD(2) [OF st that(1), of p] that(2) i by (auto split: if_splits)
  qed (use mset_nodes_insert [OF ib, of "pagelist c" fr x] in simp)
  with h show ?thesis by (auto simp: push_page_def)
qed

lemma pc_st_set:
  assumes st: "pc_st brk c fr us ex X" and p: "p \<in> frees fr \<union> set us" "k \<in> pages (pc_spans c p)"
  shows "\<exists>pm. set_page k p c = Inr (c\<lparr>id_span_map := pm\<rparr>) \<and> pc_st brk (c\<lparr>id_span_map := pm\<rparr>) fr us ex X \<and>
    (\<forall>j. get_span j pm = (if j = k then p else get_span j (id_span_map c)))"
  using geo_set [OF pc_stD(4) [OF st] p] st by (auto simp: set_page_def pc_st_def)

lemma pc_st_set_all:
  assumes "pc_st brk c fr us ex X" "p \<in> frees fr \<union> set us" "\<forall>i\<in>set is. f i \<in> pages (pc_spans c p)"
  shows "\<exists>pm. foldR (\<lambda>i. set_page (f i) p) is c = Inr (c\<lparr>id_span_map := pm\<rparr>) \<and>
    pc_st brk (c\<lparr>id_span_map := pm\<rparr>) fr us ex X \<and>
    (\<forall>j. get_span j pm = (if j \<in> f ` set is then p else get_span j (id_span_map c)))"
  using assms
proof (induction "is" arbitrary: c)
  case Nil
  then show ?case by (intro exI [of _ "id_span_map c"]) simp
next
  case (Cons i "is")
  from pc_st_set [OF Cons.prems(1,2), of "f i"] Cons.prems(3)
  obtain pm1 where pm1: "set_page (f i) p c = Inr (c\<lparr>id_span_map := pm1\<rparr>)"
      "pc_st brk (c\<lparr>id_span_map := pm1\<rparr>) fr us ex X"
      "\<forall>j. get_span j pm1 = (if j = f i then p else get_span j (id_span_map c))" by auto
  from Cons.IH [OF pm1(2) Cons.prems(2)] Cons.prems(3)
  obtain pm where pm: "foldR (\<lambda>i. set_page (f i) p) is (c\<lparr>id_span_map := pm1\<rparr>) = Inr (c\<lparr>id_span_map := pm\<rparr>)"
      "pc_st brk (c\<lparr>id_span_map := pm\<rparr>) fr us ex X"
      "\<forall>j. get_span j pm = (if j \<in> f ` set is then p else get_span j pm1)" by auto
  with pm1 show ?case by (intro exI [of _ pm]) auto
qed

lemma pc_st_mapped:
  assumes "pc_st brk c fr us ex X"
    "get_span (first_page (pc_spans c p)) (id_span_map c) = p"
    "get_span (last_page (pc_spans c p)) (id_span_map c) = p"
  shows "pc_st brk c fr us ex (X - {p})"
  using assms geo_mapped [OF pc_stD(4) [OF assms(1)] assms(2,3)] by (simp add: pc_st_def)

lemma pc_st_New:
  assumes st: "pc_st brk c fr us ex X" and law: "sbrk_law sbrk brk"
  shows "\<exists>sp h P os. spanPool_New sbrk c = Inr (sp, c\<lparr>pc_spans := h, spanPool := P, pc_os := os\<rparr>) \<and>
    pc_st brk (c\<lparr>pc_spans := h, spanPool := P, pc_os := os\<rparr>) fr us (sp # ex) X \<and>
    (\<forall>p. p \<noteq> sp \<longrightarrow> h p = pc_spans c p) \<and> idle (h sp) \<and>
    brk (pc_os c) \<le> brk os \<and> brk os \<le> brk (pc_os c) + 131072"
proof -
  let ?live = "nodes (pagelist c) fr @ us @ ex"
  obtain sp P os where new: "spanPool_New sbrk c = Inr (sp, c\<lparr>pc_spans := (pc_spans c)(sp := Span_init (pc_spans c sp)),
        spanPool := P, pc_os := os\<rparr>)" "sp \<notin> set ?live" "sp \<noteq> 0"
      "objs_ok brk (c\<lparr>pc_spans := (pc_spans c)(sp := Span_init (pc_spans c sp)), spanPool := P, pc_os := os\<rparr>)
        (sp # ?live)" "brk (pc_os c) \<le> brk os" "brk os \<le> brk (pc_os c) + 131072"
    using spanPool_New_ok [OF pc_stD(3) [OF st] law] by blast
  define h where "h = (pc_spans c)(sp := Span_init (pc_spans c sp))"
  define c' where "c' = c\<lparr>pc_spans := h, spanPool := P, pc_os := os\<rparr>"
  have c': "pc_spans c' = h" "pagelist c' = pagelist c" "id_span_map c' = id_span_map c" "pc_os c' = os"
    by (simp_all add: c'_def)
  have h: "h p = pc_spans c p" if "p \<noteq> sp" for p using that by (simp add: h_def)
  have o: "objs_ok brk c' (nodes (pagelist c') fr @ us @ sp # ex)"
    using new(4) unfolding c'(2) h_def [symmetric] c'_def [symmetric] by (rule objs_ok_perm) simp
  have S: "p \<noteq> sp" if "p \<in> frees fr \<union> set us" for p
    using that new(2) frees_sub [of fr "pagelist c"] by auto
  have "links_ok h (pagelist c) fr"
  proof (rule links_ok_cong [OF pc_stD(1) [OF st]])
    have "sp \<notin> set (nodes (pagelist c) fr)" using new(2) by simp
    then show "same_links (pc_spans c) h (set (nodes (pagelist c) fr))"
      unfolding same_links_def using h by metis
  qed
  moreover have "geo h (id_span_map c) (frees fr \<union> set us) X"
    using pc_stD(4) [OF st] geo_cong [of "frees fr \<union> set us" h "pc_spans c"] h S by metis
  moreover have "(pageid (h p) + npage (h p)) * PAGE_SIZE \<le> brk os" if "p \<in> frees fr \<union> set us" for p
    using pc_stD(5) [OF st that] h [OF S [OF that]] new(5) by simp
  moreover have "npage (h p) = i" if "i \<in> set bucket_ids" "p \<in> set (fr i)" for i p
    using pc_stD(2) [OF st that] h [OF S] in_frees [of i p fr, OF that] by simp
  ultimately have "pc_st brk c' fr us (sp # ex) X"
    using o by (intro pc_stI) (simp_all only: c')
  moreover have "idle (h sp)" by (simp add: h_def Span_init_def)
  moreover have "spanPool_New sbrk c = Inr (sp, c')" using new(1) by (simp only: c'_def h_def)
  ultimately show ?thesis using h new(5,6) unfolding c'_def by blast
qed

section \<open>Cutting a span\<close>

definition data_eq :: "span \<Rightarrow> span \<Rightarrow> bool" where
  "data_eq s t \<longleftrightarrow> pageid s = pageid t \<and> npage s = npage t \<and> isUse s = isUse t \<and> usecount s = usecount t"


lemma pages_split:
  assumes "pageid s1 = pageid s" "npage s1 = n" "pageid s2 = pageid s + n" "npage s2 = npage s - n"
    "n < npage s"
  shows "pages s1 \<union> pages s2 = pages s" "pages s1 \<inter> pages s2 = {}"
  using assms by (auto simp: pages_def)

lemma geo_split:
  assumes g: "geo h pm S X" and x: "x \<in> S" "X \<subseteq> {x}" and sp: "sp \<notin> S" and n: "0 < n" "n < npage (h x)"
    and h: "pageid (h' sp) = pageid (h x)" "npage (h' sp) = n" "pageid (h' x) = pageid (h x) + n"
      "npage (h' x) = npage (h x) - n" "\<And>p. p \<in> S \<Longrightarrow> p \<noteq> x \<Longrightarrow> h' p = h p"
  shows "geo h' pm (insert sp S) {sp, x}"
proof -
  note s = pages_split [OF h(1-4) n(2)]
  have other: "pages (h' p) = pages (h p)" if "p \<in> S" "p \<noteq> x" for p using h(5) that by simp
  have apart: "pages (h' p) \<inter> pages (h x) = {}" if "p \<in> S" "p \<noteq> x" for p
    using geoD(4) [OF g that(1) x(1)] that other by simp
  have part: "pages (h' sp) \<subseteq> pages (h x)" "pages (h' x) \<subseteq> pages (h x)" using s(1) by auto
  show ?thesis
  proof (rule geoI)
    fix p assume "p \<in> insert sp S"
    then show "0 < npage (h' p) \<and> npage (h' p) < NPAGES"
      using h n geoD(1,2) [OF g, of p] geoD(2) [OF g x(1)] by (cases "p = sp"; cases "p = x") auto
  next
    fix p k assume "p \<in> insert sp S" "k \<in> pages (h' p)"
    then have "\<exists>q\<in>S. k \<in> pages (h q)" using part x(1) other by blast
    then show "ready pm k" using geoD(3) [OF g] by blast
  next
    fix p assume "p \<in> insert sp S"
    then show "0 \<notin> pages (h' p)" using part x(1) other geoD(8) [OF g] by (cases "p = sp"; cases "p = x") auto
  next
    fix p q assume pq: "p \<in> insert sp S" "q \<in> insert sp S" "p \<noteq> q"
    have two: "pages (h' sp) \<inter> pages (h' r) = {}" if "r \<in> S" for r
      using s(2) apart [of r] part(1) that by (cases "r = x") blast+
    have in_S: "pages (h' a) \<inter> pages (h' b) = {}" if "a \<in> S" "b \<in> S" "a \<noteq> b" for a b
    proof -
      consider "a = x" | "b = x" | "a \<noteq> x" "b \<noteq> x" by blast
      then show ?thesis
      proof cases
        case 1
        then show ?thesis using apart [of b] part(2) that by blast
      next
        case 2
        then show ?thesis using apart [of a] part(2) that by blast
      next
        case 3
        then show ?thesis using other that geoD(4) [OF g that] by simp
      qed
    qed
    show "pages (h' p) \<inter> pages (h' q) = {}" using pq two in_S by blast
  next
    fix p assume "p \<in> insert sp S" "p \<notin> {sp, x}"
    then have p: "p \<in> S" "p \<noteq> x" by auto
    then have "p \<notin> X" using x(2) by blast
    then show "get_span (first_page (h' p)) pm = p \<and> get_span (last_page (h' p)) pm = p"
      using geoD(5,6) [OF g p(1)] h(5) [OF p] by simp
  next
    fix k assume "get_span k pm \<noteq> 0"
    then obtain q where q: "q \<in> S" "k \<in> pages (h q)" using geoD(7) [OF g] by blast
    then show "\<exists>p\<in>insert sp S. k \<in> pages (h' p)"
      using s(1) other [OF q(1)] x(1) by (cases "q = x") blast+
  qed
qed

text \<open>The assignments of a split, on the state after the new object and the pop.\<close>

lemma split_fields:
  assumes st: "pc_st brk c fr (x # us) (sp # ex) X" and X: "X \<subseteq> {x}"
    and n: "0 < n" "n < npage (pc_spans c x)"
    and h: "h = (pc_spans c)
       (sp := (pc_spans c sp)\<lparr>pageid := pageid (pc_spans c x), npage := n\<rparr>,
        x := (pc_spans c x)\<lparr>pageid := pageid (pc_spans c x) + n, npage := npage (pc_spans c x) - n\<rparr>)"
  shows "pc_st brk (c\<lparr>pc_spans := h\<rparr>) fr (x # sp # us) ex {sp, x}"
proof (rule pc_st_fields [OF st])
  have d: "sp \<noteq> x" "sp \<notin> set us" "sp \<notin> frees fr" "x \<notin> frees fr" "x \<notin> set us"
    using pc_stD(6) [OF st] frees_nodes [of fr "pagelist c"] by auto
  show "h p = pc_spans c p" if "p \<notin> set ((x # us) @ sp # ex)" for p using that by (simp add: h)
  have "geo h (id_span_map c) (insert sp (frees fr \<union> set (x # us))) {sp, x}"
    by (rule geo_split [OF pc_stD(4) [OF st] _ X _ n]) (use d in \<open>auto simp: h\<close>)
  moreover have "frees fr \<union> set (x # sp # us) = insert sp (frees fr \<union> set (x # us))" by auto
  ultimately show "geo h (id_span_map c) (frees fr \<union> set (x # sp # us)) {sp, x}" by simp
  have bx: "(pageid (pc_spans c x) + npage (pc_spans c x)) * PAGE_SIZE \<le> brk (pc_os c)"
    using pc_stD(5) [OF st, of x] by simp
  fix p assume p: "p \<in> set (x # sp # us)"
  show "(pageid (h p) + npage (h p)) * PAGE_SIZE \<le> brk (pc_os c)"
  proof (cases "p = sp \<or> p = x")
    case True
    then have "pageid (h p) + npage (h p) \<le> pageid (pc_spans c x) + npage (pc_spans c x)"
      using n d(1) by (auto simp: h)
    then show ?thesis using bx by (meson le_trans mult_le_mono1)
  next
    case False
    then show ?thesis using p pc_stD(5) [OF st, of p] by (simp add: h)
  qed
qed simp

text \<open>Entering the first and the last page of a span into the map.\<close>

lemma pc_st_ends:
  assumes st: "pc_st brk c fr us ex X" and p: "p \<in> frees fr \<union> set us"
  defines "s \<equiv> pc_spans c p"
  shows "\<exists>pm. bindR (set_page (first_page s) p c) (set_page (last_page s) p) = Inr (c\<lparr>id_span_map := pm\<rparr>) \<and>
    pc_st brk (c\<lparr>id_span_map := pm\<rparr>) fr us ex (X - {p}) \<and>
    get_span (first_page s) pm = p \<and> get_span (last_page s) pm = p \<and>
    (\<forall>k. k \<notin> pages s \<longrightarrow> get_span k pm = get_span k (id_span_map c))"
proof -
  have ends: "first_page s \<in> pages s" "last_page s \<in> pages s"
    using end_pages [of s] geoD(1) [OF pc_stD(4) [OF st] p] by (simp_all add: s_def)
  obtain pm1 where p1: "set_page (first_page s) p c = Inr (c\<lparr>id_span_map := pm1\<rparr>)"
      "pc_st brk (c\<lparr>id_span_map := pm1\<rparr>) fr us ex X"
      "\<forall>j. get_span j pm1 = (if j = first_page s then p else get_span j (id_span_map c))"
    using pc_st_set [OF st p, of "first_page s"] ends by (auto simp: s_def)
  obtain pm where p2: "set_page (last_page s) p (c\<lparr>id_span_map := pm1\<rparr>) = Inr (c\<lparr>id_span_map := pm\<rparr>)"
      "pc_st brk (c\<lparr>id_span_map := pm\<rparr>) fr us ex X"
      "\<forall>j. get_span j pm = (if j = last_page s then p else get_span j pm1)"
    using pc_st_set [OF p1(2) p, of "last_page s"] ends by (auto simp: s_def)
  have "pc_st brk (c\<lparr>id_span_map := pm\<rparr>) fr us ex (X - {p})"
    using pc_st_mapped [OF p2(2), of p] p1(3) p2(3) by (simp add: s_def)
  then show ?thesis using p1(1,3) p2(1,3) ends by (intro exI [of _ pm]) auto
qed

text \<open>The entries a split makes in the map, on the state after the rest was put into its bucket.\<close>

lemma split_entries:
  assumes st: "pc_st brk c fr (sp # us) ex {sp, x}" and x: "x \<in> frees fr"
  defines "r \<equiv> pc_spans c x" and "t \<equiv> pc_spans c sp"
  shows "\<exists>pm. bindR (set_page (pageid r) x c) (\<lambda>c6.
      bindR (set_page (szsub (szadd (pageid r) (npage r)) 1) x c6) (\<lambda>c7.
      bindR (deref_span sp (pc_spans c7)) (\<lambda>t.
      bindR (foldR (\<lambda>j. set_page (szadd (pageid t) j) sp) [0..<npage t] c7) (\<lambda>c8.
      Inr (sp, c8))))) = Inr (sp, c\<lparr>id_span_map := pm\<rparr>) \<and>
    pc_st brk (c\<lparr>id_span_map := pm\<rparr>) fr (sp # us) ex {} \<and> (\<forall>k\<in>pages t. get_span k pm = sp)"
proof -
  note g = pc_stD(4) [OF st]
  have xS: "x \<in> frees fr \<union> set (sp # us)" and sS: "sp \<in> frees fr \<union> set (sp # us)" using x by auto
  have ne: "x \<noteq> sp" "sp \<noteq> 0"
    using pc_stD(6,7) [OF st] x frees_nodes [of fr "pagelist c"] by auto
  have last: "szsub (szadd (pageid r) (npage r)) 1 = last_page r"
    using geo_bound [OF g xS] geoD(1) [OF g xS]
    by (simp add: r_def szadd_exact szsub_exact size_mod_def last_page_def)
  have ex: "szadd (pageid t) j = pageid t + j" if "j < npage t" for j
    using geo_bound [OF g sS] that by (simp add: t_def szadd_exact size_mod_def)
  obtain pm7 where pm7: "bindR (set_page (first_page r) x c) (set_page (last_page r) x) = Inr (c\<lparr>id_span_map := pm7\<rparr>)"
      "pc_st brk (c\<lparr>id_span_map := pm7\<rparr>) fr (sp # us) ex ({sp, x} - {x})"
      "get_span (first_page r) pm7 = x" "get_span (last_page r) pm7 = x"
    using pc_st_ends [OF st xS] unfolding r_def by blast
  have "(\<lambda>j. szadd (pageid t) j) ` set [0..<npage t] = (\<lambda>j. pageid t + j) ` {0..<npage t}"
    by (rule image_cong) (simp_all add: ex)
  then have im: "(\<lambda>j. szadd (pageid t) j) ` set [0..<npage t] = pages t"
    by (simp add: pages_def image_add_atLeastLessThan add.commute)
  then have inp: "\<forall>j\<in>set [0..<npage t]. szadd (pageid t) j \<in> pages (pc_spans (c\<lparr>id_span_map := pm7\<rparr>) sp)"
    unfolding t_def by auto
  obtain pm where pm: "foldR (\<lambda>j. set_page (szadd (pageid t) j) sp) [0..<npage t] (c\<lparr>id_span_map := pm7\<rparr>) =
      Inr (c\<lparr>id_span_map := pm\<rparr>)" "pc_st brk (c\<lparr>id_span_map := pm\<rparr>) fr (sp # us) ex ({sp, x} - {x})"
      "\<forall>j. get_span j pm = (if j \<in> pages t then sp else get_span j pm7)"
    using pc_st_set_all [OF pm7(2) sS inp] unfolding im by auto
  have run: "bindR (set_page (pageid r) x c) (\<lambda>c6.
      bindR (set_page (szsub (szadd (pageid r) (npage r)) 1) x c6) (\<lambda>c7.
      bindR (deref_span sp (pc_spans c7)) (\<lambda>t.
      bindR (foldR (\<lambda>j. set_page (szadd (pageid t) j) sp) [0..<npage t] c7) (\<lambda>c8.
      Inr (sp, c8))))) = Inr (sp, c\<lparr>id_span_map := pm\<rparr>)"
    using pm7(1) pm(1) ne(2) unfolding last by (auto simp: deref_span_def t_def bindR_eq_Inr first_page_def)
  have "get_span (first_page t) pm = sp" "get_span (last_page t) pm = sp"
    using pm(3) end_pages geoD(1) [OF g sS] by (auto simp: t_def)
  then have "pc_st brk (c\<lparr>id_span_map := pm\<rparr>) fr (sp # us) ex ({sp, x} - {x} - {sp})"
    by (intro pc_st_mapped pm(2)) (simp_all add: t_def)
  moreover have "{sp, x} - {x} - {sp} = {}" by blast
  ultimately show ?thesis using run pm(3) by (simp only:) auto
qed

text \<open>Cutting the span \<open>x\<close> of the bucket: its first pages go to \<open>sp\<close>, the rest into the bucket of its length.\<close>

lemma split_cut:
  fixes c :: "'o page_cache"
  assumes st: "pc_st brk c fr us (sp # ex) X"
    and i: "i \<in> set bucket_ids" "fr i = x # xs" and X: "X \<subseteq> {x}" and n: "0 < n" "n < i"
  shows "\<exists>r h fr'. (\<forall>g :: addr \<Rightarrow> span \<Rightarrow> 'o page_cache \<Rightarrow> (addr \<times> 'o page_cache) result.
      bindR (pop_page i c) (\<lambda>(m, c2).
      bindR (deref_span m (pc_spans c2)) (\<lambda>s.
      bindR (upd_field sp (\<lambda>t. t\<lparr>pageid := pageid s, npage := n\<rparr>) c2) (\<lambda>c3.
      bindR (upd_field m (\<lambda>t. t\<lparr>pageid := szadd (pageid t) n, npage := szsub (npage t) n\<rparr>) c3) (\<lambda>c4.
      bindR (deref_span m (pc_spans c4)) (\<lambda>r.
      bindR (push_page (npage r) m c4) (g m r)))))) = g x r (c\<lparr>pc_spans := h\<rparr>)) \<and>
    pageid r = pageid (h x) \<and> npage r = npage (h x) \<and> npage (h sp) = n \<and>
    pc_st brk (c\<lparr>pc_spans := h\<rparr>) fr' (sp # us) ex {sp, x} \<and> x \<in> frees fr' \<and> frees fr' \<subseteq> frees fr \<and>
    (\<forall>p. p \<notin> {sp, x} \<longrightarrow> data_eq (h p) (pc_spans c p)) \<and> idle (h x) = idle (pc_spans c x) \<and>
    usecount (h sp) = usecount (pc_spans c sp) \<and> (\<forall>p\<in>set (us @ ex). h p = pc_spans c p)"
proof -
  obtain h2 where pop: "pop_page i c = Inr (x, c\<lparr>pc_spans := h2\<rparr>)" "same_data (pc_spans c) h2"
      "\<forall>p. p \<notin> set (nodes (pagelist c) fr) \<longrightarrow> h2 p = pc_spans c p"
      and st2: "pc_st brk (c\<lparr>pc_spans := h2\<rparr>) (fr(i := xs)) (x # us) (sp # ex) X"
    using pc_st_pop [where fr = fr, OF st i] by auto
  have x: "x \<in> frees fr" using in_frees [of i x fr] i by simp
  have d: "sp \<noteq> x" "sp \<noteq> 0" "x \<noteq> 0" using pc_stD(6,7) [OF st] x frees_nodes [of fr "pagelist c"] by auto
  have nx: "npage (h2 x) = i" using pc_stD(2) [OF st i(1), of x] i(2) pop(2) by (simp add: same_data_def)
  have "pageid (h2 x) + i \<le> 2 ^ 35" using geo_bound [OF pc_stD(4) [OF st2], of x] by (simp add: nx)
  then have szs: "szadd (pageid (h2 x)) n = pageid (h2 x) + n" "szsub i n = i - n"
    using n i(1) by (simp_all add: szadd_exact szsub_exact size_mod_def NPAGES_def)
  define h3 where "h3 = h2(sp := (h2 sp)\<lparr>pageid := pageid (h2 x), npage := n\<rparr>,
     x := (h2 x)\<lparr>pageid := pageid (h2 x) + n, npage := npage (h2 x) - n\<rparr>)"
  have st4: "pc_st brk (c\<lparr>pc_spans := h3\<rparr>) (fr(i := xs)) (x # sp # us) ex {sp, x}"
    using split_fields [OF st2 X n(1), of h3] n(2) nx by (simp add: h3_def)
  have r: "npage (h3 x) = i - n" by (simp add: h3_def nx)
  let ?fr = "(fr(i := xs))(i - n := x # (fr(i := xs)) (i - n))"
  obtain h where push: "push_page (i - n) x (c\<lparr>pc_spans := h3\<rparr>) = Inr (c\<lparr>pc_spans := h\<rparr>)" "same_data h3 h"
      "\<forall>p. p \<notin> set (nodes (pagelist c) (fr(i := xs))) \<longrightarrow> p \<noteq> x \<longrightarrow> h p = h3 p"
      and st5: "pc_st brk (c\<lparr>pc_spans := h\<rparr>) ?fr (sp # us) ex {sp, x}"
    using pc_st_push [OF st4, of "i - n"] r by auto
  have "i - n \<in> set bucket_ids" using i(1) n by simp
  then have fr': "frees ?fr = insert x (frees (fr(i := xs)))" by (rule frees_insert)
  have sub: "frees (fr(i := xs)) \<subseteq> frees fr" using frees_remove [OF i(1), of fr "[]" x xs] i(2) by auto
  have upd: "upd_field sp (\<lambda>t. t\<lparr>pageid := pageid (h2 x), npage := n\<rparr>) (c\<lparr>pc_spans := h2\<rparr>) =
      Inr (c\<lparr>pc_spans := h2(sp := (h2 sp)\<lparr>pageid := pageid (h2 x), npage := n\<rparr>)\<rparr>)"
    "upd_field x (\<lambda>t. t\<lparr>pageid := szadd (pageid t) n, npage := szsub (npage t) n\<rparr>)
      (c\<lparr>pc_spans := h2(sp := (h2 sp)\<lparr>pageid := pageid (h2 x), npage := n\<rparr>)\<rparr>) = Inr (c\<lparr>pc_spans := h3\<rparr>)"
    using d szs by (simp_all add: upd_field_def upd_span_def h3_def nx)
  have "h p = pc_spans c p" if "p \<in> set (us @ ex)" for p
  proof -
    have "p \<notin> set (nodes (pagelist c) fr)" "p \<noteq> sp" using pc_stD(6) [OF st] that by auto
    moreover have "p \<notin> set (nodes (pagelist c) (fr(i := xs)))" "p \<noteq> x" using pc_stD(6) [OF st4] that by auto
    ultimately show ?thesis using push(3) pop(3) by (simp add: h3_def)
  qed
  then show ?thesis
    using pop(1) upd push(1) d st5 fr' sub x pop(2) push(2) r
    by (intro exI [of _ "h3 x"] exI [of _ h] exI [of _ ?fr])
      (auto simp: deref_span_def same_data_def data_eq_def h3_def)
qed

lemma split_ok:
  fixes c :: "'o page_cache"
  assumes st: "pc_st brk c fr us ex X" and law: "sbrk_law sbrk brk"
    and i: "i \<in> set bucket_ids" "fr i = x # xs" and X: "X \<subseteq> {x}" and n: "0 < n" "n < i"
  shows "\<exists>sp c' fr'. new_Span_split sbrk i n c = Inr (sp, c') \<and> pc_st brk c' fr' (sp # us) ex {} \<and>
    npage (pc_spans c' sp) = n \<and> (\<forall>k\<in>pages (pc_spans c' sp). get_span k (id_span_map c') = sp) \<and>
    pagelist c' = pagelist c \<and> frees fr' \<subseteq> frees fr \<and> sp \<notin> frees fr \<union> set us \<and>
    (\<forall>p. p \<notin> {sp, x} \<longrightarrow> data_eq (pc_spans c' p) (pc_spans c p)) \<and>
    idle (pc_spans c' x) = idle (pc_spans c x) \<and> usecount (pc_spans c' sp) = 0 \<and>
    (\<forall>p\<in>set (us @ ex). pc_spans c' p = pc_spans c p)"
proof -
  obtain sp h1 P os where new: "spanPool_New sbrk c = Inr (sp, c\<lparr>pc_spans := h1, spanPool := P, pc_os := os\<rparr>)"
      "pc_st brk (c\<lparr>pc_spans := h1, spanPool := P, pc_os := os\<rparr>) fr us (sp # ex) X"
      "\<forall>p. p \<noteq> sp \<longrightarrow> h1 p = pc_spans c p" "idle (h1 sp)"
    using pc_st_New [OF st law] by blast
  define c1 where "c1 = c\<lparr>pc_spans := h1, spanPool := P, pc_os := os\<rparr>"
  note st1 = new(2) [folded c1_def]
  have d: "sp \<noteq> x" "sp \<notin> frees fr \<union> set us" "\<forall>p\<in>set (us @ ex). p \<noteq> sp"
    using pc_stD(6) [OF st1] in_frees [of i x fr] i frees_nodes [of fr "pagelist c1"] by auto
  obtain r h fr' where cut: "\<forall>g :: addr \<Rightarrow> span \<Rightarrow> 'o page_cache \<Rightarrow> (addr \<times> 'o page_cache) result. bindR (pop_page i c1) (\<lambda>(m, c2).
      bindR (deref_span m (pc_spans c2)) (\<lambda>s.
      bindR (upd_field sp (\<lambda>t. t\<lparr>pageid := pageid s, npage := n\<rparr>) c2) (\<lambda>c3.
      bindR (upd_field m (\<lambda>t. t\<lparr>pageid := szadd (pageid t) n, npage := szsub (npage t) n\<rparr>) c3) (\<lambda>c4.
      bindR (deref_span m (pc_spans c4)) (\<lambda>r.
      bindR (push_page (npage r) m c4) (g m r)))))) = g x r (c1\<lparr>pc_spans := h\<rparr>)"
    "pageid r = pageid (h x)" "npage r = npage (h x)" "npage (h sp) = n"
    "pc_st brk (c1\<lparr>pc_spans := h\<rparr>) fr' (sp # us) ex {sp, x}" "x \<in> frees fr'" "frees fr' \<subseteq> frees fr"
    "\<forall>p. p \<notin> {sp, x} \<longrightarrow> data_eq (h p) (pc_spans c1 p)" "idle (h x) = idle (pc_spans c1 x)"
    "usecount (h sp) = usecount (pc_spans c1 sp)" "\<forall>p\<in>set (us @ ex). h p = pc_spans c1 p"
    using split_cut [where fr = fr, OF st1 i X n] by blast
  obtain pm where ent: "bindR (set_page (pageid (h x)) x (c1\<lparr>pc_spans := h\<rparr>)) (\<lambda>c6.
      bindR (set_page (szsub (szadd (pageid (h x)) (npage (h x))) 1) x c6) (\<lambda>c7.
      bindR (deref_span sp (pc_spans c7)) (\<lambda>t.
      bindR (foldR (\<lambda>j. set_page (szadd (pageid t) j) sp) [0..<npage t] c7) (\<lambda>c8.
      Inr (sp, c8))))) = Inr (sp, c1\<lparr>pc_spans := h, id_span_map := pm\<rparr>)"
      "pc_st brk (c1\<lparr>pc_spans := h, id_span_map := pm\<rparr>) fr' (sp # us) ex {}"
      "\<forall>k\<in>pages (h sp). get_span k pm = sp"
    using split_entries [OF cut(5,6)] by auto
  have "new_Span_split sbrk i n c = Inr (sp, c1\<lparr>pc_spans := h, id_span_map := pm\<rparr>)"
    unfolding new_Span_split_def new(1) [folded c1_def] bindR_simps prod.case cut(1) [rule_format] cut(2,3) by (rule ent(1))
  moreover have "\<forall>p. p \<notin> {sp, x} \<longrightarrow> data_eq (h p) (pc_spans c p)" "\<forall>p\<in>set (us @ ex). h p = pc_spans c p"
    using cut(8,11) new(3) d(3) by (simp_all add: c1_def)
  ultimately show ?thesis
    using ent(2,3) cut(4,7,9,10) new(3,4) d(1,2)
    by (intro exI [of _ sp] exI [of _ "c1\<lparr>pc_spans := h, id_span_map := pm\<rparr>"] exI [of _ fr']) (simp add: c1_def)
qed

section \<open>Growing\<close>

definition brk_le :: "('o \<Rightarrow> nat) \<Rightarrow> 'o \<Rightarrow> 'o \<Rightarrow> bool" where
  "brk_le brk os os' \<longleftrightarrow> brk os \<le> brk os' \<and> (PAGE_SIZE dvd brk os \<longrightarrow> PAGE_SIZE dvd brk os')"

lemma brk_le_refl [simp]: "brk_le brk os os"
  by (simp add: brk_le_def)

lemma brk_le_trans: "brk_le brk a b \<Longrightarrow> brk_le brk b c \<Longrightarrow> brk_le brk a c"
  by (auto simp: brk_le_def)

lemma SystemAlloc_brk:
  assumes "sbrk_law sbrk brk" "SystemAlloc_sbrk sbrk n os = Inr (p, os')"
  shows "brk_le brk os os'"
proof -
  have "brk os' = brk os + n * 2 ^ 13 mod size_mod" using SystemAlloc_law [OF assms(1), of n os] assms(2) by auto
  moreover have "PAGE_SIZE dvd n * 2 ^ 13 mod size_mod"
    by (rule dvd_mod) (simp_all add: PAGE_SIZE_def size_mod_def)
  ultimately show ?thesis by (simp add: brk_le_def)
qed

lemma ensure_key_brk:
  assumes law: "sbrk_law sbrk brk" and e: "ensure_key sbrk k (pm, os) = Inr (pm', os')"
  shows "brk_le brk os os'"
  using e
  by (auto simp: ensure_key_def bindR_eq_Inr Let_def split: option.splits
      dest!: SystemAlloc_brk [OF law] intro: brk_le_trans)

lemma Ensure_loop_brk:
  "sbrk_law sbrk brk \<Longrightarrow> Ensure_loop sbrk k final s = Inr (b, s') \<Longrightarrow> brk_le brk (snd s) (snd s')"
proof (induction sbrk k final s arbitrary: b s' rule: Ensure_loop.induct)
  case (1 sbrk k final s)
  show ?case
  proof (cases "k \<le> final \<and> \<not> (idx1 k \<ge> INTERIOR_LENGTH \<or> idx2 k \<ge> INTERIOR_LENGTH)")
    case True
    then obtain s1 where s1: "ensure_key sbrk k s = Inr s1"
        "Ensure_loop sbrk ((k div 2 ^ LEAF_BITS + 1) * 2 ^ LEAF_BITS) final s1 = Inr (b, s')"
      using 1(3) by (subst (asm) Ensure_loop.simps) (auto split: sum.splits)
    have "brk_le brk (snd s) (snd s1)"
      using ensure_key_brk [OF 1(2), of k "fst s" "snd s" "fst s1" "snd s1"] s1(1) by simp
    moreover have "brk_le brk (snd s1) (snd s')"
      using 1(1) [OF _ _ s1(1) 1(2) s1(2)] True by blast
    ultimately show ?thesis by (rule brk_le_trans)
  next
    case False
    then show ?thesis using 1(3) by (subst (asm) Ensure_loop.simps) (auto split: if_splits)
  qed
qed

lemma geo_grow:
  assumes g: "geo h pm S {}" and sp: "sp \<notin> S" "0 < npage (h' sp)" "npage (h' sp) < NPAGES"
    and same: "\<And>p. p \<in> S \<Longrightarrow> h' p = h p" and e: "extends pm pm'"
    and fresh: "\<And>k. k \<in> pages (h' sp) \<Longrightarrow> ready pm' k"
      "\<And>p. p \<in> S \<Longrightarrow> pageid (h p) + npage (h p) \<le> pageid (h' sp)" "0 < pageid (h' sp)"
  shows "geo h' pm' (insert sp S) {sp}"
proof (rule geoI)
  have get: "get_span k pm' = get_span k pm" "ready pm k \<Longrightarrow> ready pm' k" for k
    using e by (auto simp: extends_def)
  have apart: "pages (h' sp) \<inter> pages (h' p) = {}" if "p \<in> S" for p
    using fresh(2) [OF that] same [OF that] by (auto simp: pages_def)
  fix p assume p: "p \<in> insert sp S"
  show "0 < npage (h' p) \<and> npage (h' p) < NPAGES"
    using p sp geoD(1,2) [OF g, of p] same [of p] by auto
  show "ready pm' k" if "k \<in> pages (h' p)" for k
    using p that fresh(1) get(2) geoD(3) [OF g, of p k] same [of p] by auto
  show "pages (h' p) \<inter> pages (h' q) = {}" if "q \<in> insert sp S" "p \<noteq> q" for q
    using p that apart [of p] apart [of q] geoD(4) [OF g, of p q] same [of p] same [of q] by auto
  show "0 \<notin> pages (h' p)"
    using p fresh(3) geoD(8) [OF g, of p] same [of p] by (auto simp: pages_def)
  show "get_span (first_page (h' p)) pm' = p \<and> get_span (last_page (h' p)) pm' = p" if "p \<notin> {sp}"
    using p that geoD(5,6) [OF g, of p] same [of p] by (simp add: get)
next
  fix k assume "get_span k pm' \<noteq> 0"
  then have "get_span k pm \<noteq> 0" using e by (simp add: extends_def)
  then show "\<exists>p\<in>insert sp S. k \<in> pages (h' p)" using geoD(7) [OF g] same by fastforce
qed

lemma objs_ok_brk: "objs_ok brk c (nodes pl fr @ L) \<Longrightarrow> 0 < brk (pc_os c)"
proof -
  assume o: "objs_ok brk c (nodes pl fr @ L)"
  have "pl 1 \<in> set (nodes pl fr)" using in_nodes [of 1 pl fr] by (simp add: NPAGES_def)
  with o show ?thesis by (auto simp: objs_ok_def sizeof_Span_def)
qed

text \<open>The memory for 128 new pages, and the part of the page map for them.\<close>

lemma grow_memory:
  assumes law: "sbrk_law sbrk brk" and dvd: "PAGE_SIZE dvd brk os" and room: "brk os + 2 ^ 33 \<le> 2 ^ 48"
  defines "pid \<equiv> brk os div PAGE_SIZE"
  shows "\<exists>os1 pm' os2. SystemAlloc_sbrk sbrk 128 os = Inr (brk os, os1) \<and>
    Ensure sbrk pid (128 * PAGE_SIZE) (pm, os1) = Inr (True, pm', os2) \<and> extends pm pm' \<and>
    (\<forall>k. pid \<le> k \<and> k < pid + 128 \<longrightarrow> ready pm' k) \<and> (pid + 128) * PAGE_SIZE \<le> brk os2 \<and> PAGE_SIZE dvd brk os2"
proof -
  obtain os1 where alloc: "SystemAlloc_sbrk sbrk 128 os = Inr (brk os, os1)" "brk os1 = brk os + 128 * PAGE_SIZE"
    using SystemAlloc_law [OF law, of 128 os] by (auto simp: size_mod_def PAGE_SIZE_def)
  have rm: "pid + 128 * PAGE_SIZE \<le> 2 ^ BITS"
    using room unfolding pid_def PAGE_SIZE_def pm_consts by simp
  obtain pm' os2 where ens: "Ensure sbrk pid (128 * PAGE_SIZE) (pm, os1) = Inr (True, pm', os2)" "extends pm pm'"
      "\<forall>k. pid \<le> k \<and> k < pid + 128 * PAGE_SIZE \<longrightarrow> ready pm' k"
    using Ensure_ok [OF sbrk_lawD(3) [OF law] _ rm, of pm os1] by (auto simp: PAGE_SIZE_def)
  have "brk_le brk os1 os2" "brk_le brk os os1"
    using Ensure_loop_brk [OF law ens(1) [unfolded Ensure_def]] SystemAlloc_brk [OF law alloc(1)] by simp_all
  then have "brk os1 \<le> brk os2" "PAGE_SIZE dvd brk os2" using dvd by (auto simp: brk_le_def)
  moreover have "(pid + 128) * PAGE_SIZE = brk os1" using dvd by (simp add: alloc(2) pid_def add_mult_distrib)
  moreover have "\<forall>k. pid \<le> k \<and> k < pid + 128 \<longrightarrow> ready pm' k" using ens(3) by (auto simp: PAGE_SIZE_def)
  ultimately show ?thesis using alloc(1) ens(1,2) by auto
qed

text \<open>The new span with its pages at the old break.\<close>

lemma grow_fields:
  assumes st: "pc_st brk c fr us (sp # ex) {}" and pid: "pid * PAGE_SIZE = brk (pc_os c)"
    and pm: "extends (id_span_map c) pm" "\<forall>k. pid \<le> k \<and> k < pid + 128 \<longrightarrow> ready pm k"
    and os: "(pid + 128) * PAGE_SIZE \<le> brk os" "PAGE_SIZE dvd brk os"
  defines "h \<equiv> (pc_spans c)(sp := (pc_spans c sp)\<lparr>pageid := pid, npage := 128, objsize := 128 * PAGE_SIZE\<rparr>)"
  shows "pc_st brk (c\<lparr>id_span_map := pm, pc_os := os, pc_spans := h\<rparr>) fr (sp # us) ex {sp}" (is "pc_st brk ?c _ _ _ _")
proof -
  let ?h = "pc_spans c"
  have d: "sp \<notin> frees fr \<union> set us" "sp \<notin> set (nodes (pagelist c) fr)"
    using pc_stD(6) [OF st] frees_nodes [of fr "pagelist c"] by auto
  have pid0: "0 < pid" using objs_ok_brk [OF pc_stD(3) [OF st]] pid by (cases pid) auto
  have below: "(pageid (?h p) + npage (?h p)) * PAGE_SIZE \<le> pid * PAGE_SIZE" if "p \<in> frees fr \<union> set us" for p
    using pc_stD(5) [OF st that] pid by simp
  have g: "geo h pm (insert sp (frees fr \<union> set us)) {sp}"
  proof (rule geo_grow [OF pc_stD(4) [OF st]])
    show "pageid (?h p) + npage (?h p) \<le> pageid (h sp)" if "p \<in> frees fr \<union> set us" for p
      using below [OF that] by (simp add: h_def PAGE_SIZE_def)
    show "ready pm k" if "k \<in> pages (h sp)" for k using that pm(2) by (auto simp: pages_def h_def)
  qed (use d(1) pm(1) pid0 in \<open>auto simp: h_def NPAGES_def\<close>)
  have le: "brk (pc_os c) \<le> brk os" using os(1) pid by (simp add: add_mult_distrib)
  have eq: "?c = c\<lparr>pc_os := os\<rparr>\<lparr>id_span_map := pm\<rparr>\<lparr>pc_spans := h\<rparr>" by simp
  show ?thesis
  proof (rule pc_stI)
    have "objs_ok brk (c\<lparr>pc_os := os\<rparr>\<lparr>id_span_map := pm\<rparr>) (nodes (pagelist c) fr @ us @ sp # ex)"
      using objs_ok_os [of brk c _ os] pc_stD(3) [OF st] le os(2) by simp
    from objs_ok_spans [OF this, of h] have "objs_ok brk ?c (nodes (pagelist c) fr @ us @ sp # ex)"
      unfolding eq by (simp add: h_def)
    then show "objs_ok brk ?c (nodes (pagelist ?c) fr @ (sp # us) @ ex)" by (auto intro: objs_ok_perm)
    have "same_links ?h h (set (nodes (pagelist c) fr))" using d(2) by (auto simp: same_links_def h_def)
    then show "links_ok (pc_spans ?c) (pagelist ?c) fr" using links_ok_cong [OF pc_stD(1) [OF st], of h] by simp
    show "npage (pc_spans ?c p) = i" if "i \<in> set bucket_ids" "p \<in> set (fr i)" for i p
      using pc_stD(2) [OF st that] in_frees [of i p fr, OF that] d(1) by (auto simp: h_def)
    show "(pageid (pc_spans ?c p) + npage (pc_spans ?c p)) * PAGE_SIZE \<le> brk (pc_os ?c)"
      if "p \<in> frees fr \<union> set (sp # us)" for p
      using that below [of p] os(1) by (cases "p = sp") (auto simp: h_def add_mult_distrib)
  qed (use g in simp)
qed

lemma grow_ok:
  assumes st: "pc_st brk c fr us ex {}" and law: "sbrk_law sbrk brk"
    and room: "brk (pc_os c) + 131072 + 2 ^ 33 \<le> 2 ^ 48"
  shows "\<exists>sp c'. grow sbrk c = Inr c' \<and> pc_st brk c' (fr(128 := sp # fr 128)) us ex {sp} \<and>
    pagelist c' = pagelist c \<and> idle (pc_spans c' sp) \<and>
    (\<forall>p. p \<noteq> sp \<longrightarrow> data_eq (pc_spans c' p) (pc_spans c p)) \<and> sp \<notin> frees fr \<union> set us \<and>
    (\<forall>p\<in>set (us @ ex). pc_spans c' p = pc_spans c p)"
proof -
  obtain sp h1 P os where new: "spanPool_New sbrk c = Inr (sp, c\<lparr>pc_spans := h1, spanPool := P, pc_os := os\<rparr>)"
      "pc_st brk (c\<lparr>pc_spans := h1, spanPool := P, pc_os := os\<rparr>) fr us (sp # ex) {}"
      "\<forall>p. p \<noteq> sp \<longrightarrow> h1 p = pc_spans c p" "idle (h1 sp)" "brk os \<le> brk (pc_os c) + 131072"
    using pc_st_New [OF st law] by blast
  note st1 = new(2)
  have d: "sp \<noteq> 0" "sp \<notin> frees fr \<union> set us" "\<forall>p\<in>set (us @ ex). p \<notin> set (nodes (pagelist c) fr) \<and> p \<noteq> sp"
    using pc_stD(6,7) [OF st1] frees_nodes [of fr "pagelist c"] by auto
  define pid where "pid = brk os div PAGE_SIZE"
  have dvd: "PAGE_SIZE dvd brk os" using pc_stD(3) [OF st1] by (simp add: objs_ok_def)
  obtain os1 pm os2 where mem: "SystemAlloc_sbrk sbrk 128 os = Inr (brk os, os1)"
      "Ensure sbrk pid (128 * PAGE_SIZE) (id_span_map c, os1) = Inr (True, pm, os2)" "extends (id_span_map c) pm"
      "\<forall>k. pid \<le> k \<and> k < pid + 128 \<longrightarrow> ready pm k" "(pid + 128) * PAGE_SIZE \<le> brk os2" "PAGE_SIZE dvd brk os2"
    using grow_memory [OF law dvd, of "id_span_map c", folded pid_def] new(5) room by auto
  define h2 where "h2 = h1(sp := (h1 sp)\<lparr>pageid := pid, npage := 128, objsize := 128 * PAGE_SIZE\<rparr>)"
  let ?c = "\<lambda>h. c\<lparr>spanPool := P, id_span_map := pm, pc_os := os2, pc_spans := h\<rparr>"
  have "pc_st brk (?c h2) fr (sp # us) ex {sp}"
    using grow_fields [OF st1 _ _ mem(4-6)] mem(3) dvd by (simp add: pid_def h2_def)
  from pc_st_push [OF this, of 128]
  obtain h3 where push: "push_page 128 sp (?c h2) = Inr (?c h3)" "same_data h2 h3"
      "\<forall>p. p \<notin> set (nodes (pagelist c) fr) \<longrightarrow> p \<noteq> sp \<longrightarrow> h3 p = h2 p"
      "pc_st brk (?c h3) (fr(128 := sp # fr 128)) us ex {sp}"
    by (auto simp: h2_def)
  have eq: "?c h2 = c\<lparr>spanPool := P, pc_spans := h2, id_span_map := pm, pc_os := os2\<rparr>" by simp
  have "grow sbrk c = Inr (?c h3)"
    using new(1) mem(1,2) push(1) [unfolded eq] d(1)
    by (simp add: grow_def NPAGES_def upd_field_def upd_span_def flip: pid_def) (simp add: h2_def)
  moreover have "\<forall>p\<in>set (us @ ex). h3 p = pc_spans c p" using push(3) new(3) d(3) by (simp add: h2_def)
  moreover have "\<forall>p. p \<noteq> sp \<longrightarrow> data_eq (h3 p) (pc_spans c p)"
    using push(2) new(3) by (simp add: same_data_def data_eq_def h2_def)
  moreover have "idle (h3 sp)" using push(2) new(4) by (simp add: same_data_def h2_def)
  ultimately show ?thesis using push(4) d(2) by (intro exI [of _ sp] exI [of _ "?c h3"]) simp
qed

end
