(* ===== verification/PageCacheMerge.thy ===== *)
theory PageCacheMerge
  imports PageCacheSafe
begin

text \<open>
  \<^verbatim>\<open>new_Span\<close> and \<^verbatim>\<open>relase_to_PageCache\<close> as a whole: both keep the invariant of the page cache, the first
  hands out pages that belong to no other span, the second loses no page and leaves no neighbours
  that could still be merged.
\<close>

section \<open>Allocation\<close>

lemma exact_ok:
  assumes st: "pc_st brk c fr us ex {}" and i: "i \<in> set bucket_ids" "fr i = x # xs"
  shows "\<exists>c'. new_Span_exact i c = Inr (x, c') \<and> pc_st brk c' (fr(i := xs)) (x # us) ex {} \<and>
    npage (pc_spans c' x) = i \<and> pagelist c' = pagelist c \<and>
    (\<forall>p. data_eq (pc_spans c' p) (pc_spans c p)) \<and>
    (\<forall>k. k \<noteq> pageid (pc_spans c x) \<longrightarrow> get_span k (id_span_map c') = get_span k (id_span_map c)) \<and>
    (\<forall>p\<in>set (us @ ex). pc_spans c' p = pc_spans c p)"
proof -
  obtain h where pop: "pop_page i c = Inr (x, c\<lparr>pc_spans := h\<rparr>)" "same_data (pc_spans c) h"
      "\<forall>p. p \<notin> set (nodes (pagelist c) fr) \<longrightarrow> h p = pc_spans c p"
      and st1: "pc_st brk (c\<lparr>pc_spans := h\<rparr>) (fr(i := xs)) (x # us) ex {}"
    using pc_st_pop [where fr = fr, OF st i] by blast
  have keep: "h p = pc_spans c p" if "p \<in> set (us @ ex)" for p
    using pc_stD(6) [OF st] that pop(3) by auto
  have nz: "x \<noteq> 0" using pc_stD(7) [OF st1] by auto
  have xS: "x \<in> frees (fr(i := xs)) \<union> set (x # us)" by simp
  have "pageid (h x) \<in> pages (h x)"
    using geoD(1) [OF pc_stD(4) [OF st1] xS] by (simp add: pages_def)
  then have inp: "\<forall>j\<in>set [0..<npage (h x)]. pageid (h x) \<in> pages (pc_spans (c\<lparr>pc_spans := h\<rparr>) x)" by simp
  obtain pm where pm: "foldR (\<lambda>j. set_page (pageid (h x)) x) [0..<npage (h x)] (c\<lparr>pc_spans := h\<rparr>) =
      Inr (c\<lparr>pc_spans := h, id_span_map := pm\<rparr>)"
      "pc_st brk (c\<lparr>pc_spans := h, id_span_map := pm\<rparr>) (fr(i := xs)) (x # us) ex {}"
      "\<forall>j. get_span j pm = (if j \<in> (\<lambda>_. pageid (h x)) ` set [0..<npage (h x)] then x
        else get_span j (id_span_map (c\<lparr>pc_spans := h\<rparr>)))"
    using pc_st_set_all [OF st1 xS inp] by auto
  have "npage (h x) = i" using pc_stD(2) [OF st i(1), of x] i(2) pop(2) by (simp add: same_data_def)
  then show ?thesis
    using pop(1,2) pm nz keep
    by (intro exI [of _ "c\<lparr>pc_spans := h, id_span_map := pm\<rparr>"])
      (auto simp: new_Span_exact_def deref_span_def same_data_def data_eq_def)
qed

lemma find_bucket_eq:
  assumes "links_ok (pc_spans c) (pagelist c) fr" "set L \<subseteq> set bucket_ids"
  shows "find_bucket c L = Inr (List.find (\<lambda>i. fr i \<noteq> []) L)"
  using assms(2)
proof (induction L)
  case (Cons i L)
  then have "sl_empty (pagelist c i) (pc_spans c) = Inr (fr i = [])"
    using assms(1) sl_empty_iff unfolding links_ok_def by simp
  with Cons show ?case by simp
qed simp

lemma find_SomeD: "List.find P L = Some i \<Longrightarrow> i \<in> set L \<and> P i"
  by (auto simp: find_Some_iff)

lemma find_append:
  "List.find P (xs @ ys) = (case List.find P xs of None \<Rightarrow> List.find P ys | Some x \<Rightarrow> Some x)"
  by (induction xs) auto

text \<open>A span of a larger bucket, which may be the one that was just taken from the system.\<close>

lemma new_Span_larger:
  assumes st: "pc_st brk c fr us ex X" and law: "sbrk_law sbrk brk"
    and n: "0 < n" "n < NPAGES" "fr n = []"
    and f: "List.find (\<lambda>i. fr i \<noteq> []) [n + 1..<NPAGES] = Some i" "X \<subseteq> {hd (fr i)}"
    and free: "\<forall>p\<in>frees fr. idle (pc_spans c p)"
  shows "\<exists>sp c' fr'. new_Span (Suc k) sbrk n c = Inr (sp, c') \<and> pc_inv brk c' fr' (sp # us) ex \<and>
    npage (pc_spans c' sp) = n \<and> usecount (pc_spans c' sp) = 0 \<and> (\<forall>p\<in>set (us @ ex). pc_spans c' p = pc_spans c p)"
proof -
  have i: "i \<in> set [n + 1..<NPAGES]" "fr i \<noteq> []" using find_SomeD [OF f(1)] by auto
  then have ib: "i \<in> set bucket_ids" "n < i" and nb: "n \<in> set bucket_ids" using n by auto
  obtain x xs where x: "fr i = x # xs" using i(2) by (cases "fr i") auto
  have Xx: "X \<subseteq> {x}" using f(2) x by simp
  have L: "set [n + 1..<NPAGES] \<subseteq> set bucket_ids" by auto
  have e: "sl_empty (pagelist c n) (pc_spans c) = Inr True"
    using pc_stD(1) [OF st] nb n(3) sl_empty_iff [of _ _ "[]"] unfolding links_ok_def by metis
  have run: "new_Span (Suc k) sbrk n c = new_Span_split sbrk i n c"
    using n(1,2) e find_bucket_eq [OF pc_stD(1) [OF st] L] f(1) by (simp del: upt_Suc)
  obtain sp c' fr' where r: "new_Span_split sbrk i n c = Inr (sp, c')" "pc_st brk c' fr' (sp # us) ex {}"
      "npage (pc_spans c' sp) = n" "frees fr' \<subseteq> frees fr" "sp \<notin> frees fr \<union> set us"
      "\<forall>p. p \<notin> {sp, x} \<longrightarrow> data_eq (pc_spans c' p) (pc_spans c p)"
      "idle (pc_spans c' x) = idle (pc_spans c x)" "usecount (pc_spans c' sp) = 0" "\<forall>p\<in>set (us @ ex). pc_spans c' p = pc_spans c p"
    using split_ok [where fr = fr, OF st law ib(1) x Xx n(1) ib(2)] by blast
  have xf: "x \<in> frees fr" using in_frees [of i x fr] ib(1) x by simp
  have "idle (pc_spans c' p)" if "p \<in> frees fr'" for p
  proof (cases "p = x")
    case True
    then show ?thesis using r(7) free xf by simp
  next
    case False
    then have "data_eq (pc_spans c' p) (pc_spans c p)" 
    proof -
      have "p \<noteq> sp" using that r(4,5) by auto
      with False show ?thesis using r(6) by simp
    qed
    then show ?thesis using that r(4) free by (auto simp: data_eq_def)
  qed
  then have "pc_inv brk c' fr' (sp # us) ex" using r(2) by (simp add: pc_inv_def)
  then show ?thesis using run r(1,3,8,9) by metis
qed

text \<open>The result of a successful call that asked for \<open>n\<close> pages.\<close>

definition span_made ::
    "('o \<Rightarrow> nat) \<Rightarrow> 'o page_cache \<Rightarrow> nat \<Rightarrow> addr list \<Rightarrow> addr list \<Rightarrow> (addr \<times> 'o page_cache) result \<Rightarrow> bool" where
  "span_made brk c n us ex r \<longleftrightarrow> (\<exists>sp c' fr'. r = Inr (sp, c') \<and> pc_inv brk c' fr' (sp # us) ex \<and>
     npage (pc_spans c' sp) = n \<and> usecount (pc_spans c' sp) = 0 \<and> (\<forall>p\<in>set (us @ ex). pc_spans c' p = pc_spans c p))"

lemma new_Span_fits:
  assumes inv: "pc_inv brk c fr us ex" and n: "n \<in> set bucket_ids" "fr n = x # xs"
  shows "span_made brk c n us ex (new_Span_exact n c)"
proof -
  have st: "pc_st brk c fr us ex {}" and free: "\<forall>p\<in>frees fr. idle (pc_spans c p)"
    using inv by (simp_all add: pc_inv_def)
  obtain c' where c': "new_Span_exact n c = Inr (x, c')" "pc_st brk c' (fr(n := xs)) (x # us) ex {}"
      "npage (pc_spans c' x) = n" "\<forall>p. data_eq (pc_spans c' p) (pc_spans c p)"
      "\<forall>p\<in>set (us @ ex). pc_spans c' p = pc_spans c p"
    using exact_ok [where fr = fr, OF st n] by blast
  have "frees (fr(n := xs)) \<subseteq> frees fr" using frees_remove [OF n(1), of fr "[]" x xs] n(2) by auto
  then have "pc_inv brk c' (fr(n := xs)) (x # us) ex"
    using c'(2,4) free by (auto simp: pc_inv_def data_eq_def)
  moreover have "usecount (pc_spans c' x) = 0"
    using c'(4) free in_frees [of n x fr] n by (auto simp: data_eq_def)
  ultimately show ?thesis using c'(1,3,5) unfolding span_made_def by blast
qed

lemma new_Span_grown:
  assumes inv: "pc_inv brk c fr us ex" and law: "sbrk_law sbrk brk" and n: "0 < n" "n < 128"
    and room: "brk (pc_os c) + 131072 + 2 ^ 33 \<le> 2 ^ 48"
    and none: "fr n = []" "List.find (\<lambda>i. fr i \<noteq> []) [n + 1..<NPAGES] = None"
  shows "\<exists>c1. grow sbrk c = Inr c1 \<and> span_made brk c n us ex (new_Span 1 sbrk n c1)"
proof -
  have st: "pc_st brk c fr us ex {}" and free: "\<forall>p\<in>frees fr. idle (pc_spans c p)"
    using inv by (simp_all add: pc_inv_def)
  obtain sp c1 where g: "grow sbrk c = Inr c1" "pc_st brk c1 (fr(128 := sp # fr 128)) us ex {sp}"
      "pagelist c1 = pagelist c" "idle (pc_spans c1 sp)"
      "\<forall>p. p \<noteq> sp \<longrightarrow> data_eq (pc_spans c1 p) (pc_spans c p)" "\<forall>p\<in>set (us @ ex). pc_spans c1 p = pc_spans c p"
    using grow_ok [OF st law room] by blast
  let ?fr = "fr(128 := sp # fr 128)"
  have "NPAGES = Suc 128" by (simp add: NPAGES_def)
  then have "[n + 1..<NPAGES] = [n + 1..<128] @ [128]" using n upt_Suc_append [of "n + 1" 128] by simp
  moreover have "List.find (\<lambda>i. ?fr i \<noteq> []) [n + 1..<128] = None"
    using none(2) n by (auto simp: find_None_iff NPAGES_def)
  ultimately have f: "List.find (\<lambda>i. ?fr i \<noteq> []) [n + 1..<NPAGES] = Some 128" by (simp add: find_append)
  have "frees ?fr = insert sp (frees fr)" by (rule frees_insert) (simp add: NPAGES_def)
  then have free1: "\<forall>p\<in>frees ?fr. idle (pc_spans c1 p)"
    using g(4,5) free unfolding data_eq_def by (metis insertE)
  have "n < NPAGES" using n by (simp add: NPAGES_def)
  from new_Span_larger [where fr = ?fr, OF g(2) law n(1) this _ f _ free1, of 0] none(1) n
  obtain q c' fr' where r: "new_Span 1 sbrk n c1 = Inr (q, c')" "pc_inv brk c' fr' (q # us) ex"
      "npage (pc_spans c' q) = n" "usecount (pc_spans c' q) = 0" "\<forall>p\<in>set (us @ ex). pc_spans c' p = pc_spans c1 p"
    by auto
  then show ?thesis using g(1,6) unfolding span_made_def by auto
qed

lemma new_Span_ok:
  assumes inv: "pc_inv brk c fr us ex" and law: "sbrk_law sbrk brk" and n: "0 < n" "n < 128"
    and room: "brk (pc_os c) + 131072 + 2 ^ 33 \<le> 2 ^ 48"
  shows "\<exists>sp c' fr'. new_Span 2 sbrk n c = Inr (sp, c') \<and> pc_inv brk c' fr' (sp # us) ex \<and>
    npage (pc_spans c' sp) = n \<and> usecount (pc_spans c' sp) = 0 \<and> (\<forall>p\<in>set (us @ ex). pc_spans c' p = pc_spans c p)"
proof -
  have st: "pc_st brk c fr us ex {}" and free: "\<forall>p\<in>frees fr. idle (pc_spans c p)"
    using inv by (simp_all add: pc_inv_def)
  have nb: "n \<in> set bucket_ids" "n < NPAGES" using n by (simp_all add: NPAGES_def)
  have L: "set [n + 1..<NPAGES] \<subseteq> set bucket_ids" by auto
  have e: "sl_empty (pagelist c n) (pc_spans c) = Inr (fr n = [])"
    using pc_stD(1) [OF st] nb sl_empty_iff unfolding links_ok_def by metis
  consider (exact) x xs where "fr n = x # xs"
    | (larger) i where "fr n = []" "List.find (\<lambda>i. fr i \<noteq> []) [n + 1..<NPAGES] = Some i"
    | (none) "fr n = []" "List.find (\<lambda>i. fr i \<noteq> []) [n + 1..<NPAGES] = None"
    by (meson neq_Nil_conv option.exhaust)
  then show ?thesis
  proof cases
    case exact
    have "new_Span 2 sbrk n c = new_Span_exact n c" using n nb e exact by (simp add: numeral_2_eq_2)
    then show ?thesis using new_Span_fits [where fr = fr, OF inv nb(1) exact] by (simp add: span_made_def)
  next
    case larger
    then show ?thesis
      using new_Span_larger [where fr = fr, OF st law n(1) nb(2) larger _ free, of 1] by (simp add: numeral_2_eq_2)
  next
    case none
    obtain c1 where g: "grow sbrk c = Inr c1" "span_made brk c n us ex (new_Span 1 sbrk n c1)"
      using new_Span_grown [OF inv law n room none] by blast
    have "new_Span 2 sbrk n c = new_Span 1 sbrk n c1"
      using n nb e none g(1) find_bucket_eq [OF pc_stD(1) [OF st] L] by (simp add: numeral_2_eq_2)
    then show ?thesis using g(2) by (simp only: span_made_def)
  qed
qed

section \<open>Merging\<close>

lemma geo_merge:
  assumes g: "geo h pm S {p}" and pq: "p \<in> S" "q \<in> S" "q \<noteq> p"
    and m: "pages (h' p) = pages (h p) \<union> pages (h q)" "0 < npage (h' p)" "npage (h' p) < NPAGES"
    and same: "\<And>r. r \<in> S \<Longrightarrow> r \<noteq> p \<Longrightarrow> r \<noteq> q \<Longrightarrow> data_eq (h' r) (h r)"
  shows "geo h' pm (S - {q}) {p}"
proof -
  have other: "pages (h' r) = pages (h r)" "first_page (h' r) = first_page (h r)"
    "last_page (h' r) = last_page (h r)" "npage (h' r) = npage (h r)" if "r \<in> S - {q}" "r \<noteq> p" for r
    using same [of r] that by (auto simp: data_eq_def pages_def first_page_def last_page_def)
  have apart: "pages (h' p) \<inter> pages (h r) = {}" if "r \<in> S - {q}" "r \<noteq> p" for r
    using geoD(4) [OF g pq(1), of r] geoD(4) [OF g pq(2), of r] that m(1) by auto
  show ?thesis
  proof (rule geoI)
    fix r assume r: "r \<in> S - {q}"
    show "0 < npage (h' r) \<and> npage (h' r) < NPAGES"
      using r m(2,3) other(4) [OF r] geoD(1,2) [OF g, of r] by (cases "r = p") auto
    show "ready pm k" if "k \<in> pages (h' r)" for k
      using that r m(1) other(1) [OF r] geoD(3) [OF g pq(1)] geoD(3) [OF g pq(2)] geoD(3) [OF g, of r]
      by (cases "r = p") auto
    show "pages (h' r) \<inter> pages (h' s) = {}" if s: "s \<in> S - {q}" "r \<noteq> s" for s
    proof -
      consider "r = p" | "s = p" | "r \<noteq> p" "s \<noteq> p" by blast
      then show ?thesis
      proof cases
        case 1
        then show ?thesis using apart [OF s(1)] other(1) [OF s(1)] s(2) by simp
      next
        case 2
        then show ?thesis using apart [OF r] other(1) [OF r] s(2) by auto
      next
        case 3
        then show ?thesis using other(1) [OF r] other(1) [OF s(1)] geoD(4) [OF g, of r s] r s by simp
      qed
    qed
    show "0 \<notin> pages (h' r)"
      using r m(1) other(1) [OF r] geoD(8) [OF g pq(1)] geoD(8) [OF g pq(2)] geoD(8) [OF g, of r]
      by (cases "r = p") auto
    show "get_span (first_page (h' r)) pm = r \<and> get_span (last_page (h' r)) pm = r" if "r \<notin> {p}"
      using other(2,3) [OF r] that geoD(5,6) [OF g, of r] r by simp
  next
    fix k assume "get_span k pm \<noteq> 0"
    then obtain r where r: "r \<in> S" "k \<in> pages (h r)" using geoD(7) [OF g] by blast
    then show "\<exists>s\<in>S - {q}. k \<in> pages (h' s)"
      using other(1) [of r] m(1) pq by (cases "r = p \<or> r = q") auto
  qed
qed

text \<open>
  The span \<open>q\<close> has left its bucket and was destroyed, and \<open>sp\<close> now has the fields of \<open>t\<close>; everything else is as
  before.
\<close>

definition absorbed ::
    "'o page_cache \<Rightarrow> (nat \<Rightarrow> addr list) \<Rightarrow> addr \<Rightarrow> addr \<Rightarrow> span \<Rightarrow> 'o page_cache \<Rightarrow> (nat \<Rightarrow> addr list) \<Rightarrow> bool" where
  "absorbed c fr sp q t c' fr' \<longleftrightarrow>
     insert q (frees fr') = frees fr \<and> q \<notin> frees fr' \<and> (\<forall>k. set (fr' k) \<subseteq> set (fr k)) \<and>
     id_span_map c' = id_span_map c \<and> pc_os c' = pc_os c \<and> data_eq (pc_spans c' sp) t \<and>
     (\<forall>p. p \<notin> {sp, q} \<longrightarrow> data_eq (pc_spans c' p) (pc_spans c p))"

lemma absorbedD:
  assumes "absorbed c fr sp q t c' fr'"
  shows "insert q (frees fr') = frees fr" "q \<notin> frees fr'" "p \<in> set (fr' k) \<Longrightarrow> p \<in> set (fr k)"
    "id_span_map c' = id_span_map c" "pc_os c' = pc_os c" "data_eq (pc_spans c' sp) t"
    "p \<noteq> sp \<Longrightarrow> p \<noteq> q \<Longrightarrow> data_eq (pc_spans c' p) (pc_spans c p)"
  using assms unfolding absorbed_def by blast+

text \<open>Unlinking and destroying \<open>q\<close>.\<close>

lemma absorb_links:
  assumes st: "pc_st brk c fr (sp # us) ex X" and q: "q \<in> frees fr"
  shows "\<exists>h c' fr'. sl_erase (pagelist c (npage (pc_spans c q))) q ((pc_spans c)(sp := t)) = Inr h \<and>
    spanPool_Delete q (c\<lparr>pc_spans := h\<rparr>) = Inr c' \<and> absorbed c fr sp q t c' fr' \<and>
    links_ok (pc_spans c') (pagelist c') fr' \<and> objs_ok brk c' (nodes (pagelist c') fr' @ (sp # us) @ ex) \<and>
    (\<forall>p\<in>set (us @ ex). pc_spans c' p = pc_spans c p)"
proof -
  define h0 where "h0 = (pc_spans c)(sp := t)"
  define i where "i = npage (pc_spans c q)"
  let ?N = "nodes (pagelist c)"
  obtain j as bs where j: "j \<in> set bucket_ids" "fr j = as @ q # bs"
    using q unfolding frees_def by (meson UN_E split_list)
  have "j = i" using pc_stD(2) [OF st j(1), of q] j(2) by (simp add: i_def)
  then have i: "i \<in> set bucket_ids" "fr i = as @ q # bs" using j by simp_all
  let ?fr = "fr(i := as @ bs)"
  have d: "distinct (?N fr)" "sp \<notin> set (?N fr)" "sp \<noteq> q" "q \<in> set (?N fr)"
    using pc_stD(6) [OF st] q frees_nodes [of fr "pagelist c"] by auto
  have "same_links (pc_spans c) h0 (set (?N fr))" using d(2) by (auto simp: same_links_def h0_def)
  then have l0: "links_ok h0 (pagelist c) fr" by (rule links_ok_cong [OF pc_stD(1) [OF st]])
  obtain h where er: "sl_erase (pagelist c i) q h0 = Inr h" "links_ok h (pagelist c) ?fr" "same_data h0 h"
      "\<forall>p. p \<notin> set (?N fr) \<longrightarrow> h p = h0 p"
    using erase_links [where fr = fr, OF l0 d(1) i] by blast
  have m: "mset (?N fr @ (sp # us) @ ex) = mset (q # ?N ?fr @ (sp # us) @ ex)"
    using mset_nodes_remove [where fr = fr, OF i, of "pagelist c"] by simp
  then have qn: "q \<notin> set (?N ?fr)"
    using pc_stD(6) [OF st] mset_eq_imp_distinct_iff [OF m] by simp
  have "objs_ok brk (c\<lparr>pc_spans := h\<rparr>) (?N fr @ (sp # us) @ ex)"
    using er(3) by (intro objs_ok_spans [OF pc_stD(3) [OF st]]) (auto simp: same_data_def h0_def)
  from spanPool_Delete_ok [OF objs_ok_perm [OF this m]] obtain w P where
      del: "spanPool_Delete q (c\<lparr>pc_spans := h\<rparr>) = Inr (c\<lparr>pc_spans := h(q := (h q)\<lparr>pageid := w\<rparr>), spanPool := P\<rparr>)"
      "objs_ok brk (c\<lparr>pc_spans := h(q := (h q)\<lparr>pageid := w\<rparr>), spanPool := P\<rparr>) (?N ?fr @ (sp # us) @ ex)"
    by auto
  define h' where "h' = h(q := (h q)\<lparr>pageid := w\<rparr>)"
  let ?c = "c\<lparr>pc_spans := h', spanPool := P\<rparr>"
  have "same_links h h' (set (?N ?fr))" using qn by (auto simp: same_links_def h'_def)
  then have l: "links_ok h' (pagelist c) ?fr" by (rule links_ok_cong [OF er(2)])
  have keep: "h' p = pc_spans c p" if "p \<in> set (us @ ex)" for p
  proof -
    have "p \<notin> set (?N fr)" "p \<noteq> sp" using pc_stD(6) [OF st] that by auto
    then show ?thesis using er(4) d(4) by (auto simp: h'_def h0_def)
  qed
  have "data_eq (h' sp) t" "\<forall>p. p \<notin> {sp, q} \<longrightarrow> data_eq (h' p) (pc_spans c p)"
    using er(3) d(3) by (simp_all add: h'_def data_eq_def same_data_def h0_def)
  moreover have "insert q (frees ?fr) = frees fr" by (rule frees_remove [where fr = fr, OF i])
  moreover have "q \<notin> frees ?fr" using qn frees_nodes [of ?fr "pagelist c"] by blast
  moreover have "\<forall>k. set (?fr k) \<subseteq> set (fr k)" using i(2) by auto
  ultimately have "absorbed c fr sp q t ?c ?fr" by (simp only: absorbed_def page_cache.simps) simp
  then show ?thesis
    using er(1) del l keep unfolding h0_def i_def h'_def
    by (intro exI [of _ h] exI [of _ ?c] exI [of _ ?fr]) (simp add: h'_def i_def)
qed

text \<open>The page cache is consistent again when the pages of \<open>sp\<close> are those of both.\<close>

lemma absorb_geo:
  assumes g: "geo (pc_spans c) pm (frees fr \<union> set (sp # us)) {sp}"
    and q: "q \<in> frees fr" "sp \<noteq> q" and ab: "absorbed c fr sp q t c' fr'"
    and t: "pages t = pages (pc_spans c sp) \<union> pages (pc_spans c q)" "npage t < NPAGES"
  shows "geo (pc_spans c') pm (frees fr \<union> set (sp # us) - {q}) {sp}"
proof (rule geo_merge [OF g])
  show p: "pages (pc_spans c' sp) = pages (pc_spans c sp) \<union> pages (pc_spans c q)"
    using absorbedD(6) [OF ab] t(1) by (simp add: data_eq_def pages_def)
  then have "pages (pc_spans c' sp) \<noteq> {}" using geoD(1) [OF g, of sp] by (auto simp: pages_def)
  then show "0 < npage (pc_spans c' sp)" by (auto simp: pages_def)
  show "npage (pc_spans c' sp) < NPAGES" using absorbedD(6) [OF ab] t(2) by (simp add: data_eq_def)
  show "data_eq (pc_spans c' r) (pc_spans c r)" if "r \<noteq> sp" "r \<noteq> q" for r by (rule absorbedD(7) [OF ab that])
qed (use q in simp_all)

lemma union_end:
  assumes "pages s = pages a \<union> pages b" "0 < npage s"
    "(pageid a + npage a) * PAGE_SIZE \<le> e" "(pageid b + npage b) * PAGE_SIZE \<le> e"
  shows "(pageid s + npage s) * PAGE_SIZE \<le> e"
proof -
  have "last_page s \<in> pages a \<union> pages b" using assms(1,2) end_pages [of s] by simp
  then have "pageid s + npage s \<le> pageid a + npage a \<or> pageid s + npage s \<le> pageid b + npage b"
    using assms(2) by (auto simp: last_page_def pages_def)
  then show ?thesis using assms(3,4) by (meson le_trans mult_le_mono1)
qed

lemma absorb_st:
  assumes st: "pc_st brk c fr (sp # us) ex {sp}" and q: "q \<in> frees fr" and ab: "absorbed c fr sp q t c' fr'"
    and l: "links_ok (pc_spans c') (pagelist c') fr'" "objs_ok brk c' (nodes (pagelist c') fr' @ (sp # us) @ ex)"
    and t: "pages t = pages (pc_spans c sp) \<union> pages (pc_spans c q)" "npage t < NPAGES"
  shows "pc_st brk c' fr' (sp # us) ex {sp}"
proof -
  note A = absorbedD [OF ab]
  have d: "sp \<notin> frees fr" "sp \<noteq> q" "q \<notin> set us"
    using pc_stD(6) [OF st] q frees_nodes [of fr "pagelist c"] by auto
  have S: "frees fr' \<union> set (sp # us) = frees fr \<union> set (sp # us) - {q}" using A(1,2) d by auto
  have g: "geo (pc_spans c') (id_span_map c') (frees fr' \<union> set (sp # us)) {sp}"
    unfolding S A(4) by (rule absorb_geo [OF pc_stD(4) [OF st] q d(2) ab t])
  have other: "data_eq (pc_spans c' p) (pc_spans c p)" if "p \<in> frees fr'" for p
    using that A(1,2) d(1) by (intro A(7)) auto
  show ?thesis
  proof (rule pc_stI [OF l(1) _ l(2) g])
    show "npage (pc_spans c' p) = k" if "k \<in> set bucket_ids" "p \<in> set (fr' k)" for k p
      using pc_stD(2) [OF st that(1) A(3) [OF that(2)]] other [OF in_frees [of k p fr', OF that]]
      by (simp add: data_eq_def)
    show "(pageid (pc_spans c' p) + npage (pc_spans c' p)) * PAGE_SIZE \<le> brk (pc_os c')"
      if p: "p \<in> frees fr' \<union> set (sp # us)" for p
    proof (cases "p = sp")
      case True
      have "pages (pc_spans c' sp) = pages (pc_spans c sp) \<union> pages (pc_spans c q)"
        using A(6) t(1) by (simp add: data_eq_def pages_def)
      then show ?thesis
        unfolding True A(5) by (rule union_end) (use geoD(1) [OF g, of sp] pc_stD(5) [OF st] q in auto)
    next
      case False
      have "p \<in> frees fr \<union> set (sp # us)" "p \<noteq> q" using p unfolding S by auto
      then show ?thesis using pc_stD(5) [OF st, of p] A(5) A(7) [of p] False by (simp add: data_eq_def)
    qed
  qed
qed

text \<open>One round of a merging loop: the neighbour \<open>q\<close> leaves its bucket and its object goes back.\<close>

lemma merge_step:
  assumes st: "pc_st brk c fr (sp # us) ex {sp}" and q: "q \<in> frees fr"
    and f: "pages (f (pc_spans c sp)) = pages (pc_spans c sp) \<union> pages (pc_spans c q)"
      "npage (f (pc_spans c sp)) < NPAGES" "usecount (f (pc_spans c sp)) = usecount (pc_spans c sp)"
  shows "\<exists>h c' fr'. upd_field sp f c = Inr (c\<lparr>pc_spans := (pc_spans c)(sp := f (pc_spans c sp))\<rparr>) \<and>
    sl_erase (pagelist c (npage (pc_spans c q))) q ((pc_spans c)(sp := f (pc_spans c sp))) = Inr h \<and>
    spanPool_Delete q (c\<lparr>pc_spans := h\<rparr>) = Inr c' \<and> pc_st brk c' fr' (sp # us) ex {sp} \<and>
    insert q (frees fr') = frees fr \<and> q \<notin> frees fr' \<and> id_span_map c' = id_span_map c \<and>
    data_eq (pc_spans c' sp) (f (pc_spans c sp)) \<and>
    (\<forall>p. p \<notin> {sp, q} \<longrightarrow> data_eq (pc_spans c' p) (pc_spans c p)) \<and>
    (\<forall>p\<in>set (us @ ex). pc_spans c' p = pc_spans c p)"
proof -
  have "sp \<noteq> 0" using pc_stD(7) [OF st] by auto
  then have "upd_field sp f c = Inr (c\<lparr>pc_spans := (pc_spans c)(sp := f (pc_spans c sp))\<rparr>)"
    by (simp add: upd_field_def upd_span_def)
  then show ?thesis
    using absorb_links [OF st q, of "f (pc_spans c sp)"] absorb_st [OF st q _ _ _ f(1,2)]
    unfolding absorbed_def by blast
qed

section \<open>The merging loops\<close>

text \<open>
  What a loop keeps: the state with the span \<open>sp\<close> taken out, the flags of the spans, and the set of
  all pages.
\<close>

definition all_pages :: "spans \<Rightarrow> addr set \<Rightarrow> nat set" where
  "all_pages h S = (\<Union>p\<in>S. pages (h p))"

definition merging ::
    "('o \<Rightarrow> nat) \<Rightarrow> 'o page_cache \<Rightarrow> (nat \<Rightarrow> addr list) \<Rightarrow> addr \<Rightarrow> addr list \<Rightarrow> addr list \<Rightarrow> bool" where
  "merging brk c fr sp us ex \<longleftrightarrow>
     pc_st brk c fr (sp # us) ex {sp} \<and> (\<forall>p\<in>frees fr. idle (pc_spans c p)) \<and>
     (\<forall>p\<in>set us. isUse (pc_spans c p)) \<and> usecount (pc_spans c sp) = 0"

definition merged ::
    "'o page_cache \<Rightarrow> (nat \<Rightarrow> addr list) \<Rightarrow> 'o page_cache \<Rightarrow> (nat \<Rightarrow> addr list) \<Rightarrow> addr \<Rightarrow> addr list \<Rightarrow> addr list \<Rightarrow> bool" where
  "merged c fr c' fr' sp us ex \<longleftrightarrow>
     frees fr' \<subseteq> frees fr \<and> id_span_map c' = id_span_map c \<and> npage (pc_spans c sp) \<le> npage (pc_spans c' sp) \<and>
     all_pages (pc_spans c') (frees fr' \<union> set (sp # us)) = all_pages (pc_spans c) (frees fr \<union> set (sp # us)) \<and>
     (\<forall>p\<in>frees fr' \<union> set us. data_eq (pc_spans c' p) (pc_spans c p)) \<and>
     (\<forall>p\<in>set (us @ ex). pc_spans c' p = pc_spans c p)"

lemma merged_refl [simp]: "merged c fr c fr sp us ex"
  by (simp add: merged_def data_eq_def)

lemma merged_trans:
  assumes "merged c fr c1 fr1 sp us ex" "merged c1 fr1 c2 fr2 sp us ex"
  shows "merged c fr c2 fr2 sp us ex"
proof -
  have "data_eq (pc_spans c2 p) (pc_spans c p)" if "p \<in> frees fr2 \<union> set us" for p
  proof -
    have "data_eq (pc_spans c2 p) (pc_spans c1 p)" using assms(2) that by (simp add: merged_def)
    moreover have "p \<in> frees fr1 \<union> set us" using assms(2) that by (auto simp: merged_def)
    then have "data_eq (pc_spans c1 p) (pc_spans c p)" using assms(1) by (simp add: merged_def)
    ultimately show ?thesis by (simp add: data_eq_def)
  qed
  then show ?thesis using assms unfolding merged_def by auto
qed

lemma merge_round:
  assumes m: "merging brk c fr sp us ex" and q: "q \<in> frees fr"
    and f: "pages (f (pc_spans c sp)) = pages (pc_spans c sp) \<union> pages (pc_spans c q)"
      "npage (f (pc_spans c sp)) = npage (pc_spans c sp) + npage (pc_spans c q)"
      "npage (f (pc_spans c sp)) < NPAGES" "usecount (f (pc_spans c sp)) = usecount (pc_spans c sp)"
  shows "\<exists>c1 h c' fr'. upd_field sp f c = Inr c1 \<and> pagelist c1 = pagelist c \<and>
    sl_erase (pagelist c (npage (pc_spans c q))) q (pc_spans c1) = Inr h \<and>
    spanPool_Delete q (c1\<lparr>pc_spans := h\<rparr>) = Inr c' \<and> merging brk c' fr' sp us ex \<and>
    merged c fr c' fr' sp us ex \<and> id_span_map c' = id_span_map c \<and>
    data_eq (pc_spans c' sp) (f (pc_spans c sp)) \<and> npage (pc_spans c sp) < npage (pc_spans c' sp)"
proof -
  have st: "pc_st brk c fr (sp # us) ex {sp}" using m by (simp add: merging_def)
  obtain h c' fr' where r: "upd_field sp f c = Inr (c\<lparr>pc_spans := (pc_spans c)(sp := f (pc_spans c sp))\<rparr>)"
    "sl_erase (pagelist c (npage (pc_spans c q))) q ((pc_spans c)(sp := f (pc_spans c sp))) = Inr h"
    "spanPool_Delete q (c\<lparr>pc_spans := h\<rparr>) = Inr c'" "pc_st brk c' fr' (sp # us) ex {sp}"
    "insert q (frees fr') = frees fr" "q \<notin> frees fr'" "id_span_map c' = id_span_map c"
    "data_eq (pc_spans c' sp) (f (pc_spans c sp))"
    "\<forall>p. p \<notin> {sp, q} \<longrightarrow> data_eq (pc_spans c' p) (pc_spans c p)"
    "\<forall>p\<in>set (us @ ex). pc_spans c' p = pc_spans c p"
    using merge_step [where f = f, OF st q f(1,3,4)] by blast
  have d: "sp \<notin> frees fr" "sp \<notin> set us" "q \<notin> set us"
    using pc_stD(6) [OF st] q frees_nodes [of fr "pagelist c"] by auto
  have same: "data_eq (pc_spans c' p) (pc_spans c p)" if "p \<in> frees fr' \<union> set us" for p
  proof -
    have "p \<noteq> sp" "p \<noteq> q" using that r(5,6) d by auto
    then show ?thesis using r(9) by simp
  qed
  then have pg: "pages (pc_spans c' p) = pages (pc_spans c p)" if "p \<in> frees fr' \<union> set us" for p
    using that by (simp add: data_eq_def pages_def)
  have psp: "pages (pc_spans c' sp) = pages (pc_spans c sp) \<union> pages (pc_spans c q)"
    using r(8) f(1) by (simp add: data_eq_def pages_def)
  have S: "frees fr' \<union> set (sp # us) = insert sp (frees fr' \<union> set us)"
    "frees fr \<union> set (sp # us) = insert q (insert sp (frees fr' \<union> set us))" using r(5) by auto
  have "all_pages (pc_spans c') (frees fr' \<union> set (sp # us)) = all_pages (pc_spans c) (frees fr \<union> set (sp # us))"
    using pg psp unfolding S all_pages_def by auto
  moreover have nq: "0 < npage (pc_spans c q)" using geoD(1) [OF pc_stD(4) [OF st], of q] q by simp
  moreover have np: "npage (pc_spans c' sp) = npage (pc_spans c sp) + npage (pc_spans c q)"
    using r(8) f(2) by (simp add: data_eq_def)
  ultimately have "merged c fr c' fr' sp us ex" using same r(5,7,10) by (auto simp: merged_def)
  moreover have "merging brk c' fr' sp us ex"
    using m r(4,5,8) f(4) same by (auto simp: merging_def data_eq_def)
  ultimately show ?thesis using r np nq by auto
qed

text \<open>No span in a bucket ends where \<open>sp\<close> begins, or begins where it ends, unless both are too long.\<close>

definition no_prev :: "'o page_cache \<Rightarrow> (nat \<Rightarrow> addr list) \<Rightarrow> addr \<Rightarrow> bool" where
  "no_prev c fr sp \<longleftrightarrow> (\<forall>q\<in>frees fr. pageid (pc_spans c q) + npage (pc_spans c q) = pageid (pc_spans c sp) \<longrightarrow>
     NPAGES \<le> npage (pc_spans c q) + npage (pc_spans c sp))"

definition no_next :: "'o page_cache \<Rightarrow> (nat \<Rightarrow> addr list) \<Rightarrow> addr \<Rightarrow> bool" where
  "no_next c fr sp \<longleftrightarrow> (\<forall>q\<in>frees fr. pageid (pc_spans c q) = pageid (pc_spans c sp) + npage (pc_spans c sp) \<longrightarrow>
     NPAGES \<le> npage (pc_spans c q) + npage (pc_spans c sp))"

lemma merging_facts:
  assumes "merging brk c fr sp us ex"
  shows "geo (pc_spans c) (id_span_map c) (frees fr \<union> set (sp # us)) {sp}" "sp \<noteq> 0" "sp \<notin> frees fr"
    "0 < npage (pc_spans c sp)" "npage (pc_spans c sp) < NPAGES"
    "q \<in> frees fr \<Longrightarrow> q \<noteq> 0 \<and> \<not> isUse (pc_spans c q) \<and> npage (pc_spans c q) < NPAGES"
    "q \<in> frees fr \<union> set (sp # us) \<Longrightarrow> q \<noteq> sp \<Longrightarrow> \<not> isUse (pc_spans c q) \<Longrightarrow> q \<in> frees fr"
    "usecount (pc_spans c sp) = 0"
proof -
  have st: "pc_st brk c fr (sp # us) ex {sp}" using assms by (simp add: merging_def)
  show g: "geo (pc_spans c) (id_span_map c) (frees fr \<union> set (sp # us)) {sp}" by (rule pc_stD(4) [OF st])
  show "sp \<noteq> 0" "sp \<notin> frees fr"
    using pc_stD(6,7) [OF st] frees_nodes [of fr "pagelist c"] by auto
  show "0 < npage (pc_spans c sp)" "npage (pc_spans c sp) < NPAGES" using geoD(1,2) [OF g, of sp] by simp_all
  show "q \<noteq> 0 \<and> \<not> isUse (pc_spans c q) \<and> npage (pc_spans c q) < NPAGES" if "q \<in> frees fr"
  proof -
    have "q \<in> set (nodes (pagelist c) fr)" using that frees_nodes by blast
    then have "q \<noteq> 0" using pc_stD(7) [OF st] by (cases "q = 0") simp_all
    then show ?thesis using that assms geoD(2) [OF g, of q] by (simp add: merging_def)
  qed
  show "q \<in> frees fr" if "q \<in> frees fr \<union> set (sp # us)" "q \<noteq> sp" "\<not> isUse (pc_spans c q)"
    using that assms by (auto simp: merging_def)
  show "usecount (pc_spans c sp) = 0" using assms by (simp add: merging_def)
qed

lemma merging_sum:
  assumes "merging brk c fr sp us ex" "q \<in> frees fr"
  shows "szadd (npage (pc_spans c sp)) (npage (pc_spans c q)) = npage (pc_spans c sp) + npage (pc_spans c q)"
    "szadd (npage (pc_spans c q)) (npage (pc_spans c sp)) = npage (pc_spans c q) + npage (pc_spans c sp)"
  using merging_facts(5) [OF assms(1)] merging_facts(6) [OF assms]
  by (simp_all add: szadd_exact size_mod_def NPAGES_def)

text \<open>The span that a loop finds, and the two ways in which a round can end.\<close>

definition stops :: "'o page_cache \<Rightarrow> addr \<Rightarrow> addr \<Rightarrow> bool" where
  "stops c sp ret \<longleftrightarrow> ret = 0 \<or> isUse (pc_spans c ret) \<or>
     NPAGES \<le> szadd (npage (pc_spans c ret)) (npage (pc_spans c sp))"

lemma stops_full:
  assumes "merging brk c fr sp us ex" "q \<in> frees fr" "stops c sp q"
  shows "NPAGES \<le> npage (pc_spans c q) + npage (pc_spans c sp)"
  using assms(3) merging_facts(6) [OF assms(1,2)] merging_sum(2) [OF assms(1,2)] by (auto simp: stops_def)

lemma merge_prev_stops:
  assumes m: "merging brk c fr sp us ex"
    and s: "stops c sp (get_span (szsub (pageid (pc_spans c sp)) 1) (id_span_map c))"
  shows "merge_prev (Suc f) sp c = Inr c" "no_prev c fr sp"
proof -
  note F = merging_facts [OF m]
  let ?h = "pc_spans c"
  show "merge_prev (Suc f) sp c = Inr c" using F(2) s by (auto simp: deref_span_def Let_def stops_def)
  have "get_span (szsub (pageid (?h sp)) 1) (id_span_map c) = q"
    if "q \<in> frees fr" "pageid (?h q) + npage (?h q) = pageid (?h sp)" for q
  proof -
    have "0 < pageid (?h sp)" using geoD(1) [OF F(1), of q] that by simp
    then have "szsub (pageid (?h sp)) 1 = last_page (?h q)"
      using that(2) geo_bound [OF F(1), of sp] by (simp add: szsub_exact size_mod_def last_page_def)
    moreover have "q \<noteq> sp" using F(3) that(1) by blast
    ultimately show ?thesis using geoD(6) [OF F(1), of q] that(1) by simp
  qed
  then show "no_prev c fr sp" unfolding no_prev_def using stops_full [OF m] s by metis
qed

lemma merge_prev_goes_on:
  assumes m: "merging brk c fr sp us ex"
    and s: "\<not> stops c sp (get_span (szsub (pageid (pc_spans c sp)) 1) (id_span_map c))"
  shows "\<exists>c2 fr2. merge_prev (Suc f) sp c = merge_prev f sp c2 \<and> merging brk c2 fr2 sp us ex \<and>
    merged c fr c2 fr2 sp us ex \<and> npage (pc_spans c sp) < npage (pc_spans c2 sp)"
proof -
  note F = merging_facts [OF m]
  let ?h = "pc_spans c"
  define ret where "ret = get_span (szsub (pageid (?h sp)) 1) (id_span_map c)"
  have ret: "get_span (szsub (pageid (?h sp)) 1) (id_span_map c) = ret" "ret \<noteq> 0" "\<not> isUse (?h ret)"
    using s by (simp_all add: ret_def stops_def)
  have spS: "sp \<in> frees fr \<union> set (sp # us)" by simp
  note N = neighbour_prev [OF F(1) spS ret(1,2)]
  have rf: "ret \<in> frees fr" by (rule F(7) [OF N(1,2) ret(3)])
  note sum = merging_sum [OF m rf]
  let ?f = "\<lambda>t. t\<lparr>pageid := pageid (?h ret), npage := szadd (npage t) (npage (?h ret))\<rparr>"
  have pg: "pages (?f (?h sp)) = pages (?h sp) \<union> pages (?h ret)" using N(3) by (auto simp: pages_def sum)
  have lim: "npage (?h ret) + npage (?h sp) < NPAGES" using s unfolding ret(1) by (simp add: stops_def sum)
  obtain c1 h c2 fr2 where r: "upd_field sp ?f c = Inr c1" "pagelist c1 = pagelist c"
    "sl_erase (pagelist c (npage (?h ret))) ret (pc_spans c1) = Inr h"
    "spanPool_Delete ret (c1\<lparr>pc_spans := h\<rparr>) = Inr c2" "merging brk c2 fr2 sp us ex"
    "merged c fr c2 fr2 sp us ex" "npage (?h sp) < npage (pc_spans c2 sp)"
    using merge_round [where f = ?f, OF m rf pg] sum lim by auto
  have "merge_prev (Suc f) sp c = merge_prev f sp c2"
    using s F(2) r(1-4) ret(1) by (simp add: deref_span_def Let_def stops_def)
  then show ?thesis using r(5-7) by blast
qed

lemma merge_prev_ok:
  assumes "merging brk c fr sp us ex" "NPAGES \<le> f + npage (pc_spans c sp)"
  shows "\<exists>c' fr'. merge_prev f sp c = Inr c' \<and> merging brk c' fr' sp us ex \<and> merged c fr c' fr' sp us ex \<and>
    no_prev c' fr' sp"
  using assms
proof (induction f arbitrary: c fr)
  case 0
  then show ?case using merging_facts(5) [OF 0(1)] by simp
next
  case (Suc f)
  show ?case
  proof (cases "stops c sp (get_span (szsub (pageid (pc_spans c sp)) 1) (id_span_map c))")
    case True
    then show ?thesis using merge_prev_stops [OF Suc.prems(1)] Suc.prems(1) merged_refl by blast
  next
    case False
    obtain c2 fr2 where r: "merge_prev (Suc f) sp c = merge_prev f sp c2" "merging brk c2 fr2 sp us ex"
      "merged c fr c2 fr2 sp us ex" "npage (pc_spans c sp) < npage (pc_spans c2 sp)"
      using merge_prev_goes_on [OF Suc.prems(1) False] by blast
    have "NPAGES \<le> f + npage (pc_spans c2 sp)" using Suc.prems(2) r(4) by linarith
    from Suc.IH [OF r(2) this] show ?thesis unfolding r(1) using merged_trans [OF r(3)] by blast
  qed
qed

lemma merge_next_stops:
  assumes m: "merging brk c fr sp us ex"
    and s: "stops c sp (get_span (szadd (pageid (pc_spans c sp)) (npage (pc_spans c sp))) (id_span_map c))"
  shows "merge_next (Suc f) sp c = Inr c" "no_next c fr sp"
proof -
  note F = merging_facts [OF m]
  let ?h = "pc_spans c"
  show "merge_next (Suc f) sp c = Inr c" using F(2) s by (auto simp: deref_span_def Let_def stops_def)
  have "get_span (szadd (pageid (?h sp)) (npage (?h sp))) (id_span_map c) = q"
    if "q \<in> frees fr" "pageid (?h q) = pageid (?h sp) + npage (?h sp)" for q
  proof -
    have "szadd (pageid (?h sp)) (npage (?h sp)) = first_page (?h q)"
      using that(2) geo_bound [OF F(1), of sp] by (simp add: szadd_exact size_mod_def first_page_def)
    moreover have "q \<noteq> sp" using F(3) that(1) by blast
    ultimately show ?thesis using geoD(5) [OF F(1), of q] that(1) by simp
  qed
  then show "no_next c fr sp" unfolding no_next_def using stops_full [OF m] s by metis
qed

lemma merge_next_goes_on:
  assumes m: "merging brk c fr sp us ex" and n: "no_prev c fr sp"
    and s: "\<not> stops c sp (get_span (szadd (pageid (pc_spans c sp)) (npage (pc_spans c sp))) (id_span_map c))"
  shows "\<exists>c2 fr2. merge_next (Suc f) sp c = merge_next f sp c2 \<and> merging brk c2 fr2 sp us ex \<and>
    merged c fr c2 fr2 sp us ex \<and> no_prev c2 fr2 sp \<and> npage (pc_spans c sp) < npage (pc_spans c2 sp)"
proof -
  note F = merging_facts [OF m]
  let ?h = "pc_spans c"
  define ret where "ret = get_span (szadd (pageid (?h sp)) (npage (?h sp))) (id_span_map c)"
  have ret: "get_span (szadd (pageid (?h sp)) (npage (?h sp))) (id_span_map c) = ret" "ret \<noteq> 0" "\<not> isUse (?h ret)"
    using s by (simp_all add: ret_def stops_def)
  have spS: "sp \<in> frees fr \<union> set (sp # us)" by simp
  note N = neighbour_next [OF F(1) spS ret(1,2)]
  have rf: "ret \<in> frees fr" by (rule F(7) [OF N(1,2) ret(3)])
  note sum = merging_sum [OF m rf]
  let ?f = "\<lambda>t. t\<lparr>npage := szadd (npage t) (npage (?h ret))\<rparr>"
  have pg: "pages (?f (?h sp)) = pages (?h sp) \<union> pages (?h ret)" using N(3) by (auto simp: pages_def sum)
  have lim: "npage (?h ret) + npage (?h sp) < NPAGES" using s unfolding ret(1) by (simp add: stops_def sum)
  obtain c1 h c2 fr2 where r: "upd_field sp ?f c = Inr c1" "pagelist c1 = pagelist c"
    "sl_erase (pagelist c (npage (?h ret))) ret (pc_spans c1) = Inr h"
    "spanPool_Delete ret (c1\<lparr>pc_spans := h\<rparr>) = Inr c2" "merging brk c2 fr2 sp us ex"
    "merged c fr c2 fr2 sp us ex" "data_eq (pc_spans c2 sp) (?f (?h sp))" "npage (?h sp) < npage (pc_spans c2 sp)"
    using merge_round [where f = ?f, OF m rf pg] sum lim by auto
  have "no_prev c2 fr2 sp"
    using n r(6,7,8) unfolding no_prev_def merged_def data_eq_def by fastforce
  moreover have "merge_next (Suc f) sp c = merge_next f sp c2"
    using s F(2) r(1-4) ret(1) by (simp add: deref_span_def Let_def stops_def)
  ultimately show ?thesis using r(5,6,8) by blast
qed

lemma merge_next_ok:
  assumes "merging brk c fr sp us ex" "NPAGES \<le> f + npage (pc_spans c sp)" "no_prev c fr sp"
  shows "\<exists>c' fr'. merge_next f sp c = Inr c' \<and> merging brk c' fr' sp us ex \<and> merged c fr c' fr' sp us ex \<and>
    no_prev c' fr' sp \<and> no_next c' fr' sp"
  using assms
proof (induction f arbitrary: c fr)
  case 0
  then show ?case using merging_facts(5) [OF 0(1)] by simp
next
  case (Suc f)
  show ?case
  proof (cases "stops c sp (get_span (szadd (pageid (pc_spans c sp)) (npage (pc_spans c sp))) (id_span_map c))")
    case True
    then show ?thesis using merge_next_stops [OF Suc.prems(1)] Suc.prems(1,3) merged_refl by blast
  next
    case False
    obtain c2 fr2 where r: "merge_next (Suc f) sp c = merge_next f sp c2" "merging brk c2 fr2 sp us ex"
      "merged c fr c2 fr2 sp us ex" "no_prev c2 fr2 sp" "npage (pc_spans c sp) < npage (pc_spans c2 sp)"
      using merge_next_goes_on [OF Suc.prems(1,3) False] by blast
    have "NPAGES \<le> f + npage (pc_spans c2 sp)" using Suc.prems(2) r(5) by linarith
    from Suc.IH [OF r(2) this r(4)] show ?thesis unfolding r(1) using merged_trans [OF r(3)] by blast
  qed
qed

section \<open>Release\<close>

lemma pc_st_flag:
  assumes st: "pc_st brk c fr us ex X"
    and h: "\<And>p. nxt (h p) = nxt (pc_spans c p) \<and> prv (h p) = prv (pc_spans c p) \<and>
      pageid (h p) = pageid (pc_spans c p) \<and> npage (h p) = npage (pc_spans c p)"
  shows "pc_st brk (c\<lparr>pc_spans := h\<rparr>) fr us ex X"
proof (rule pc_stI)
  show "links_ok (pc_spans (c\<lparr>pc_spans := h\<rparr>)) (pagelist (c\<lparr>pc_spans := h\<rparr>)) fr"
    using links_ok_cong [OF pc_stD(1) [OF st], of h] h by (simp add: same_links_def)
  show "objs_ok brk (c\<lparr>pc_spans := h\<rparr>) (nodes (pagelist (c\<lparr>pc_spans := h\<rparr>)) fr @ us @ ex)"
    using objs_ok_spans [OF pc_stD(3) [OF st], of h] h by simp
  show "geo (pc_spans (c\<lparr>pc_spans := h\<rparr>)) (id_span_map (c\<lparr>pc_spans := h\<rparr>)) (frees fr \<union> set us) X"
    using pc_stD(4) [OF st] geo_cong [of "frees fr \<union> set us" h "pc_spans c"] h by simp
qed (use pc_stD(2,5) [OF st] h in simp_all)

text \<open>The part of the release after the merging: into the bucket, flag and map.\<close>

lemma release_tail:
  assumes m: "merging brk c fr sp us ex"
  defines "t \<equiv> pc_spans c sp"
  shows "\<exists>c' fr'. bindR (push_page (npage t) sp c) (\<lambda>c3.
       bindR (upd_field sp (\<lambda>t. t\<lparr>isUse := False\<rparr>) c3) (\<lambda>c4.
       bindR (set_page (pageid t) sp c4) (\<lambda>c5.
       set_page (szsub (szadd (pageid t) (npage t)) 1) sp c5))) = Inr c' \<and>
    pc_inv brk c' fr' us ex \<and> frees fr' = insert sp (frees fr) \<and>
    (\<forall>p. pageid (pc_spans c' p) = pageid (pc_spans c p) \<and> npage (pc_spans c' p) = npage (pc_spans c p)) \<and>
    (\<forall>p. p \<noteq> sp \<longrightarrow> isUse (pc_spans c' p) = isUse (pc_spans c p)) \<and>
    (\<forall>k. k \<notin> pages (pc_spans c sp) \<longrightarrow> get_span k (id_span_map c') = get_span k (id_span_map c)) \<and>
    (\<forall>p\<in>set (us @ ex). pc_spans c' p = pc_spans c p)"
proof -
  note F = merging_facts [OF m]
  have st: "pc_st brk c fr (sp # us) ex {sp}" using m by (simp add: merging_def)
  define i where "i = npage t"
  have ib: "i \<in> set bucket_ids" using F(4,5) by (simp add: i_def t_def)
  obtain h3 where push: "push_page i sp c = Inr (c\<lparr>pc_spans := h3\<rparr>)" "same_data (pc_spans c) h3"
      "\<forall>p. p \<notin> set (nodes (pagelist c) fr) \<longrightarrow> p \<noteq> sp \<longrightarrow> h3 p = pc_spans c p"
      and st3: "pc_st brk (c\<lparr>pc_spans := h3\<rparr>) (fr(i := sp # fr i)) us ex {sp}"
    using pc_st_push [OF st, of i] by (auto simp: i_def t_def)
  let ?fr = "fr(i := sp # fr i)"
  define h4 where "h4 = h3(sp := (h3 sp)\<lparr>isUse := False\<rparr>)"
  have upd: "upd_field sp (\<lambda>t. t\<lparr>isUse := False\<rparr>) (c\<lparr>pc_spans := h3\<rparr>) = Inr (c\<lparr>pc_spans := h4\<rparr>)"
    using F(2) by (simp add: upd_field_def upd_span_def h4_def)
  have st4: "pc_st brk (c\<lparr>pc_spans := h4\<rparr>) ?fr us ex {sp}"
    using pc_st_flag [OF st3, of h4] by (simp add: h4_def)
  have same: "pageid (h4 p) = pageid (pc_spans c p)" "npage (h4 p) = npage (pc_spans c p)" for p
    using push(2) by (simp_all add: h4_def same_data_def)
  have use: "isUse (h4 p) = isUse (pc_spans c p)" if "p \<noteq> sp" for p
    using push(2) that by (simp add: h4_def same_data_def)
  have keep: "h4 p = pc_spans c p" if "p \<in> set (us @ ex)" for p
    using pc_stD(6) [OF st] that push(3) by (auto simp: h4_def)
  have fr': "frees ?fr = insert sp (frees fr)" by (rule frees_insert [OF ib])
  have "sp \<in> frees fr \<union> set (sp # us)" by simp
  from geo_bound [OF F(1) this] have ends: "szsub (szadd (pageid t) (npage t)) 1 = last_page (h4 sp)"
      "pageid t = first_page (h4 sp)"
    using F(4) by (simp_all add: t_def same last_page_def first_page_def szadd_exact szsub_exact size_mod_def)
  obtain pm where pm: "bindR (set_page (first_page (h4 sp)) sp (c\<lparr>pc_spans := h4\<rparr>)) (set_page (last_page (h4 sp)) sp) =
        Inr (c\<lparr>pc_spans := h4, id_span_map := pm\<rparr>)"
      "pc_st brk (c\<lparr>pc_spans := h4, id_span_map := pm\<rparr>) ?fr us ex {}"
      "\<forall>k. k \<notin> pages (h4 sp) \<longrightarrow> get_span k pm = get_span k (id_span_map c)"
    using pc_st_ends [OF st4, of sp] fr' by auto
  have old: "get_span k pm = get_span k (id_span_map c)" if "k \<notin> pages (pc_spans c sp)" for k
    using that pm(3) by (simp add: pages_def same)
  have "idle (h4 p)" if "p \<in> frees ?fr" for p
  proof (cases "p = sp")
    case True
    then show ?thesis using F(8) push(2) by (simp add: h4_def same_data_def)
  next
    case False
    then have "p \<in> frees fr" using that unfolding fr' by simp
    then have "idle (pc_spans c p)" using m by (simp add: merging_def)
    then show ?thesis using push(2) False by (simp add: h4_def same_data_def)
  qed
  then have "pc_inv brk (c\<lparr>pc_spans := h4, id_span_map := pm\<rparr>) ?fr us ex" using pm(2) by (simp add: pc_inv_def)
  then show ?thesis
    using push(1) upd pm(1) ends same use fr' keep old
    by (intro exI [of _ "c\<lparr>pc_spans := h4, id_span_map := pm\<rparr>"] exI [of _ ?fr]) (simp add: i_def)
qed

lemma release_ok:
  assumes inv: "pc_inv brk c fr (sp # us) ex" and used: "\<forall>p\<in>set us. isUse (pc_spans c p)"
    and count: "usecount (pc_spans c sp) = 0"
  shows "\<exists>c' fr'. relase_to_PageCache bk sp c = Inr c' \<and> pc_inv brk c' fr' us ex \<and> sp \<in> frees fr' \<and>
    all_pages (pc_spans c') (frees fr' \<union> set us) = all_pages (pc_spans c) (frees fr \<union> set (sp # us)) \<and>
    (\<forall>p\<in>set (us @ ex). pc_spans c' p = pc_spans c p) \<and>
    (\<forall>p\<in>set us. \<forall>k\<in>pages (pc_spans c p). get_span k (id_span_map c') = get_span k (id_span_map c)) \<and>
    (\<forall>q\<in>frees fr'. q \<noteq> sp \<longrightarrow>
       pageid (pc_spans c' q) + npage (pc_spans c' q) = pageid (pc_spans c' sp) \<or>
       pageid (pc_spans c' sp) + npage (pc_spans c' sp) = pageid (pc_spans c' q) \<longrightarrow>
       NPAGES \<le> npage (pc_spans c' q) + npage (pc_spans c' sp))"
proof -
  have st: "pc_st brk c fr (sp # us) ex {}" using inv by (simp add: pc_inv_def)
  then have "pc_st brk c fr (sp # us) ex {sp}"
    using geo_weaken [of "pc_spans c" "id_span_map c" "frees fr \<union> set (sp # us)" "{}" "{sp}"]
    by (simp add: pc_st_def)
  then have m0: "merging brk c fr sp us ex" using inv used count by (simp add: merging_def pc_inv_def)
  note F = merging_facts [OF m0]
  obtain c1 fr1 where p1: "merge_prev NPAGES sp c = Inr c1" "merging brk c1 fr1 sp us ex" "merged c fr c1 fr1 sp us ex"
      "no_prev c1 fr1 sp"
    using merge_prev_ok [OF m0, of NPAGES] by auto
  obtain c2 fr2 where p2: "merge_next NPAGES sp c1 = Inr c2" "merging brk c2 fr2 sp us ex" "merged c1 fr1 c2 fr2 sp us ex"
      "no_prev c2 fr2 sp" "no_next c2 fr2 sp"
    using merge_next_ok [OF p1(2) _ p1(4), of NPAGES] by auto
  note mm = merged_trans [OF p1(3) p2(3)]
  note F2 = merging_facts [OF p2(2)]
  let ?t = "pc_spans c2 sp"
  obtain c' fr' where tl: "bindR (push_page (npage ?t) sp c2) (\<lambda>c3.
       bindR (upd_field sp (\<lambda>t. t\<lparr>isUse := False\<rparr>) c3) (\<lambda>c4.
       bindR (set_page (pageid ?t) sp c4) (\<lambda>c5.
       set_page (szsub (szadd (pageid ?t) (npage ?t)) 1) sp c5))) = Inr c'"
      "pc_inv brk c' fr' us ex" "frees fr' = insert sp (frees fr2)"
      "\<And>p. pageid (pc_spans c' p) = pageid (pc_spans c2 p)" "\<And>p. npage (pc_spans c' p) = npage (pc_spans c2 p)"
      "\<And>p. p \<noteq> sp \<Longrightarrow> isUse (pc_spans c' p) = isUse (pc_spans c2 p)"
      "\<forall>p\<in>set (us @ ex). pc_spans c' p = pc_spans c2 p"
      "\<And>k. k \<notin> pages ?t \<Longrightarrow> get_span k (id_span_map c') = get_span k (id_span_map c2)"
    using release_tail [OF p2(2)] by blast
  have run: "relase_to_PageCache bk sp c = Inr c'"
    using F(2,5) p1(1) p2(1) tl(1) by (simp add: relase_to_PageCache_def deref_span_def)
  have ap: "all_pages (pc_spans c2) (frees fr2 \<union> set (sp # us)) = all_pages (pc_spans c) (frees fr \<union> set (sp # us))"
    using mm unfolding merged_def by blast
  have "pages (pc_spans c' p) = pages (pc_spans c2 p)" for p using tl(4,5) by (simp add: pages_def)
  then have "all_pages (pc_spans c') (frees fr' \<union> set us) = all_pages (pc_spans c) (frees fr \<union> set (sp # us))"
    using ap tl(3) by (simp add: all_pages_def)
  moreover have "\<forall>p\<in>set (us @ ex). pc_spans c' p = pc_spans c p"
    using tl(7) mm by (simp add: merged_def)
  moreover have "get_span k (id_span_map c') = get_span k (id_span_map c)"
    if p: "p \<in> set us" "k \<in> pages (pc_spans c p)" for p k
  proof -
    have "pc_spans c2 p = pc_spans c p" "id_span_map c2 = id_span_map c" using mm p(1) by (simp_all add: merged_def)
    moreover have "p \<noteq> sp" using pc_stD(6) [OF st] p(1) by auto
    then have "pages (pc_spans c2 p) \<inter> pages ?t = {}" using geoD(4) [OF F2(1), of p sp] p(1) by simp
    ultimately show ?thesis using tl(8) p(2) by auto
  qed
  moreover have "NPAGES \<le> npage (pc_spans c' q) + npage (pc_spans c' sp)"
    if "q \<in> frees fr'" "q \<noteq> sp" "pageid (pc_spans c' q) + npage (pc_spans c' q) = pageid (pc_spans c' sp) \<or>
       pageid (pc_spans c' sp) + npage (pc_spans c' sp) = pageid (pc_spans c' q)" for q
    using that tl(3) p2(4,5) unfolding tl(4,5) no_prev_def no_next_def by auto
  ultimately show ?thesis using run tl(2,3) by blast
qed

end
