(* ===== verification/PageCacheLife.thy ===== *)
theory PageCacheLife
  imports PageCacheMerge
begin

text \<open>
  The life of a page cache: construction, then any sequence of allocations and releases by its
  clients. The properties of the page cache are stated over this.
\<close>

section \<open>Construction\<close>

text \<open>The head nodes of the buckets and the head nodes \<open>ex\<close> of other lists are static objects below the break.\<close>

definition heads_ok :: "nat \<Rightarrow> (nat \<Rightarrow> addr) \<Rightarrow> addr list \<Rightarrow> bool" where
  "heads_ok b pl ex \<longleftrightarrow> disjoint_blocks sizeof_Span (map pl [0..<NPAGES] @ ex) \<and>
     (\<forall>a\<in>set (map pl [0..<NPAGES] @ ex). a \<noteq> 0 \<and> a + sizeof_Span \<le> b)"

lemma new_heads:
  assumes "\<forall>i\<in>set is. pl i \<noteq> 0" "distinct (map pl is)"
  shows "\<exists>h'. foldR (\<lambda>i. SpanList_new (pl i)) is h = Inr h' \<and> (\<forall>i\<in>set is. sl_rep h' (pl i) []) \<and>
    (\<forall>a. a \<notin> pl ` set is \<longrightarrow> h' a = h a)"
  using assms
proof (induction "is" arbitrary: h)
  case (Cons i "is")
  define h1 where "h1 = h(pl i := (Span_init (h (pl i)))\<lparr>nxt := pl i, prv := pl i\<rparr>)"
  have new: "SpanList_new (pl i) h = Inr h1"
    using Cons.prems by (simp add: SpanList_new_def upd_span_def h1_def)
  obtain h' where h': "foldR (\<lambda>i. SpanList_new (pl i)) is h1 = Inr h'" "\<forall>i\<in>set is. sl_rep h' (pl i) []"
      "\<forall>a. a \<notin> pl ` set is \<longrightarrow> h' a = h1 a"
    using Cons.IH [of h1] Cons.prems by auto
  have "h' (pl i) = h1 (pl i)" using h'(3) Cons.prems(2) by simp
  then have "sl_rep h' (pl i) []" using Cons.prems(1) by (simp add: sl_rep_def h1_def)
  with new h' show ?case by (auto simp: h1_def)
qed simp

lemma disjoint_blocks_subset:
  "disjoint_blocks n xs \<Longrightarrow> distinct ys \<Longrightarrow> set ys \<subseteq> set xs \<Longrightarrow> disjoint_blocks n ys"
  unfolding disjoint_blocks_def by blast

lemma PageCache_new_ok:
  assumes heads: "heads_ok (brk os) pl ex" and dvd: "PAGE_SIZE dvd brk os"
  shows "\<exists>c. PageCache_new pl h os = Inr c \<and> pc_inv brk c (\<lambda>_. []) [] ex \<and> pc_os c = os"
proof -
  have hd: "disjoint_blocks sizeof_Span (map pl [0..<NPAGES] @ ex)"
    and hb: "\<forall>a\<in>set (map pl [0..<NPAGES] @ ex). a \<noteq> 0 \<and> a + sizeof_Span \<le> brk os"
    using heads [unfolded heads_ok_def] by (rule conjunct1, rule conjunct2)
  then have "distinct (map pl [0..<NPAGES] @ ex)" unfolding disjoint_blocks_def by blast
  then have d: "distinct (map pl [0..<NPAGES])" "distinct ex" "set (map pl [0..<NPAGES]) \<inter> set ex = {}"
    unfolding distinct_append by blast+
  have nz: "\<forall>i\<in>set [0..<NPAGES]. pl i \<noteq> 0" using hb by simp
  obtain h' where h': "foldR (\<lambda>i. SpanList_new (pl i)) [0..<NPAGES] h = Inr h'"
      "\<forall>i\<in>set [0..<NPAGES]. sl_rep h' (pl i) []"
    using new_heads [OF nz d(1), of h] by blast
  define c where "c = \<lparr>pc_spans = h', pagelist = pl, spanPool = objectPool_init,
    id_span_map = PageMap_init, pc_os = os\<rparr>"
  have nodes: "nodes pl (\<lambda>_. []) = map pl bucket_ids" by (simp add: nodes_def concat_map_singleton)
  have sub: "set bucket_ids \<subseteq> set [0..<NPAGES]" by auto
  have "inj_on pl (set bucket_ids)" using d(1) sub by (meson distinct_map inj_on_subset)
  then have "distinct (map pl bucket_ids @ ex)"
    using d(2,3) sub unfolding distinct_append by (auto simp: distinct_map)
  moreover have hsub: "set (map pl bucket_ids @ ex) \<subseteq> set (map pl [0..<NPAGES] @ ex)" using sub by auto
  ultimately have "disjoint_blocks sizeof_Span (map pl bucket_ids @ ex)"
    using disjoint_blocks_subset [OF hd] by blast
  moreover have bounds: "\<forall>a\<in>set (map pl bucket_ids @ ex). a \<noteq> 0 \<and> a + sizeof_Span \<le> brk os"
    using hb hsub by (meson subsetD)
  ultimately have pool: "pool_inv sizeof_Span (first_words h', objectPool_init) [] (map pl bucket_ids @ ex)"
    using bounds by (simp add: pool_inv_def objectPool_init_def block_def)
  have "objs_ok brk c (nodes (pagelist c) (\<lambda>_. []) @ [] @ ex)"
    using pool bounds dvd unfolding c_def page_cache.simps nodes
    by (intro objs_okI [where pf = "[]"]) (simp_all add: objectPool_init_def)
  moreover have "links_ok (pc_spans c) (pagelist c) (\<lambda>_. [])" using h'(2) by (simp add: links_ok_def c_def)
  moreover have "geo (pc_spans c) (id_span_map c) (frees (\<lambda>_. []) \<union> set []) {}"
    by (simp add: geo_def frees_def c_def PageMap_init_def get_span_def)
  ultimately have "pc_inv brk c (\<lambda>_. []) [] ex"
    unfolding pc_inv_def pc_st_def by (simp add: frees_def)
  then show ?thesis using h'(1) by (auto simp: PageCache_new_def c_def)
qed

section \<open>Clients\<close>

text \<open>
  \<open>us\<close> are the spans the clients hold. A client sets the flag of a span it got before anyone else can
  see it, as the central cache does; room for another 128 pages below \<open>2 ^ 48\<close> is assumed at each
  allocation.
\<close>

inductive pc_reach ::
    "('o \<Rightarrow> nat) \<Rightarrow> 'o sbrk \<Rightarrow> (addr \<Rightarrow> 'o \<Rightarrow> 'o) \<Rightarrow> 'o page_cache \<Rightarrow> addr list \<Rightarrow> bool"
  for brk sbrk bk where
  pc_start: "heads_ok (brk os) pl [] \<Longrightarrow> PAGE_SIZE dvd brk os \<Longrightarrow> PageCache_new pl h os = Inr c \<Longrightarrow>
    pc_reach brk sbrk bk c []"
| pc_alloc: "pc_reach brk sbrk bk c us \<Longrightarrow> 0 < n \<Longrightarrow> n < 128 \<Longrightarrow>
    brk (pc_os c) + 131072 + 2 ^ 33 \<le> 2 ^ 48 \<Longrightarrow> new_Span 2 sbrk n c = Inr (sp, c1) \<Longrightarrow>
    upd_field sp (\<lambda>s. s\<lparr>isUse := True\<rparr>) c1 = Inr c2 \<Longrightarrow> pc_reach brk sbrk bk c2 (sp # us)"
| pc_free: "pc_reach brk sbrk bk c us \<Longrightarrow> sp \<in> set us \<Longrightarrow> relase_to_PageCache bk sp c = Inr c1 \<Longrightarrow>
    pc_reach brk sbrk bk c1 (remove1 sp us)"

lemma pc_inv_perm: "pc_inv brk c fr us ex \<Longrightarrow> mset us = mset us' \<Longrightarrow> pc_inv brk c fr us' ex"
  unfolding pc_inv_def using pc_st_perm by blast

lemma pc_inv_use:
  assumes inv: "pc_inv brk c fr (sp # us) []" and u: "upd_field sp (\<lambda>s. s\<lparr>isUse := True\<rparr>) c = Inr c'"
  shows "pc_inv brk c' fr (sp # us) [] \<and> isUse (pc_spans c' sp) \<and>
    usecount (pc_spans c' sp) = usecount (pc_spans c sp) \<and> (\<forall>p. p \<noteq> sp \<longrightarrow> pc_spans c' p = pc_spans c p)"
proof -
  have st: "pc_st brk c fr (sp # us) [] {}" using inv by (simp add: pc_inv_def)
  have ne: "p \<noteq> sp" if "p \<in> frees fr" for p
    using pc_stD(6) [OF st] that frees_nodes [of fr "pagelist c"] by auto
  have c': "c' = c\<lparr>pc_spans := (pc_spans c)(sp := (pc_spans c sp)\<lparr>isUse := True\<rparr>)\<rparr>"
    using u by (auto simp: upd_field_def upd_span_def split: if_splits)
  show ?thesis
    using pc_st_flag [OF st, of "pc_spans c'"] inv ne by (auto simp: pc_inv_def c')
qed

lemma pc_reach_inv:
  assumes "pc_reach brk sbrk bk c us" "sbrk_law sbrk brk"
  shows "\<exists>fr. pc_inv brk c fr us [] \<and> (\<forall>p\<in>set us. isUse (pc_spans c p) \<and> usecount (pc_spans c p) = 0)"
  using assms
proof (induction rule: pc_reach.induct)
  case (pc_start os pl h c)
  then show ?case using PageCache_new_ok [of brk os pl "[]" h] by auto
next
  case (pc_alloc c us n sp c1 c2)
  then obtain fr where fr: "pc_inv brk c fr us []" "\<forall>p\<in>set us. isUse (pc_spans c p) \<and> usecount (pc_spans c p) = 0" by blast
  obtain fr1 where fr1: "pc_inv brk c1 fr1 (sp # us) []" "usecount (pc_spans c1 sp) = 0" "\<forall>p\<in>set us. pc_spans c1 p = pc_spans c p"
    using new_Span_ok [OF fr(1) pc_alloc.prems pc_alloc.hyps(2-4)] pc_alloc.hyps(5) by auto
  note u = pc_inv_use [OF fr1(1) pc_alloc.hyps(6)]
  have "isUse (pc_spans c2 p) \<and> usecount (pc_spans c2 p) = 0" if "p \<in> set (sp # us)" for p
    using that u fr1(2,3) fr(2) by (cases "p = sp") auto
  then show ?case using u by blast
next
  case (pc_free c us sp c1)
  then obtain fr where fr: "pc_inv brk c fr us []" "\<forall>p\<in>set us. isUse (pc_spans c p) \<and> usecount (pc_spans c p) = 0" by blast
  have inv: "pc_inv brk c fr (sp # remove1 sp us) []"
    using pc_inv_perm [OF fr(1)] pc_free.hyps(2) by simp
  have used: "\<forall>p\<in>set (remove1 sp us). isUse (pc_spans c p)" "usecount (pc_spans c sp) = 0"
    using fr(2) set_remove1_subset pc_free.hyps(2) by (metis subsetD)+
  show ?case using release_ok [OF inv used, of bk] pc_free.hyps(3) used fr(2) by (auto dest: notin_set_remove1)
qed

lemma pc_inv_pages:
  assumes "pc_inv brk c fr us ex"
  shows "distinct us" "p \<in> set us \<Longrightarrow> q \<in> set us \<Longrightarrow> p \<noteq> q \<Longrightarrow> pages (pc_spans c p) \<inter> pages (pc_spans c q) = {}"
    "p \<in> set us \<Longrightarrow> 0 < npage (pc_spans c p)"
    "p \<in> set us \<Longrightarrow> get_span (first_page (pc_spans c p)) (id_span_map c) = p"
    "p \<in> set us \<Longrightarrow> get_span (last_page (pc_spans c p)) (id_span_map c) = p"
proof -
  have st: "pc_st brk c fr us ex {}" using assms by (simp add: pc_inv_def)
  show "distinct us" using pc_stD(6) [OF st] by simp
  note g = pc_stD(4) [OF st]
  show "pages (pc_spans c p) \<inter> pages (pc_spans c q) = {}" if "p \<in> set us" "q \<in> set us" "p \<noteq> q"
    using geoD(4) [OF g, of p q] that by simp
  show "0 < npage (pc_spans c p)" "get_span (first_page (pc_spans c p)) (id_span_map c) = p"
    "get_span (last_page (pc_spans c p)) (id_span_map c) = p" if "p \<in> set us"
    using geoD(1,5,6) [OF g, of p] that by simp_all
qed

text \<open>Requests of 129 pages or more, which take the other branch.\<close>

lemma new_Span_large_unready:
  assumes inv: "pc_inv brk c fr us []" and law: "sbrk_law sbrk brk" and n: "NPAGES \<le> n"
    and un: "brk (pc_os c) div PAGE_SIZE < 2 ^ BITS" "\<not> ready (id_span_map c) (brk (pc_os c) div PAGE_SIZE)"
  shows "new_Span (Suc f) sbrk n c = Inl NullDeref"
proof -
  obtain os where os: "SystemAlloc_sbrk sbrk n (pc_os c) = Inr (brk (pc_os c), os)"
    using SystemAlloc_law [OF law, of n "pc_os c"] by blast
  have le: "brk_le brk (pc_os c) os" by (rule SystemAlloc_brk [OF law os])
  have o: "objs_ok brk c (nodes (pagelist c) fr @ us @ [])" using inv by (simp add: pc_inv_def pc_st_def)
  then have "PAGE_SIZE dvd brk (pc_os c)" by (simp add: objs_ok_def)
  with o le have "objs_ok brk (c\<lparr>pc_os := os\<rparr>) (nodes (pagelist c) fr @ us @ [])"
    by (intro objs_ok_os) (auto simp: brk_le_def)
  from spanPool_New_ok [OF this law] obtain sp h P os1 where new:
      "spanPool_New sbrk (c\<lparr>pc_os := os\<rparr>) = Inr (sp, c\<lparr>pc_spans := h, spanPool := P, pc_os := os1\<rparr>)" "sp \<noteq> 0"
    by auto
  have "set_span (brk (pc_os c) div PAGE_SIZE) sp (id_span_map c) = Inl NullDeref"
    using un by (rule set_span_unready)
  then show ?thesis
    using n os new
    by (simp add: NPAGES_def new_Span_large_def upd_field_def upd_span_def set_page_def)
qed

section \<open>A concrete cache\<close>

text \<open>The break starts behind two pages that hold the head nodes; \<open>sbrk\<close> moves it.\<close>

definition demo_sbrk :: "nat sbrk" where
  "demo_sbrk n b = (Suc b, b + n)"

definition demo_pl :: "nat \<Rightarrow> addr" where
  "demo_pl i = 64 * i + 64"

definition demo_cache :: "nat page_cache result" where
  "demo_cache = PageCache_new demo_pl
     (\<lambda>_. \<lparr>pageid = 0, npage = 0, nxt = 0, prv = 0, objlist = 0, objsize = 0, usecount = 0, isUse = False\<rparr>)
     16383"

lemma demo_law: "sbrk_law demo_sbrk Suc"
  by (simp add: sbrk_law_def demo_sbrk_def)

lemma demo_heads: "heads_ok (Suc 16383) demo_pl []"
proof -
  have "block 64 (64 * i + 64) \<inter> block 64 (64 * j + 64) = {}" if "i \<noteq> j" for i j :: nat
    using that by (cases i j rule: linorder_cases) (auto simp: block_def)
  moreover have "inj demo_pl" by (auto simp: inj_def demo_pl_def)
  then have "distinct (map demo_pl [0..<NPAGES])" by (simp add: distinct_map inj_on_subset [of _ UNIV])
  ultimately show ?thesis
    by (auto simp: heads_ok_def disjoint_blocks_def demo_pl_def sizeof_Span_def NPAGES_def)
qed

lemma demo_reach:
  obtains c where "demo_cache = Inr c" "pc_reach Suc demo_sbrk (\<lambda>_. id) c []" "pc_os c = 16383"
    "pc_inv Suc c (\<lambda>_. []) [] []" "id_span_map c = PageMap_init"
proof -
  have d: "PAGE_SIZE dvd Suc 16383" by (simp add: PAGE_SIZE_def)
  obtain c where c: "demo_cache = Inr c" "pc_inv Suc c (\<lambda>_. []) [] []" "pc_os c = 16383"
    using PageCache_new_ok [where brk = Suc and os = 16383, OF demo_heads d] by (auto simp: demo_cache_def)
  moreover have "id_span_map c = PageMap_init"
    using c(1) by (auto simp: demo_cache_def PageCache_new_def bindR_eq_Inr)
  moreover have "pc_reach Suc demo_sbrk (\<lambda>_. id) c []"
    using pc_start [where brk = Suc and os = 16383, OF demo_heads d] c(1) unfolding demo_cache_def by blast
  ultimately show thesis using that by blast
qed

lemma demo_reach_one:
  obtains c sp where "pc_reach Suc demo_sbrk (\<lambda>_. id) c [sp]"
proof -
  obtain c where c: "pc_reach Suc demo_sbrk (\<lambda>_. id) c []" "pc_os c = 16383" "pc_inv Suc c (\<lambda>_. []) [] []"
    using demo_reach by blast
  obtain sp c1 fr where a: "new_Span 2 demo_sbrk 5 c = Inr (sp, c1)" "pc_inv Suc c1 fr [sp] []"
    using new_Span_ok [OF c(3) demo_law, of 5] by (auto simp: c(2))
  have "sp \<noteq> 0" using a(2) pc_stD(7) [of Suc c1 fr "[sp]" "[]" "{}"] by (auto simp: pc_inv_def)
  then obtain c2 where "upd_field sp (\<lambda>s. s\<lparr>isUse := True\<rparr>) c1 = Inr c2"
    by (simp add: upd_field_def upd_span_def)
  from pc_alloc [where brk = Suc, OF c(1) _ _ _ a(1) this] have "pc_reach Suc demo_sbrk (\<lambda>_. id) c2 [sp]"
    by (simp add: c(2))
  then show thesis by (rule that)
qed

section \<open>Properties\<close>



text \<open>
  C14: in every such state each request succeeds without an assertion failing, a null pointer being
  followed or the recursion going deeper than two calls, and yields a span of the size asked for.
\<close>

theorem new_Span_succeeds:
  assumes "pc_reach brk sbrk bk c us" "sbrk_law sbrk brk" "0 < n" "n < 128"
    "brk (pc_os c) + 131072 + 2 ^ 33 \<le> 2 ^ 48"
  shows "\<exists>sp c'. new_Span 2 sbrk n c = Inr (sp, c') \<and> npage (pc_spans c' sp) = n \<and> sp \<notin> set us \<and>
    (\<forall>p\<in>set us. pc_spans c' p = pc_spans c p \<and> pages (pc_spans c' sp) \<inter> pages (pc_spans c' p) = {})"
proof -
  obtain fr where "pc_inv brk c fr us []" using pc_reach_inv [OF assms(1,2)] by blast
  from new_Span_ok [OF this assms(2-5)]
  obtain sp c' fr' where r: "new_Span 2 sbrk n c = Inr (sp, c')" "pc_inv brk c' fr' (sp # us) []"
      "npage (pc_spans c' sp) = n" "\<forall>p\<in>set us. pc_spans c' p = pc_spans c p" by auto
  have "sp \<notin> set us" using pc_inv_pages(1) [OF r(2)] by simp
  moreover have "pages (pc_spans c' sp) \<inter> pages (pc_spans c' p) = {}" if "p \<in> set us" for p
    using pc_inv_pages(2) [OF r(2), of sp p] that calculation by auto
  ultimately show ?thesis using r by auto
qed

theorem new_Span_succeeds_witness:
  "\<exists>c sp c'. demo_cache = Inr c \<and> new_Span 2 demo_sbrk 7 c = Inr (sp, c') \<and> npage (pc_spans c' sp) = 7"
proof -
  obtain c where c: "demo_cache = Inr c" "pc_reach Suc demo_sbrk (\<lambda>_. id) c []" "pc_os c = 16383"
    using demo_reach by blast
  then show ?thesis using new_Span_succeeds [OF c(2) demo_law, of 7] by (auto simp: c(3))
qed

text \<open>
  C15: releasing a span in such a state succeeds, both merging loops ending within 129 rounds. No page
  is lost or gained, the spans still in use are untouched, and the released span has been merged
  as far as possible: a free span next to it could only be added beyond 128 pages.
\<close>

theorem release_merges:
  assumes "pc_reach brk sbrk bk c us" "sbrk_law sbrk brk" "sp \<in> set us"
  shows "\<exists>c' fr fr'. pc_inv brk c fr us [] \<and> relase_to_PageCache bk sp c = Inr c' \<and>
    pc_inv brk c' fr' (remove1 sp us) [] \<and> sp \<in> frees fr' \<and>
    all_pages (pc_spans c') (frees fr' \<union> set (remove1 sp us)) = all_pages (pc_spans c) (frees fr \<union> set us) \<and>
    (\<forall>p\<in>set (remove1 sp us). pc_spans c' p = pc_spans c p) \<and>
    (\<forall>q\<in>frees fr'. q \<noteq> sp \<longrightarrow>
       pageid (pc_spans c' q) + npage (pc_spans c' q) = pageid (pc_spans c' sp) \<or>
       pageid (pc_spans c' sp) + npage (pc_spans c' sp) = pageid (pc_spans c' q) \<longrightarrow>
       NPAGES \<le> npage (pc_spans c' q) + npage (pc_spans c' sp))"
proof -
  obtain fr where fr: "pc_inv brk c fr us []" "\<forall>p\<in>set us. isUse (pc_spans c p) \<and> usecount (pc_spans c p) = 0"
    using pc_reach_inv [OF assms(1,2)] by blast
  have inv: "pc_inv brk c fr (sp # remove1 sp us) []"
    using pc_inv_perm [OF fr(1)] assms(3) by simp
  have used: "\<forall>p\<in>set (remove1 sp us). isUse (pc_spans c p)" "usecount (pc_spans c sp) = 0"
    using fr(2) set_remove1_subset assms(3) by (metis subsetD)+
  have S: "set (sp # remove1 sp us) = set us"
    using assms(3) pc_inv_pages(1) [OF fr(1)] by auto
  show ?thesis using release_ok [OF inv used, of bk] fr(1) unfolding S append_Nil2 by blast
qed

theorem release_merges_witness:
  "\<exists>c sp c' fr'. pc_reach Suc demo_sbrk (\<lambda>_. id) c [sp] \<and>
    relase_to_PageCache (\<lambda>_. id) sp c = Inr c' \<and> pc_inv Suc c' fr' [] [] \<and> sp \<in> frees fr'"
proof -
  obtain c sp where r: "pc_reach Suc demo_sbrk (\<lambda>_. id) c [sp]" by (rule demo_reach_one)
  have "sp \<in> set [sp]" by simp
  from release_merges [OF r demo_law this] r show ?thesis by auto
qed

text \<open>
  Requests of 129 pages or more do not work. The new span is entered into the page map without
  \<^verbatim>\<open>Ensure\<close>, so that unless the leaf of the new address happens to exist already, a null pointer is
  followed.
\<close>

theorem large_request_crashes:
  assumes "pc_reach brk sbrk bk c us" "sbrk_law sbrk brk" "NPAGES \<le> n"
    "brk (pc_os c) div PAGE_SIZE < 2 ^ BITS" "\<not> ready (id_span_map c) (brk (pc_os c) div PAGE_SIZE)"
  shows "new_Span (Suc f) sbrk n c = Inl NullDeref"
proof -
  obtain fr where "pc_inv brk c fr us []" using pc_reach_inv [OF assms(1,2)] by blast
  from new_Span_large_unready [OF this assms(2-5)] show ?thesis .
qed

theorem large_request_crashes_witness:
  "\<exists>c. demo_cache = Inr c \<and> new_Span 2 demo_sbrk 129 c = Inl NullDeref"
proof -
  obtain c where c: "demo_cache = Inr c" "pc_reach Suc demo_sbrk (\<lambda>_. id) c []" "pc_os c = 16383"
      "id_span_map c = PageMap_init"
    using demo_reach by blast
  then show ?thesis
    using large_request_crashes [OF c(2) demo_law, of 129 1]
    by (intro exI [of _ c]) (simp add: NPAGES_def PAGE_SIZE_def pm_consts PageMap_init_def ready_def
        flip: numeral_2_eq_2)
qed

text \<open>
  A span taken from the bucket of its own size is not mapped as a whole. The loop over its pages
  sets the first page every time, so that what the map says of every other page is what it said
  before, which need not be this span.
\<close>

theorem exact_fit_maps_first_page_only:
  assumes "pc_inv brk c fr us []" "0 < n" "n < NPAGES" "fr n = sp # rest"
  shows "\<exists>c'. new_Span (Suc f) sbrk n c = Inr (sp, c') \<and>
    (\<forall>k. k \<noteq> pageid (pc_spans c sp) \<longrightarrow> get_span k (id_span_map c') = get_span k (id_span_map c))"
proof -
  have st: "pc_st brk c fr us [] {}" using assms(1) by (simp add: pc_inv_def)
  have nb: "n \<in> set bucket_ids" using assms(2,3) by simp
  have e: "sl_empty (pagelist c n) (pc_spans c) = Inr False"
    using pc_stD(1) [OF st] nb sl_empty_iff [of "pc_spans c" "pagelist c n" "fr n"] assms(4)
    unfolding links_ok_def by (metis list.distinct(1))
  from exact_ok [where fr = fr, OF st nb assms(4)] show ?thesis
    using e assms(2,3) by auto
qed

theorem exact_fit_maps_first_page_only_witness:
  "\<exists>c fr n sp rest c'. pc_inv Suc c fr [] [] \<and> fr n = sp # rest \<and> new_Span (Suc 0) demo_sbrk n c = Inr (sp, c') \<and>
    (\<forall>k. k \<noteq> pageid (pc_spans c sp) \<longrightarrow> get_span k (id_span_map c') = get_span k (id_span_map c))"
proof -
  obtain c0 p where r: "pc_reach Suc demo_sbrk (\<lambda>_. id) c0 [p]" by (rule demo_reach_one)
  then obtain fr0 where "pc_inv Suc c0 fr0 [p] []" "usecount (pc_spans c0 p) = 0"
    using pc_reach_inv [OF _ demo_law] by fastforce
  from release_ok [OF this(1) _ this(2), of "\<lambda>_. id"] obtain c fr where c: "pc_inv Suc c fr [] []" "p \<in> frees fr" by auto
  obtain n where n: "n \<in> set bucket_ids" "p \<in> set (fr n)" using c(2) unfolding frees_def by blast
  then obtain sp rest where "fr n = sp # rest" by (cases "fr n") auto
  moreover from this have "\<exists>c'. new_Span (Suc 0) demo_sbrk n c = Inr (sp, c') \<and>
    (\<forall>k. k \<noteq> pageid (pc_spans c sp) \<longrightarrow> get_span k (id_span_map c') = get_span k (id_span_map c))"
    using exact_fit_maps_first_page_only [where fr = fr, OF c(1)] n(1) by simp
  ultimately show ?thesis using c(1) by blast
qed

end
