(* ===== verification/CentralCache.thy ===== *)
theory CentralCache
  imports PageCacheLife
begin

text \<open>
  The central cache (\<^verbatim>\<open>src/memory/CentralCache.hpp\<close>, \<^verbatim>\<open>CentralCache.cc\<close>): for every size class a list of
  spans that are cut into objects of that class. It hands out batches of objects to the thread
  caches and takes them back. The bucket locks are not modelled: an operation is one critical
  section, during which \<^verbatim>\<open>get_one_Span\<close> calls the page cache.
\<close>

section \<open>State\<close>

text \<open>
  \<open>cc_mem\<close> is the memory of the objects, \<open>spanlist i\<close> the head node of the \<open>i\<close>-th bucket. The spans are on
  the heap of the page cache.
\<close>

record 'o central_cache =
  cc_mem :: heap
  spanlist :: "nat \<Rightarrow> addr"
  cc_page :: "'o page_cache"

definition cc_spans :: "'o central_cache \<Rightarrow> spans" where
  "cc_spans c = pc_spans (cc_page c)"

definition upd_cc :: "addr \<Rightarrow> (span \<Rightarrow> span) \<Rightarrow> 'o central_cache \<Rightarrow> 'o central_cache result" where
  "upd_cc p f c = bindR (upd_field p f (cc_page c)) (\<lambda>q. Inr (c\<lparr>cc_page := q\<rparr>))"

text \<open>
  The array \<^verbatim>\<open>_spanlist\<close>, at the head nodes \<open>sl\<close>. The singleton is constructed next to that of the
  page cache, whose spans it shares.
\<close>

definition CentralCache_new :: "(nat \<Rightarrow> addr) \<Rightarrow> heap \<Rightarrow> 'o page_cache \<Rightarrow> 'o central_cache result" where
  "CentralCache_new sl m q =
     bindR (foldR (\<lambda>i. SpanList_new (sl i)) [0..<NFREELIST] (pc_spans q)) (\<lambda>h.
     Inr \<lparr>cc_mem = m, spanlist = sl, cc_page = q\<lparr>pc_spans := h\<rparr>\<rparr>)"

section \<open>Getting a span\<close>

text \<open>
  The search for a span with free objects, from \<open>it\<close> to the head node \<open>hp\<close>; the first argument bounds
  the number of rounds.
\<close>

fun find_span :: "nat \<Rightarrow> addr \<Rightarrow> addr \<Rightarrow> spans \<Rightarrow> addr option result" where
  "find_span 0 hp it h = Inl Diverges"
| "find_span (Suc f) hp it h =
     (if it \<noteq> sl_end hp then
        bindR (deref_span it h) (\<lambda>s.
          if objlist s \<noteq> 0 then Inr (Some it) else find_span f hp (nxt s) h)
      else Inr None)"

text \<open>
  The loop that links the objects of a new span; for objects of size 0 it would never end.
\<close>

function carve :: "size_t \<Rightarrow> addr \<Rightarrow> addr \<Rightarrow> addr \<Rightarrow> heap \<Rightarrow> heap result" where
  "carve sz tail start limit m =
     (if start < limit then
        if sz = 0 then Inl Diverges
        else case set_NEXT_OBJ tail start m of
               Inl e \<Rightarrow> Inl e
             | Inr m1 \<Rightarrow> carve sz start (start + sz) limit m1
      else set_NEXT_OBJ tail 0 m)"
  by pat_completeness auto
termination by (relation "measure (\<lambda>(sz, tail, start, limit, m). limit - start)") auto

declare carve.simps [simp del]

definition get_one_Span ::
    "nat \<Rightarrow> 'o sbrk \<Rightarrow> addr \<Rightarrow> word64 \<Rightarrow> 'o central_cache \<Rightarrow> (addr \<times> 'o central_cache) result" where
  "get_one_Span fuel sbrk hp sz c =
     bindR (sl_begin hp (cc_spans c)) (\<lambda>it.
     bindR (find_span fuel hp it (cc_spans c)) (\<lambda>r.
     case r of
       Some sp \<Rightarrow> Inr (sp, c)
     | None \<Rightarrow>
         bindR (num_move_page sz) (\<lambda>k.
         bindR (new_Span 2 sbrk (unat k) (cc_page c)) (\<lambda>(sp, q1).
         bindR (upd_field sp (\<lambda>s. s\<lparr>isUse := True, objsize := unat sz\<rparr>) q1) (\<lambda>q2.
         bindR (deref_span sp (pc_spans q2)) (\<lambda>s.
         let start = pageid s * PAGE_SIZE mod size_mod;
             bytes = npage s * PAGE_SIZE mod size_mod;
             limit = start + bytes
         in
         bindR (upd_field sp (\<lambda>s. s\<lparr>objlist := start\<rparr>) q2) (\<lambda>q3.
         bindR (carve (unat sz) start (start + unat sz) limit (cc_mem c)) (\<lambda>m.
         bindR (push_front hp sp (pc_spans q3)) (\<lambda>h.
         Inr (sp, c\<lparr>cc_mem := m, cc_page := q3\<lparr>pc_spans := h\<rparr>\<rparr>))))))))))"

section \<open>Handing out and taking back objects\<close>

text \<open>The loop of \<^verbatim>\<open>fetch_range_obj\<close>: at most \<open>k\<close> further objects, with the number taken so far.\<close>

fun fetch_loop :: "heap \<Rightarrow> nat \<Rightarrow> addr \<Rightarrow> size_t \<Rightarrow> (addr \<times> size_t) result" where
  "fetch_loop m 0 e n = Inr (e, n)"
| "fetch_loop m (Suc k) e n =
     bindR (NEXT_OBJ m e) (\<lambda>x. if x = 0 then Inr (e, n) else fetch_loop m k x (n + 1))"

definition bucket_head :: "word64 \<Rightarrow> 'o central_cache \<Rightarrow> addr result" where
  "bucket_head sz c =
     bindR (index sz) (\<lambda>i. if unat i < NFREELIST then Inr (spanlist c (unat i)) else Inl OutOfBounds)"

definition fetch_range_obj ::
    "nat \<Rightarrow> 'o sbrk \<Rightarrow> size_t \<Rightarrow> word64 \<Rightarrow> 'o central_cache \<Rightarrow>
     (addr \<times> addr \<times> size_t \<times> 'o central_cache) result" where
  "fetch_range_obj fuel sbrk Num sz c =
     bindR (bucket_head sz c) (\<lambda>hp.
     bindR (get_one_Span fuel sbrk hp sz c) (\<lambda>(sp, c1).
     bindR (assertR (sp \<noteq> 0)) (\<lambda>_.
     bindR (assertR (objlist (cc_spans c1 sp) \<noteq> 0)) (\<lambda>_.
     let start = objlist (cc_spans c1 sp) in
     bindR (fetch_loop (cc_mem c1) (szsub Num 1) start 1) (\<lambda>(e, n).
     bindR (NEXT_OBJ (cc_mem c1) e) (\<lambda>rest.
     bindR (upd_cc sp (\<lambda>s. s\<lparr>objlist := rest\<rparr>) c1) (\<lambda>c2.
     bindR (set_NEXT_OBJ e 0 (cc_mem c2)) (\<lambda>m.
     bindR (upd_cc sp (\<lambda>s. s\<lparr>usecount := szadd (usecount s) n\<rparr>) (c2\<lparr>cc_mem := m\<rparr>)) (\<lambda>c3.
     Inr (start, e, n, c3))))))))))"

text \<open>
  One object goes back to its span. When it was the last one in use, the span leaves its bucket and
  goes back to the page cache.
\<close>

definition release_obj ::
    "(addr \<Rightarrow> 'o \<Rightarrow> 'o) \<Rightarrow> addr \<Rightarrow> addr \<Rightarrow> 'o central_cache \<Rightarrow> 'o central_cache result" where
  "release_obj brk hp start c =
     bindR (map_object_to_Span start (cc_page c)) (\<lambda>sp.
     bindR (set_NEXT_OBJ start (objlist (cc_spans c sp)) (cc_mem c)) (\<lambda>m.
     bindR (upd_cc sp (\<lambda>s. s\<lparr>objlist := start\<rparr>) (c\<lparr>cc_mem := m\<rparr>)) (\<lambda>c1.
     bindR (upd_cc sp (\<lambda>s. s\<lparr>usecount := szsub (usecount s) 1\<rparr>) c1) (\<lambda>c2.
     if usecount (cc_spans c2 sp) = 0 then
       bindR (sl_erase hp sp (cc_spans c2)) (\<lambda>h.
       bindR (upd_cc sp (\<lambda>s. s\<lparr>objlist := 0, nxt := 0, prv := 0\<rparr>)
                (c2\<lparr>cc_page := (cc_page c2)\<lparr>pc_spans := h\<rparr>\<rparr>)) (\<lambda>c3.
       bindR (relase_to_PageCache brk sp (cc_page c3)) (\<lambda>q.
       Inr (c3\<lparr>cc_page := q\<rparr>))))
     else Inr c2))))"

fun release_loop ::
    "nat \<Rightarrow> (addr \<Rightarrow> 'o \<Rightarrow> 'o) \<Rightarrow> addr \<Rightarrow> addr \<Rightarrow> 'o central_cache \<Rightarrow> 'o central_cache result" where
  "release_loop 0 brk hp start c = Inl Diverges"
| "release_loop (Suc f) brk hp start c =
     (if start \<noteq> 0 then
        bindR (NEXT_OBJ (cc_mem c) start) (\<lambda>x.
        bindR (release_obj brk hp start c) (release_loop f brk hp x))
      else Inr c)"

definition release_list_to_Spans ::
    "nat \<Rightarrow> (addr \<Rightarrow> 'o \<Rightarrow> 'o) \<Rightarrow> addr \<Rightarrow> word64 \<Rightarrow> 'o central_cache \<Rightarrow> 'o central_cache result" where
  "release_list_to_Spans fuel brk start sz c =
     bindR (bucket_head sz c) (\<lambda>hp. release_loop fuel brk hp start c)"

section \<open>Carving\<close>

text \<open>The objects of a span: one after the other until the end of the span is reached or passed.\<close>

definition carved :: "nat \<Rightarrow> addr \<Rightarrow> nat \<Rightarrow> addr list" where
  "carved sz start n = map (\<lambda>i. start + i * sz) [0..<n]"

lemma carved_Suc: "carved sz start (Suc n) = start # carved sz (start + sz) n"
  unfolding carved_def by (simp add: upt_conv_Cons map_Suc_upt [symmetric] comp_def del: upt_Suc)

lemma ceil_div_less: "0 < sz \<Longrightarrow> sz < b \<Longrightarrow> ceil_div b sz = Suc (ceil_div (b - sz) sz)"
proof -
  assume a: "0 < sz" "sz < b"
  then have "b + sz - 1 = (b - sz + sz - 1) + sz" by simp
  then show ?thesis using a(1) unfolding ceil_div_def by (metis div_add_self2 neq0_conv Suc_eq_plus1)
qed

lemma ceil_div_small: "0 < b \<Longrightarrow> b \<le> sz \<Longrightarrow> ceil_div b sz = 1"
  unfolding ceil_div_def by (simp add: div_eq_dividend_iff) (metis Nat.add_diff_assoc2 One_nat_def Suc_leI div_add_self2 div_less diff_less less_le_trans less_numeral_extra(1) neq0_conv plus_1_eq_Suc add.commute)

lemma carve_ok:
  assumes "0 < sz" "0 < tail" "tail < limit"
  shows "\<exists>m'. carve sz tail (tail + sz) limit m = Inr m' \<and>
    chain m' tail (carved sz tail (ceil_div (limit - tail) sz)) 0 \<and>
    (\<forall>a. a \<notin> set (carved sz tail (ceil_div (limit - tail) sz)) \<longrightarrow> m' a = m a)"
  using assms
proof (induction "limit - tail" arbitrary: tail m rule: less_induct)
  case less
  show ?case
  proof (cases "tail + sz < limit")
    case False
    have "ceil_div (limit - tail) sz = 1" using less.prems False by (intro ceil_div_small) auto
    then show ?thesis using less.prems False
      by (subst carve.simps) (auto simp: set_NEXT_OBJ_def carved_def)
  next
    case True
    let ?m1 = "m(tail := tail + sz)"
    obtain m' where m': "carve sz (tail + sz) (tail + sz + sz) limit ?m1 = Inr m'"
        "chain m' (tail + sz) (carved sz (tail + sz) (ceil_div (limit - (tail + sz)) sz)) 0"
        "\<forall>a. a \<notin> set (carved sz (tail + sz) (ceil_div (limit - (tail + sz)) sz)) \<longrightarrow> m' a = ?m1 a"
    proof -
      have "limit - (tail + sz) < limit - tail" "0 < tail + sz" using less.prems True by simp_all
      from less.hyps [OF this(1) less.prems(1) this(2) True, of ?m1] show thesis using that by blast
    qed
    have k: "ceil_div (limit - tail) sz = Suc (ceil_div (limit - (tail + sz)) sz)"
      using less.prems True ceil_div_less [of sz "limit - tail"] by simp
    have "tail \<notin> set (carved sz (tail + sz) n)" for n using less.prems(1) by (auto simp: carved_def)
    then have "m' tail = tail + sz" using m'(3) by simp
    then show ?thesis
      using m' less.prems True k
      by (subst carve.simps) (auto simp: set_NEXT_OBJ_def carved_Suc)
  qed
qed

lemma carved_inside:
  assumes "0 < sz" "0 < b"
  shows "(\<forall>x\<in>set (carved sz start (ceil_div b sz)). x + sz \<le> start + b) \<longleftrightarrow> sz dvd b"
proof
  assume all: "\<forall>x\<in>set (carved sz start (ceil_div b sz)). x + sz \<le> start + b"
  have pos: "0 < ceil_div b sz" using assms by (simp add: ceil_div_pos)
  then have "start + (ceil_div b sz - 1) * sz \<in> set (carved sz start (ceil_div b sz))"
    by (auto simp: carved_def)
  with all have "(ceil_div b sz - 1) * sz + sz \<le> b" by fastforce
  then have le: "ceil_div b sz * sz \<le> b" using pos by (cases "ceil_div b sz") auto
  have "b \<le> ceil_div b sz * sz"
  proof -
    have "b + sz - 1 < (b + sz - 1) div sz * sz + sz"
      using assms(1) dividend_less_div_times [of sz "b + sz - 1"] by (simp add: add.commute)
    then show ?thesis by (simp add: ceil_div_def)
  qed
  with le have "b = ceil_div b sz * sz" by simp
  then show "sz dvd b" by (metis dvd_triv_right)
next
  assume "sz dvd b"
  then obtain k where k: "b = sz * k" by blast
  then have "ceil_div b sz = k" using assms by (simp add: mult.commute)
  moreover have "i * sz + sz \<le> sz * k" if "i < k" for i
    using that mult_le_mono2 [of "Suc i" k sz] by (simp add: mult.commute)
  ultimately show "\<forall>x\<in>set (carved sz start (ceil_div b sz)). x + sz \<le> start + b"
    by (auto simp: carved_def k)
qed

section \<open>Fetching\<close>

lemma fetch_loop_chain:
  assumes "chain m e (e # xs) 0"
  shows "fetch_loop m k e n = Inr ((e # xs) ! min k (length xs), n + min k (length xs))"
  using assms
proof (induction k arbitrary: e xs n)
  case (Suc k)
  show ?case
  proof (cases xs)
    case Nil
    then show ?thesis using Suc.prems by (simp add: NEXT_OBJ_def)
  next
    case (Cons x ys)
    then have "chain m x (x # ys) 0" "m e = x" "x \<noteq> 0" "e \<noteq> 0" using Suc.prems by auto
    then show ?thesis using Suc.IH [of x ys "n + 1"] Cons by (simp add: NEXT_OBJ_def)
  qed
qed simp

lemma chain_cut:
  assumes c: "chain m p xs 0" and d: "distinct xs" and n: "0 < n" "n \<le> length xs"
  defines "e \<equiv> xs ! (n - 1)"
  shows "chain (m(e := 0)) p (take n xs) 0" "chain (m(e := 0)) (m e) (drop n xs) 0" "e \<noteq> 0"
proof -
  have e: "take n xs = take (n - 1) xs @ [e]"
    using n take_Suc_conv_app_nth [of "n - 1" xs] by (simp add: e_def)
  have "distinct (take n xs @ drop n xs)" using d by simp
  then have de: "e \<notin> set (take (n - 1) xs)" "e \<notin> set (drop n xs)" unfolding e by auto
  have "chain m p (take (n - 1) xs @ e # drop n xs) 0"
    using c e by (metis append.assoc append_Cons append_Nil append_take_drop_id)
  then have parts: "chain m p (take (n - 1) xs) e" "e \<noteq> 0" "chain m (m e) (drop n xs) 0"
    by (auto simp: chain_append)
  then show "chain (m(e := 0)) p (take n xs) 0" "chain (m(e := 0)) (m e) (drop n xs) 0" "e \<noteq> 0"
    using de by (auto simp: e chain_append)
qed

lemma upd_cc_eq: "p \<noteq> 0 \<Longrightarrow> upd_cc p f c =
    Inr (c\<lparr>cc_page := (cc_page c)\<lparr>pc_spans := (cc_spans c)(p := f (cc_spans c p))\<rparr>\<rparr>)"
  by (simp add: upd_cc_def upd_field_def upd_span_def cc_spans_def)

lemma fetch_ok:
  assumes b: "bucket_head sz c = Inr hp" and g: "get_one_Span fuel sbrk hp sz c = Inr (sp, c1)" "sp \<noteq> 0"
    and xs: "chain (cc_mem c1) (objlist (cc_spans c1 sp)) xs 0" "distinct xs" "xs \<noteq> []"
    and num: "0 < Num" "Num < size_mod" "usecount (cc_spans c1 sp) + length xs < size_mod"
  defines "n \<equiv> min Num (length xs)"
  shows "\<exists>c2. fetch_range_obj fuel sbrk Num sz c = Inr (hd xs, xs ! (n - 1), n, c2) \<and>
    chain (cc_mem c2) (hd xs) (take n xs) 0 \<and>
    cc_spans c2 = (cc_spans c1)(sp := cc_spans c2 sp) \<and>
    chain (cc_mem c2) (objlist (cc_spans c2 sp)) (drop n xs) 0 \<and>
    usecount (cc_spans c2 sp) = usecount (cc_spans c1 sp) + n \<and>
    id_span_map (cc_page c2) = id_span_map (cc_page c1) \<and> spanlist c2 = spanlist c1 \<and>
    (\<forall>a. a \<notin> set xs \<longrightarrow> cc_mem c2 a = cc_mem c1 a) \<and>
    cc_page c2 = (cc_page c1)\<lparr>pc_spans := (cc_spans c1)(sp := (cc_spans c1 sp)
      \<lparr>objlist := objlist (cc_spans c2 sp), usecount := usecount (cc_spans c1 sp) + n\<rparr>)\<rparr>"
proof -
  let ?m = "cc_mem c1" and ?s = "cc_spans c1 sp"
  obtain x ys where x: "xs = x # ys" using xs(3) by (cases xs) auto
  have ol: "objlist ?s = x" "x \<noteq> 0" using xs(1) by (simp_all add: x)
  have n: "0 < n" "n \<le> length xs" using num(1) by (simp_all add: n_def x)
  define e where "e = xs ! (n - 1)"
  note cut = chain_cut [OF xs(1,2) n, folded e_def]
  have k: "szsub Num 1 = Num - 1" using num by (simp add: szsub_exact)
  have idx: "min (Num - 1) (length ys) = n - 1" "1 + (n - 1) = n"
    using num(1) n by (auto simp: n_def x)
  have loop: "fetch_loop ?m (szsub Num 1) x 1 = Inr (e, n)"
    using fetch_loop_chain [of ?m x ys "Num - 1" 1] xs(1) ol k idx by (simp add: x e_def)
  have use: "szadd (usecount ?s) n = usecount ?s + n"
    using num(3) n(2) by (simp add: szadd_exact)
  define t where "t = ?s\<lparr>objlist := ?m e, usecount := usecount ?s + n\<rparr>"
  define c2 where "c2 = c1\<lparr>cc_mem := ?m(e := 0), cc_page := (cc_page c1)\<lparr>pc_spans := (cc_spans c1)(sp := t)\<rparr>\<rparr>"
  have run: "fetch_range_obj fuel sbrk Num sz c = Inr (x, e, n, c2)"
    using b g ol loop cut(3) use
    by (simp add: fetch_range_obj_def NEXT_OBJ_def set_NEXT_OBJ_def upd_cc_eq)
      (simp add: cc_spans_def c2_def t_def)
  have sp2: "cc_spans c2 = (cc_spans c1)(sp := t)" by (simp add: c2_def cc_spans_def)
  have "cc_mem c2 a = ?m a" if "a \<notin> set xs" for a
    using that n nth_mem [of "n - 1" xs] by (auto simp: c2_def e_def)
  then show ?thesis
    using run cut(1,2) ol by (intro exI [of _ c2]) (simp add: sp2 t_def x e_def [symmetric], simp add: c2_def t_def x e_def)
qed

end
