(* ===== verification/CentralRelease.thy ===== *)
theory CentralRelease
  imports CentralCache
begin

text \<open>
  The behaviour of the central cache: finding a span with free objects, cutting a new one into
  objects, taking objects from a span and giving them back, up to the return of the whole span to
  the page cache.
\<close>

section \<open>Looking for a span\<close>

lemma sl_rep_first:
  assumes "sl_rep h hp xs"
  shows "sl_begin hp h = Inr (hd (xs @ [hp]))" "hp \<noteq> 0"
  using sl_rep_split(3) [of h hp "[]" xs] assms
  by (simp_all add: sl_begin_def deref_span_def sl_rep_def)

lemma sl_rep_next:
  assumes "sl_rep h hp (as @ x # bs)"
  shows "nxt (h x) = hd (bs @ [hp])" "x \<noteq> 0" "x \<noteq> hp"
  using sl_rep_split(3) [of h hp "as @ [x]" bs] assms by (auto simp: sl_rep_def)

text \<open>Spans without free objects are passed over.\<close>

lemma find_span_skip:
  assumes "sl_rep h hp (as @ xs @ bs)" "\<forall>x\<in>set xs. objlist (h x) = 0"
  shows "find_span (length xs + f) hp (hd (xs @ bs @ [hp])) h = find_span f hp (hd (bs @ [hp])) h"
  using assms
proof (induction xs arbitrary: as)
  case (Cons x xs)
  have "sl_rep h hp (as @ x # xs @ bs)" using Cons.prems(1) by simp
  note n = sl_rep_next [OF this]
  have "find_span (length xs + f) hp (hd (xs @ bs @ [hp])) h = find_span f hp (hd (bs @ [hp])) h"
    using Cons.IH [of "as @ [x]"] Cons.prems by simp
  then show ?case using n Cons.prems(2) by (simp add: sl_end_def deref_span_def)
qed simp

lemma find_span_hit:
  assumes "sl_rep h hp (as @ sp # bs)" "\<forall>x\<in>set as. objlist (h x) = 0" "objlist (h sp) \<noteq> 0"
  shows "find_span (length as + Suc f) hp (hd ((as @ sp # bs) @ [hp])) h = Inr (Some sp)"
  using find_span_skip [of h hp "[]" as "sp # bs" "Suc f"] sl_rep_next [OF assms(1)] assms
  by (simp add: sl_end_def deref_span_def)

lemma find_span_miss:
  assumes "sl_rep h hp xs" "\<forall>x\<in>set xs. objlist (h x) = 0"
  shows "find_span (length xs + Suc f) hp (hd (xs @ [hp])) h = Inr None"
  using find_span_skip [of h hp "[]" xs "[]" "Suc f"] assms by (simp add: sl_end_def)

lemma get_one_Span_hit:
  assumes "sl_rep (cc_spans c) hp (as @ sp # bs)" "\<forall>x\<in>set as. objlist (cc_spans c x) = 0"
    "objlist (cc_spans c sp) \<noteq> 0" "length as < fuel"
  shows "get_one_Span fuel sbrk hp sz c = Inr (sp, c)"
proof -
  obtain f where f: "fuel = length as + Suc f" using assms(4) less_iff_Suc_add by auto
  show ?thesis
    using find_span_hit [OF assms(1-3), of f] sl_rep_first [OF assms(1)]
    by (simp add: get_one_Span_def f)
qed

section \<open>A new span\<close>

lemma get_one_Span_new:
  assumes bucket: "sl_rep (cc_spans c) hp bs" "\<forall>x\<in>set bs. objlist (cc_spans c x) = 0" "length bs < fuel"
    and page: "num_move_page sz = Inr k" "new_Span 2 sbrk (unat k) (cc_page c) = Inr (sp, q)"
    and after: "sl_rep (pc_spans q) hp bs" "sp \<noteq> 0" "sp \<notin> set (hp # bs)"
    and geo: "0 < pageid (pc_spans q sp)" "0 < npage (pc_spans q sp)"
      "(pageid (pc_spans q sp) + npage (pc_spans q sp)) * PAGE_SIZE < size_mod"
    and sz: "0 < unat sz"
  defines "start \<equiv> pageid (pc_spans q sp) * PAGE_SIZE" and "bytes \<equiv> npage (pc_spans q sp) * PAGE_SIZE"
  defines "xs \<equiv> carved (unat sz) start (ceil_div bytes (unat sz))"
  shows "\<exists>c'. get_one_Span fuel sbrk hp sz c = Inr (sp, c') \<and>
    sl_rep (cc_spans c') hp (sp # bs) \<and> isUse (cc_spans c' sp) \<and> objsize (cc_spans c' sp) = unat sz \<and>
    chain (cc_mem c') (objlist (cc_spans c' sp)) xs 0 \<and> (\<forall>a. a \<notin> set xs \<longrightarrow> cc_mem c' a = cc_mem c a) \<and>
    spanlist c' = spanlist c \<and> cc_page c' = q\<lparr>pc_spans := cc_spans c'\<rparr> \<and>
    same_data ((pc_spans q)(sp := (pc_spans q sp)\<lparr>isUse := True, objsize := unat sz, objlist := start\<rparr>)) (cc_spans c') \<and>
    (\<forall>p. p \<notin> set (sp # hp # bs) \<longrightarrow> cc_spans c' p = pc_spans q p)"
proof -
  let ?s = "pc_spans q sp"
  obtain f where f: "fuel = length bs + Suc f" using bucket(3) less_iff_Suc_add by auto
  have find: "find_span fuel hp (hd (bs @ [hp])) (cc_spans c) = Inr None"
    using find_span_miss [OF bucket(1,2), of f] f by simp
  have P: "0 < PAGE_SIZE" by (simp add: PAGE_SIZE_def)
  then have pos: "0 < start" "0 < bytes" using geo by (simp_all add: start_def bytes_def)
  have "start + bytes < size_mod" using geo(3) by (simp add: start_def bytes_def distrib_right)
  then have small: "start mod size_mod = start" "bytes mod size_mod = bytes" by simp_all
  have "start < start + bytes" using pos by simp
  from carve_ok [OF sz pos(1) this, of "cc_mem c"] obtain m where
    m: "carve (unat sz) start (start + unat sz) (start + bytes) (cc_mem c) = Inr m"
      "chain m start xs 0" "\<forall>a. a \<notin> set xs \<longrightarrow> m a = cc_mem c a"
    by (auto simp: xs_def)
  define h where "h = (pc_spans q)(sp := ?s\<lparr>isUse := True, objsize := unat sz, objlist := start\<rparr>)"
  have "sl_rep h hp bs"
    using after(1,3) sl_rep_cong [of "pc_spans q" h hp bs] by (auto simp: same_links_def h_def)
  then obtain h' where h': "push_front hp sp h = Inr h'" "sl_rep h' hp (sp # bs)"
      "\<forall>p. p \<notin> set (sp # hp # bs) \<longrightarrow> h' p = h p"
    using push_front_ok [of h hp bs sp] after(2,3) by blast
  have data: "same_data h h'" by (rule push_front_data [OF h'(1)])
  define c' where "c' = c\<lparr>cc_mem := m, cc_page := q\<lparr>pc_spans := h'\<rparr>\<rparr>"
  have "get_one_Span fuel sbrk hp sz c = Inr (sp, c')"
    using find sl_rep_first [OF bucket(1)] page after(2) small m(1) h'(1)
    by (simp add: get_one_Span_def upd_field_def upd_span_def deref_span_def Let_def c'_def
        start_def [symmetric] bytes_def [symmetric] h_def)
  then show ?thesis
    using h'(2,3) data m(2,3)
    by (intro exI [of _ c']) (auto simp: c'_def cc_spans_def h_def same_data_def split: if_splits)
qed

section \<open>Giving objects back\<close>

text \<open>The page map leads from the page of every object of \<open>xs\<close> to the span \<open>sp\<close>.\<close>

definition objs_of :: "'o central_cache \<Rightarrow> addr \<Rightarrow> addr list \<Rightarrow> bool" where
  "objs_of c sp xs \<longleftrightarrow> (\<forall>x\<in>set xs. get_span (x div PAGE_SIZE) (id_span_map (cc_page c)) = sp)"

lemma map_object_ok:
  "objs_of c sp xs \<Longrightarrow> x \<in> set xs \<Longrightarrow> sp \<noteq> 0 \<Longrightarrow> map_object_to_Span x (cc_page c) = Inr sp"
  by (simp add: objs_of_def map_object_to_Span_def)

text \<open>The state after one object has gone back.\<close>

definition put_back :: "addr \<Rightarrow> addr \<Rightarrow> 'o central_cache \<Rightarrow> 'o central_cache" where
  "put_back sp x c = c\<lparr>cc_mem := (cc_mem c)(x := objlist (cc_spans c sp)),
     cc_page := (cc_page c)\<lparr>pc_spans := (cc_spans c)(sp := (cc_spans c sp)
       \<lparr>objlist := x, usecount := szsub (usecount (cc_spans c sp)) 1\<rparr>)\<rparr>\<rparr>"

lemma put_back_simps [simp]:
  "cc_mem (put_back sp x c) = (cc_mem c)(x := objlist (cc_spans c sp))"
  "cc_spans (put_back sp x c) = (cc_spans c)(sp := (cc_spans c sp)
     \<lparr>objlist := x, usecount := szsub (usecount (cc_spans c sp)) 1\<rparr>)"
  "id_span_map (cc_page (put_back sp x c)) = id_span_map (cc_page c)"
  "spanlist (put_back sp x c) = spanlist c"
  "(cc_page (put_back sp x c))\<lparr>pc_spans := h\<rparr> = (cc_page c)\<lparr>pc_spans := h\<rparr>"
  by (simp_all add: put_back_def cc_spans_def)

lemma release_obj_eq:
  assumes "map_object_to_Span x (cc_page c) = Inr sp" "sp \<noteq> 0" "x \<noteq> 0"
  shows "release_obj bk hp x c =
    (if usecount (cc_spans (put_back sp x c) sp) = 0 then
       bindR (sl_erase hp sp (cc_spans (put_back sp x c))) (\<lambda>h.
       bindR (upd_cc sp (\<lambda>s. s\<lparr>objlist := 0, nxt := 0, prv := 0\<rparr>)
                ((put_back sp x c)\<lparr>cc_page := (cc_page (put_back sp x c))\<lparr>pc_spans := h\<rparr>\<rparr>)) (\<lambda>c3.
       bindR (relase_to_PageCache bk sp (cc_page c3)) (\<lambda>q. Inr (c3\<lparr>cc_page := q\<rparr>))))
     else Inr (put_back sp x c))"
proof -
  let ?c1 = "c\<lparr>cc_mem := (cc_mem c)(x := objlist (cc_spans c sp)),
     cc_page := (cc_page c)\<lparr>pc_spans := (cc_spans c)(sp := (cc_spans c sp)\<lparr>objlist := x\<rparr>)\<rparr>\<rparr>"
  have 1: "upd_cc sp (\<lambda>s. s\<lparr>objlist := x\<rparr>) (c\<lparr>cc_mem := (cc_mem c)(x := objlist (cc_spans c sp))\<rparr>) = Inr ?c1"
    using assms(2) by (simp add: upd_cc_eq cc_spans_def)
  have 2: "upd_cc sp (\<lambda>s. s\<lparr>usecount := szsub (usecount s) 1\<rparr>) ?c1 = Inr (put_back sp x c)"
    using assms(2) by (simp add: upd_cc_eq put_back_def) (simp add: cc_spans_def)
  show ?thesis using assms(1,3) 1 2 by (simp add: release_obj_def set_NEXT_OBJ_def)
qed

lemma release_loop_prefix:
  assumes "chain (cc_mem c) p xs q" "distinct xs" "objs_of c sp xs" "sp \<noteq> 0"
    "length xs < usecount (cc_spans c sp)" "usecount (cc_spans c sp) < size_mod"
  shows "\<exists>c'. (\<forall>f. release_loop (length xs + f) bk hp p c = release_loop f bk hp q c') \<and>
    cc_page c' = (cc_page c)\<lparr>pc_spans := (cc_spans c)(sp := (cc_spans c sp)
      \<lparr>objlist := last (objlist (cc_spans c sp) # xs), usecount := usecount (cc_spans c sp) - length xs\<rparr>)\<rparr> \<and>
    spanlist c' = spanlist c \<and> (\<forall>a. a \<notin> set xs \<longrightarrow> cc_mem c' a = cc_mem c a) \<and>
    (\<forall>ys. chain (cc_mem c) (objlist (cc_spans c sp)) ys 0 \<longrightarrow> set xs \<inter> set ys = {} \<longrightarrow>
       chain (cc_mem c') (objlist (cc_spans c' sp)) (rev xs @ ys) 0)"
  using assms
proof (induction xs arbitrary: p c)
  case Nil
  then show ?case by (intro exI [of _ c]) (simp add: cc_spans_def)
next
  case (Cons x xs)
  let ?c1 = "put_back sp x c"
  have x: "p = x" "x \<noteq> 0" "chain (cc_mem c) (cc_mem c x) xs q" "x \<notin> set xs" using Cons.prems(1,2) by auto
  have u: "szsub (usecount (cc_spans c sp)) 1 = usecount (cc_spans c sp) - 1"
    using Cons.prems(5,6) by (simp add: szsub_exact)
  have mo: "map_object_to_Span x (cc_page c) = Inr sp"
    using map_object_ok [OF Cons.prems(3) _ Cons.prems(4)] by simp
  have "release_obj bk hp x c = Inr ?c1"
    using release_obj_eq [OF mo Cons.prems(4) x(2)] u Cons.prems(5) by simp
  then have step: "release_loop (Suc f) bk hp x c = release_loop f bk hp (cc_mem c x) ?c1" for f
    using x(2) by (simp add: NEXT_OBJ_def)
  have ch: "chain (cc_mem ?c1) (cc_mem c x) xs q" using x(3,4) by simp
  have "\<exists>c'. (\<forall>f. release_loop (length xs + f) bk hp (cc_mem c x) ?c1 = release_loop f bk hp q c') \<and>
    cc_page c' = (cc_page ?c1)\<lparr>pc_spans := (cc_spans ?c1)(sp := (cc_spans ?c1 sp)
      \<lparr>objlist := last (objlist (cc_spans ?c1 sp) # xs), usecount := usecount (cc_spans ?c1 sp) - length xs\<rparr>)\<rparr> \<and>
    spanlist c' = spanlist ?c1 \<and> (\<forall>a. a \<notin> set xs \<longrightarrow> cc_mem c' a = cc_mem ?c1 a) \<and>
    (\<forall>ys. chain (cc_mem ?c1) (objlist (cc_spans ?c1 sp)) ys 0 \<longrightarrow> set xs \<inter> set ys = {} \<longrightarrow>
       chain (cc_mem c') (objlist (cc_spans c' sp)) (rev xs @ ys) 0)"
    by (rule Cons.IH [OF ch]) (use Cons.prems x u in \<open>simp_all add: objs_of_def\<close>)
  then obtain c' where c': "\<And>f. release_loop (length xs + f) bk hp (cc_mem c x) ?c1 = release_loop f bk hp q c'"
    "cc_page c' = (cc_page ?c1)\<lparr>pc_spans := (cc_spans ?c1)(sp := (cc_spans ?c1 sp)
      \<lparr>objlist := last (objlist (cc_spans ?c1 sp) # xs), usecount := usecount (cc_spans ?c1 sp) - length xs\<rparr>)\<rparr>"
    "spanlist c' = spanlist c" "\<And>a. a \<notin> set xs \<Longrightarrow> cc_mem c' a = cc_mem ?c1 a"
    "\<And>ys. chain (cc_mem ?c1) x ys 0 \<Longrightarrow> set xs \<inter> set ys = {} \<Longrightarrow>
       chain (cc_mem c') (objlist (cc_spans c' sp)) (rev xs @ ys) 0"
    by auto
  have "chain (cc_mem c') (objlist (cc_spans c' sp)) (rev (x # xs) @ ys) 0"
    if ys: "chain (cc_mem c) (objlist (cc_spans c sp)) ys 0" "set (x # xs) \<inter> set ys = {}" for ys
  proof -
    have "chain (cc_mem ?c1) x (x # ys) 0" using ys x(2) by simp
    moreover have "set xs \<inter> set (x # ys) = {}" using ys(2) x(4) by auto
    ultimately show ?thesis using c'(5) by fastforce
  qed
  moreover have "cc_page c' = (cc_page c)\<lparr>pc_spans := (cc_spans c)(sp := (cc_spans c sp)
      \<lparr>objlist := last (objlist (cc_spans c sp) # x # xs), usecount := usecount (cc_spans c sp) - length (x # xs)\<rparr>)\<rparr>"
    using c'(2) u by simp
  moreover have "release_loop (length (x # xs) + f) bk hp p c = release_loop f bk hp q c'" for f
    using step [of "length xs + f"] c'(1) x(1) by (simp del: release_loop.simps)
  moreover have "cc_mem c' a = cc_mem c a" if "a \<notin> set (x # xs)" for a using c'(4) that by simp
  ultimately show ?case using c'(3) by blast
qed

text \<open>What clients may change on spans without touching the page cache.\<close>

lemma pc_inv_client:
  assumes inv: "pc_inv brk q fr us ex"
    and h: "\<And>p. pageid (h p) = pageid (pc_spans q p) \<and> npage (h p) = npage (pc_spans q p)"
    and l: "\<And>p. p \<in> set (nodes (pagelist q) fr) \<Longrightarrow>
      nxt (h p) = nxt (pc_spans q p) \<and> prv (h p) = prv (pc_spans q p) \<and> isUse (h p) = isUse (pc_spans q p) \<and>
      usecount (h p) = usecount (pc_spans q p)"
  shows "pc_inv brk (q\<lparr>pc_spans := h\<rparr>) fr us ex"
proof -
  have st: "pc_st brk q fr us ex {}" using inv by (simp add: pc_inv_def)
  have "pc_st brk (q\<lparr>pc_spans := h\<rparr>) fr us ex {}"
  proof (rule pc_stI)
    show "links_ok (pc_spans (q\<lparr>pc_spans := h\<rparr>)) (pagelist (q\<lparr>pc_spans := h\<rparr>)) fr"
      using links_ok_cong [OF pc_stD(1) [OF st], of h] l by (simp add: same_links_def)
    show "objs_ok brk (q\<lparr>pc_spans := h\<rparr>) (nodes (pagelist (q\<lparr>pc_spans := h\<rparr>)) fr @ us @ ex)"
      using objs_ok_spans [OF pc_stD(3) [OF st], of h] h by simp
    show "geo (pc_spans (q\<lparr>pc_spans := h\<rparr>)) (id_span_map (q\<lparr>pc_spans := h\<rparr>)) (frees fr \<union> set us) {}"
      using pc_stD(4) [OF st] geo_cong [of "frees fr \<union> set us" h "pc_spans q"] h by simp
  qed (use pc_stD(2,5) [OF st] h in simp_all)
  moreover have "idle (h p)" if "p \<in> frees fr" for p
    using that frees_nodes [of fr "pagelist q"] l [of p] inv by (auto simp: pc_inv_def)
  ultimately show ?thesis by (simp add: pc_inv_def)
qed

text \<open>The last object of a span: the span leaves the bucket and goes back to the page cache.\<close>

lemma release_last:
  assumes inv: "pc_inv brk (cc_page c) fr (sp # us) ex" and used: "\<forall>p\<in>set us. isUse (cc_spans c p)"
    and bucket: "sl_rep (cc_spans c) hp (as @ sp # bs)" "set (hp # as @ bs) \<inter> set (nodes (pagelist (cc_page c)) fr) = {}"
    and x: "map_object_to_Span x (cc_page c) = Inr sp" "x \<noteq> 0" "usecount (cc_spans c sp) = 1"
  shows "\<exists>c' fr' h. release_obj bk hp x c = Inr c' \<and> pc_inv brk (cc_page c') fr' us ex \<and> sp \<in> frees fr' \<and>
    all_pages (cc_spans c') (frees fr' \<union> set us) = all_pages (cc_spans c) (frees fr \<union> set (sp # us)) \<and>
    cc_mem c' = (cc_mem c)(x := objlist (cc_spans c sp)) \<and> spanlist c' = spanlist c \<and>
    sl_rep h hp (as @ bs) \<and> same_data (cc_spans (put_back sp x c)) h \<and>
    (\<forall>p. p \<notin> set (hp # as @ bs) \<longrightarrow> h p = cc_spans (put_back sp x c) p) \<and>
    (\<forall>p\<in>set (us @ ex). p \<noteq> sp \<longrightarrow> cc_spans c' p = h p) \<and>
    (\<forall>p\<in>set us. \<forall>k\<in>pages (cc_spans c p).
       get_span k (id_span_map (cc_page c')) = get_span k (id_span_map (cc_page c)))"
proof -
  let ?c1 = "put_back sp x c" and ?h1 = "cc_spans (put_back sp x c)"
  let ?N = "set (nodes (pagelist (cc_page c)) fr)"
  have sp: "sp \<noteq> 0" "sp \<noteq> hp" using sl_rep_next [OF bucket(1)] by auto
  have st: "pc_st brk (cc_page c) fr (sp # us) ex {}" using inv by (simp add: pc_inv_def)
  have spN: "sp \<notin> ?N" "sp \<notin> set us" using pc_stD(6) [OF st] by auto
  have "sl_rep ?h1 hp (as @ sp # bs)"
    using bucket(1) sl_rep_cong [of "cc_spans c" ?h1 hp "as @ sp # bs"] by (simp add: same_links_def)
  from sl_erase_ok [OF this] obtain h2 where h2: "sl_erase hp sp ?h1 = Inr h2" "sl_rep h2 hp (as @ bs)"
      "\<forall>p. p \<notin> set (hp # as @ bs) \<longrightarrow> h2 p = ?h1 p"
    by blast
  have d2: "same_data ?h1 h2" by (rule sl_erase_data [OF h2(1)])
  define h3 where "h3 = h2(sp := (h2 sp)\<lparr>objlist := 0, nxt := 0, prv := 0\<rparr>)"
  have data: "pageid (h3 p) = pageid (cc_spans c p)" "npage (h3 p) = npage (cc_spans c p)"
      "isUse (h3 p) = isUse (cc_spans c p)" for p
    using d2 by (simp_all add: h3_def same_data_def)
  have keep: "h3 p = cc_spans c p" if "p \<in> ?N" for p
  proof -
    have "p \<notin> set (hp # as @ bs)" "p \<noteq> sp" using that bucket(2) spN(1) by auto
    then show ?thesis using h2(3) by (simp add: h3_def)
  qed
  define q where "q = (cc_page c)\<lparr>pc_spans := h3\<rparr>"
  have "pc_inv brk q fr (sp # us) ex"
    unfolding q_def using data keep by (intro pc_inv_client [OF inv]) (simp_all add: cc_spans_def)
  moreover have "\<forall>p\<in>set us. isUse (pc_spans q p)" using used data(3) by (simp add: q_def)
  moreover have u0: "usecount (?h1 sp) = 0" using x(3) by (simp add: szsub_exact size_mod_def)
  then have "usecount (pc_spans q sp) = 0" using d2 by (simp add: q_def h3_def same_data_def)
  ultimately obtain q' fr' where q': "relase_to_PageCache bk sp q = Inr q'" "pc_inv brk q' fr' us ex" "sp \<in> frees fr'"
      "all_pages (pc_spans q') (frees fr' \<union> set us) = all_pages (pc_spans q) (frees fr \<union> set (sp # us))"
      "\<forall>p\<in>set (us @ ex). pc_spans q' p = pc_spans q p"
      "\<forall>p\<in>set us. \<forall>k\<in>pages (pc_spans q p). get_span k (id_span_map q') = get_span k (id_span_map q)"
    using release_ok [of brk q fr sp us ex bk] by blast
  have "upd_cc sp (\<lambda>s. s\<lparr>objlist := 0, nxt := 0, prv := 0\<rparr>) (?c1\<lparr>cc_page := (cc_page ?c1)\<lparr>pc_spans := h2\<rparr>\<rparr>)
      = Inr (?c1\<lparr>cc_page := q\<rparr>)"
    using sp(1) by (simp add: upd_cc_eq) (simp add: cc_spans_def put_back_def q_def h3_def)
  then have "release_obj bk hp x c = Inr (?c1\<lparr>cc_page := q'\<rparr>)"
    using release_obj_eq [OF x(1) sp(1) x(2)] h2(1) q'(1) u0 by simp
  moreover have "all_pages (pc_spans q) S = all_pages (cc_spans c) S" for S
    by (simp add: all_pages_def pages_def data q_def)
  moreover have "pages (pc_spans q p) = pages (cc_spans c p)" for p by (simp add: pages_def data q_def)
  moreover have "pc_spans q' p = h2 p" if "p \<in> set (us @ ex)" "p \<noteq> sp" for p
    using q'(5) that by (simp add: q_def h3_def)
  ultimately show ?thesis using q' h2(2,3) d2
    by (intro exI [of _ "?c1\<lparr>cc_page := q'\<rparr>"] exI [of _ fr'] exI [of _ h2])
      (simp add: q_def, simp add: cc_spans_def)
qed

section \<open>A concrete cache\<close>

text \<open>
  A head node at 64 for every bucket, and in it the span at 4096, which is page 3; \<open>ol\<close> is its free list and
  \<open>u\<close> the number of its objects in use. The page cache has a head node at 128 for every bucket, and the span
  at 8192, page 4, in it.
\<close>

definition demo_node :: span where
  "demo_node = \<lparr>pageid = 0, npage = 0, nxt = 0, prv = 0, objlist = 0, objsize = 0, usecount = 0, isUse = False\<rparr>"

definition demo_spans :: "addr \<Rightarrow> nat \<Rightarrow> spans" where
  "demo_spans ol u =
     (\<lambda>_. demo_node)(64 := demo_node\<lparr>nxt := 4096, prv := 4096\<rparr>,
       4096 := demo_node\<lparr>pageid := 3, npage := 1, nxt := 64, prv := 64, objlist := ol, objsize := 16, usecount := u, isUse := True\<rparr>,
       128 := demo_node\<lparr>nxt := 8192, prv := 8192\<rparr>,
       8192 := demo_node\<lparr>pageid := 4, npage := 1, nxt := 128, prv := 128\<rparr>)"

definition demo_central :: "addr \<Rightarrow> nat \<Rightarrow> heap \<Rightarrow> nat central_cache" where
  "demo_central ol u m = \<lparr>cc_mem = m, spanlist = (\<lambda>_. 64), cc_page =
     \<lparr>pc_spans = demo_spans ol u, pagelist = (\<lambda>_. 128), spanPool = objectPool_init,
      id_span_map = \<lparr>root = [0 \<mapsto> [0 \<mapsto> (\<lambda>_. 0)(3 := 4096)]], bytes_used = 0\<rparr>, pc_os = 65536\<rparr>\<rparr>"

definition demo_mem :: heap where
  "demo_mem = (\<lambda>_. 0)(24576 := 24592, 24592 := 24608)"

lemma demo_bucket: "sl_rep (cc_spans (demo_central ol u m)) 64 ([] @ 4096 # [])"
  by (simp add: sl_rep_def cc_spans_def demo_central_def demo_spans_def)

lemma demo_head: "bucket_head 16 (demo_central ol u m) = Inr 64"
  by (simp add: bucket_head_def index_def index_shift_def demo_central_def NFREELIST_def)

lemma demo_page:
  "get_span 3 (id_span_map (cc_page (demo_central ol u m))) = 4096"
  by (simp add: demo_central_def get_span_def pm_consts idx1_def idx2_def idx3_def)

lemma demo_objs: "objs_of (demo_central ol u m) 4096 [24576, 24592]"
  using demo_page [of ol u m] by (simp add: objs_of_def PAGE_SIZE_def)

lemma demo_new_Span:
  "\<exists>q. new_Span (Suc f) sbrk 1 (cc_page (demo_central 0 u m)) = Inr (8192, q) \<and> sl_rep (pc_spans q) 64 [4096] \<and>
    pageid (pc_spans q 8192) = 4 \<and> npage (pc_spans q 8192) = 1"
  by (simp add: NPAGES_def demo_central_def demo_spans_def demo_node_def sl_empty_def
      deref_span_def new_Span_exact_def pop_page_def pop_front_def sl_erase_def upd_span_def Let_def
      set_page_def set_span_def pm_consts idx1_def idx2_def idx3_def sl_rep_def)

section \<open>Properties\<close>

text \<open>
  C34: when no span of a bucket has a free object, \<^verbatim>\<open>get_one_Span\<close> puts the span it gets from the page cache
  at the front of the bucket, marked as used and with its object size, and links its memory into a chain
  of objects, one every \<open>sz\<close> bytes. All the objects lie inside the span exactly if the object size divides the
  size of the span: otherwise the last object reaches into the memory behind it.
\<close>

theorem get_one_Span_carves:
  assumes "sl_rep (cc_spans c) hp bs" "\<forall>x\<in>set bs. objlist (cc_spans c x) = 0" "length bs < fuel"
    "num_move_page sz = Inr k" "new_Span 2 sbrk (unat k) (cc_page c) = Inr (sp, q)"
    "sl_rep (pc_spans q) hp bs" "sp \<noteq> 0" "sp \<notin> set (hp # bs)"
    "0 < pageid (pc_spans q sp)" "0 < npage (pc_spans q sp)"
    "(pageid (pc_spans q sp) + npage (pc_spans q sp)) * PAGE_SIZE < size_mod" "0 < unat sz"
  defines "start \<equiv> pageid (pc_spans q sp) * PAGE_SIZE" and "bytes \<equiv> npage (pc_spans q sp) * PAGE_SIZE"
  shows "\<exists>c' xs. get_one_Span fuel sbrk hp sz c = Inr (sp, c') \<and>
    sl_rep (cc_spans c') hp (sp # bs) \<and> isUse (cc_spans c' sp) \<and> objsize (cc_spans c' sp) = unat sz \<and>
    chain (cc_mem c') (objlist (cc_spans c' sp)) xs 0 \<and> xs = carved (unat sz) start (length xs) \<and>
    length xs = ceil_div bytes (unat sz) \<and>
    ((\<forall>x\<in>set xs. x + unat sz \<le> start + bytes) \<longleftrightarrow> unat sz dvd bytes)"
proof -
  let ?xs = "carved (unat sz) start (ceil_div bytes (unat sz))"
  have "0 < bytes" using assms(10) by (simp add: bytes_def PAGE_SIZE_def)
  then show ?thesis
    using get_one_Span_new [OF assms(1-12)] carved_inside [OF assms(12), of bytes start]
    unfolding start_def [symmetric] bytes_def [symmetric]
    by (metis carved_def length_map length_upt minus_nat.diff_0)
qed

theorem get_one_Span_carves_witness:
  "\<exists>c' xs. get_one_Span 2 demo_sbrk 64 24 (demo_central 0 1 demo_mem) = Inr (8192, c') \<and>
    chain (cc_mem c') (objlist (cc_spans c' 8192)) xs 0 \<and> length xs = 342 \<and>
    \<not> (\<forall>x\<in>set xs. x + 24 \<le> 4 * PAGE_SIZE + PAGE_SIZE)"
proof -
  let ?c = "demo_central 0 1 demo_mem"
  obtain q where q: "new_Span 2 demo_sbrk (unat (1 :: word64)) (cc_page ?c) = Inr (8192, q)"
      "sl_rep (pc_spans q) 64 [4096]" "pageid (pc_spans q 8192) = 4" "npage (pc_spans q 8192) = 1"
    using demo_new_Span [of 1 demo_sbrk 1 demo_mem] unfolding Suc_1 by auto
  have b: "sl_rep (cc_spans ?c) 64 [4096]" using demo_bucket by simp
  have f: "\<forall>x\<in>set [4096]. objlist (cc_spans ?c x) = 0"
    by (simp add: cc_spans_def demo_central_def demo_spans_def demo_node_def)
  have k: "num_move_page 24 = Inr 1"
    by (simp add: num_move_page_def num_move_size_def MAXBYTES_def PAGE_SHIFT_def)
  show ?thesis
    using get_one_Span_carves [OF b f _ k q(1,2), of 2] q(3,4)
    by (auto simp: PAGE_SIZE_def size_mod_def ceil_div_def)
qed

text \<open>
  \<^verbatim>\<open>fetch_range_obj\<close> takes objects from the first span of the bucket that has any: the first \<open>Num\<close> of
  its free objects, or all of them if there are fewer. They are returned as a chain that ends in a
  null pointer, the rest stays with the span, which counts the objects taken.
\<close>

theorem fetch_takes_free_objects:
  assumes "bucket_head sz c = Inr hp" "sl_rep (cc_spans c) hp (as @ sp # bs)"
    "\<forall>x\<in>set as. objlist (cc_spans c x) = 0" "length as < fuel"
    "chain (cc_mem c) (objlist (cc_spans c sp)) xs 0" "distinct xs" "xs \<noteq> []"
    "0 < Num" "Num < size_mod" "usecount (cc_spans c sp) + length xs < size_mod"
  defines "n \<equiv> min Num (length xs)"
  shows "\<exists>c'. fetch_range_obj fuel sbrk Num sz c = Inr (hd xs, xs ! (n - 1), n, c') \<and>
    chain (cc_mem c') (hd xs) (take n xs) 0 \<and>
    chain (cc_mem c') (objlist (cc_spans c' sp)) (drop n xs) 0 \<and>
    usecount (cc_spans c' sp) = usecount (cc_spans c sp) + n \<and>
    cc_spans c' = (cc_spans c)(sp := cc_spans c' sp) \<and>
    (\<forall>a. a \<notin> set xs \<longrightarrow> cc_mem c' a = cc_mem c a)"
proof -
  have "objlist (cc_spans c sp) \<noteq> 0" "sp \<noteq> 0"
    using assms(5,7) chain_null_iff sl_rep_next(2) [OF assms(2)] by auto
  with get_one_Span_hit [OF assms(2,3) _ assms(4)]
  have "get_one_Span fuel sbrk hp sz c = Inr (sp, c)" "sp \<noteq> 0" by auto
  from fetch_ok [OF assms(1) this assms(5-10)] show ?thesis unfolding n_def by blast
qed

theorem fetch_takes_free_objects_witness:
  "\<exists>c'. fetch_range_obj 1 demo_sbrk 2 16 (demo_central 24576 0 demo_mem) = Inr (24576, 24592, 2, c') \<and>
    chain (cc_mem c') 24576 [24576, 24592] 0 \<and> chain (cc_mem c') (objlist (cc_spans c' 4096)) [24608] 0 \<and>
    usecount (cc_spans c' 4096) = 2"
proof -
  let ?c = "demo_central 24576 0 demo_mem"
  have ol: "chain (cc_mem ?c) (objlist (cc_spans ?c 4096)) [24576, 24592, 24608] 0" "usecount (cc_spans ?c 4096) = 0"
    by (simp_all add: cc_spans_def demo_central_def demo_spans_def demo_node_def demo_mem_def)
  show ?thesis
    using fetch_takes_free_objects [OF demo_head demo_bucket _ _ ol(1), of 1 2 demo_sbrk] ol(2)
    by (auto simp: size_mod_def min_def simp flip: numeral_2_eq_2)
qed

text \<open>
  Giving fetched objects back restores the span, as long as some other object of it is still in
  use and the page map leads from each object to the span: \<^verbatim>\<open>release_list_to_Spans\<close> returns, the free
  list has the same objects again, the fetched ones in reverse, and the count is the old one.
\<close>

theorem fetch_release_roundtrip:
  assumes "bucket_head sz c = Inr hp" "sl_rep (cc_spans c) hp (as @ sp # bs)"
    "\<forall>x\<in>set as. objlist (cc_spans c x) = 0" "length as < fuel"
    "chain (cc_mem c) (objlist (cc_spans c sp)) xs 0" "distinct xs" "xs \<noteq> []"
    "0 < Num" "Num < size_mod" "usecount (cc_spans c sp) + length xs < size_mod"
    "objs_of c sp (take Num xs)" "0 < usecount (cc_spans c sp)" "length (take Num xs) < fuel'"
  shows "\<exists>start e n c1 c2. fetch_range_obj fuel sbrk Num sz c = Inr (start, e, n, c1) \<and>
    release_list_to_Spans fuel' bk start sz c1 = Inr c2 \<and>
    chain (cc_mem c2) (objlist (cc_spans c2 sp)) (rev (take Num xs) @ drop Num xs) 0 \<and>
    usecount (cc_spans c2 sp) = usecount (cc_spans c sp)"
proof -
  let ?n = "min Num (length xs)"
  have n: "take ?n xs = take Num xs" "drop ?n xs = drop Num xs" by (simp_all add: min_def)
  have sp: "sp \<noteq> 0" "objlist (cc_spans c sp) \<noteq> 0"
    using sl_rep_next(2) [OF assms(2)] assms(5,7) chain_null_iff by auto
  have g: "get_one_Span fuel sbrk hp sz c = Inr (sp, c)" using get_one_Span_hit [OF assms(2,3) sp(2) assms(4)] .
  obtain c1 where c1: "fetch_range_obj fuel sbrk Num sz c = Inr (hd xs, xs ! (?n - 1), ?n, c1)"
      "chain (cc_mem c1) (hd xs) (take Num xs) 0" "chain (cc_mem c1) (objlist (cc_spans c1 sp)) (drop Num xs) 0"
      "usecount (cc_spans c1 sp) = usecount (cc_spans c sp) + ?n"
      "id_span_map (cc_page c1) = id_span_map (cc_page c)" "spanlist c1 = spanlist c"
    using fetch_ok [OF assms(1) g sp(1) assms(5-10)] unfolding n by blast
  have o1: "objs_of c1 sp (take Num xs)" using assms(11) c1(5) by (simp add: objs_of_def)
  have u: "length (take Num xs) < usecount (cc_spans c1 sp)" "usecount (cc_spans c1 sp) < size_mod"
    using c1(4) assms(10,12) by auto
  have d: "distinct (take Num xs)" "set (take Num xs) \<inter> set (drop Num xs) = {}"
    using assms(6) by (simp_all add: set_take_disj_set_drop_if_distinct)
  obtain c2 where c2: "\<And>f. release_loop (length (take Num xs) + f) bk hp (hd xs) c1 = release_loop f bk hp 0 c2"
      "chain (cc_mem c2) (objlist (cc_spans c2 sp)) (rev (take Num xs) @ drop Num xs) 0"
      "cc_page c2 = (cc_page c1)\<lparr>pc_spans := (cc_spans c1)(sp := (cc_spans c1 sp)
        \<lparr>objlist := last (objlist (cc_spans c1 sp) # take Num xs),
          usecount := usecount (cc_spans c1 sp) - length (take Num xs)\<rparr>)\<rparr>"
    using release_loop_prefix [OF c1(2) d(1) o1 sp(1) u] c1(3) d(2) by blast
  have use: "usecount (cc_spans c2 sp) = usecount (cc_spans c sp)"
    using c2(3) c1(4) by (simp add: cc_spans_def)
  obtain f where "fuel' = length (take Num xs) + Suc f"
    using assms(13) less_iff_Suc_add by auto
  moreover have "release_loop (Suc f) bk hp 0 c2 = Inr c2" by simp
  moreover have "bucket_head sz c1 = Inr hp" using assms(1) unfolding bucket_head_def c1(6) .
  ultimately have "release_list_to_Spans fuel' bk (hd xs) sz c1 = Inr c2"
    using c2(1) by (simp only: release_list_to_Spans_def bindR_simps)
  then show ?thesis using c1(1) c2(2) use by blast
qed

theorem fetch_release_roundtrip_witness:
  "\<exists>start e n c1 c2. fetch_range_obj 1 demo_sbrk 2 16 (demo_central 24576 5 demo_mem) = Inr (start, e, n, c1) \<and>
    release_list_to_Spans 3 (\<lambda>_. id) start 16 c1 = Inr c2 \<and>
    chain (cc_mem c2) (objlist (cc_spans c2 4096)) [24592, 24576, 24608] 0 \<and> usecount (cc_spans c2 4096) = 5"
proof -
  let ?c = "demo_central 24576 5 demo_mem"
  have ol: "chain (cc_mem ?c) (objlist (cc_spans ?c 4096)) [24576, 24592, 24608] 0" "usecount (cc_spans ?c 4096) = 5"
    by (simp_all add: cc_spans_def demo_central_def demo_spans_def demo_node_def demo_mem_def)
  show ?thesis
    using fetch_release_roundtrip [OF demo_head demo_bucket _ _ ol(1), of 1 2 3 demo_sbrk "\<lambda>_. id"]
      ol(2) demo_objs [of 24576 5 demo_mem]
    by (auto simp: size_mod_def min_def)
qed


text \<open>A central cache on top of the page cache of \<open>demo_reach_one\<close>, with one span and one object of it in use.\<close>

lemma demo_one_span:
  obtains c fr sp hp x where "pc_inv Suc (cc_page (c :: nat central_cache)) fr [sp] []" "bucket_head 8 c = Inr hp"
    "sl_rep (cc_spans c) hp [sp]" "hp \<notin> set (nodes (pagelist (cc_page c)) fr)"
    "chain (cc_mem c) x [x] 0" "objs_of c sp [x]" "usecount (cc_spans c sp) = 1"
proof -
  obtain q sp where r: "pc_reach Suc demo_sbrk (\<lambda>_. id) q [sp]" by (rule demo_reach_one)
  then obtain fr where inv: "pc_inv Suc q fr [sp] []" using pc_reach_inv [OF _ demo_law] by blast
  have st: "pc_st Suc q fr [sp] [] {}" using inv by (simp add: pc_inv_def)
  have sp: "sp \<noteq> 0" "sp \<notin> set (nodes (pagelist q) fr)" using pc_stD(6,7) [OF st] by auto
  obtain hp where hp: "hp \<notin> insert 0 (insert sp (set (nodes (pagelist q) fr)))"
    using ex_new_if_finite [OF infinite_UNIV_nat, of "insert 0 (insert sp (set (nodes (pagelist q) fr)))"] by auto
  define h where "h = (pc_spans q)(hp := (pc_spans q hp)\<lparr>nxt := sp, prv := sp\<rparr>,
    sp := (pc_spans q sp)\<lparr>nxt := hp, prv := hp, usecount := 1\<rparr>)"
  define x where "x = pageid (pc_spans q sp) * PAGE_SIZE + 8"
  define c where "c = \<lparr>cc_mem = \<lambda>_. 0, spanlist = \<lambda>_. hp, cc_page = q\<lparr>pc_spans := h\<rparr>\<rparr>"
  have "pc_inv Suc (q\<lparr>pc_spans := h\<rparr>) fr [sp] []"
    using hp sp by (intro pc_inv_client [OF inv]) (auto simp: h_def)
  moreover have "x div PAGE_SIZE = pageid (pc_spans q sp)" by (simp add: x_def PAGE_SIZE_def)
  then have "objs_of c sp [x]" using pc_inv_pages(4) [OF inv, of sp]
    by (simp add: objs_of_def c_def first_page_def)
  moreover have "bucket_head 8 c = Inr hp"
    by (simp add: bucket_head_def index_def index_shift_def c_def NFREELIST_def)
  moreover have "sl_rep (cc_spans c) hp [sp]" "usecount (cc_spans c sp) = 1" "chain (cc_mem c) x [x] 0"
    using hp sp by (auto simp: sl_rep_def cc_spans_def c_def h_def x_def)
  ultimately show thesis using hp by (intro that [of c fr sp hp x]) (simp_all add: c_def)
qed


end
