(* ===== verification/ThreadCache.thy ===== *)
theory ThreadCache
  imports CentralRelease
begin

text \<open>
  The cache of one thread (\<^verbatim>\<open>src/memory/ThreadCache.hpp\<close>, \<^verbatim>\<open>ThreadCache.cc\<close>): a free list for every size class,
  filled from the central cache in batches that grow slowly. The state is the thread's cache with
  the central cache, whose memory the free lists are linked through.
\<close>

section \<open>Definitions\<close>

record thread_cache =
  freelist :: "nat \<Rightarrow> free_list"

definition ThreadCache_init :: thread_cache where
  "ThreadCache_init = \<lparr>freelist = \<lambda>_. FreeList_init\<rparr>"

definition set_list :: "nat \<Rightarrow> free_list \<Rightarrow> thread_cache \<Rightarrow> thread_cache" where
  "set_list i fl tc = tc\<lparr>freelist := (freelist tc)(i := fl)\<rparr>"

text \<open>The position of a size in the array of free lists.\<close>

definition list_index :: "word64 \<Rightarrow> nat result" where
  "list_index sz = bindR (index sz) (\<lambda>i. if unat i < NFREELIST then Inr (unat i) else Inl OutOfBounds)"

definition fetch_from_CentralCache ::
    "nat \<Rightarrow> 'o sbrk \<Rightarrow> nat \<Rightarrow> word64 \<Rightarrow> thread_cache \<times> 'o central_cache \<Rightarrow>
     (addr \<times> thread_cache \<times> 'o central_cache) result" where
  "fetch_from_CentralCache fuel sbrk i sz s =
     (case s of (tc, c) \<Rightarrow>
     bindR (num_move_size sz) (\<lambda>k.
     let fl = freelist tc i;
         Num = min (unat k) (maxSize fl);
         fl1 = (if Num = maxSize fl then fl\<lparr>maxSize := szadd (maxSize fl) 1\<rparr> else fl)
     in
     bindR (fetch_range_obj fuel sbrk Num sz c) (\<lambda>(b, e, actualNum, c1).
     bindR (assertR (actualNum \<ge> 1)) (\<lambda>_.
     if actualNum = 1 then Inr (b, set_list i fl1 tc, c1)
     else
       bindR (NEXT_OBJ (cc_mem c1) b) (\<lambda>x.
       bindR (PushRange x e (szsub actualNum 1) (cc_mem c1, fl1)) (\<lambda>(m, fl2).
       Inr (b, set_list i fl2 tc, c1\<lparr>cc_mem := m\<rparr>)))))))"

definition Allocate ::
    "nat \<Rightarrow> 'o sbrk \<Rightarrow> word64 \<Rightarrow> thread_cache \<times> 'o central_cache \<Rightarrow>
     (addr \<times> thread_cache \<times> 'o central_cache) result" where
  "Allocate fuel sbrk sz s =
     (case s of (tc, c) \<Rightarrow>
     bindR (assertR (sz \<le> MAXBYTES)) (\<lambda>_.
     bindR (round_up sz) (\<lambda>AligSize.
     bindR (list_index AligSize) (\<lambda>i.
     if \<not> fl_empty (freelist tc i) then
       bindR (pop (cc_mem c, freelist tc i)) (\<lambda>(obj, m, fl).
       Inr (obj, set_list i fl tc, c\<lparr>cc_mem := m\<rparr>))
     else fetch_from_CentralCache fuel sbrk i AligSize (tc, c)))))"

definition list_to_long ::
    "nat \<Rightarrow> (addr \<Rightarrow> 'o \<Rightarrow> 'o) \<Rightarrow> nat \<Rightarrow> word64 \<Rightarrow> thread_cache \<times> 'o central_cache \<Rightarrow>
     (thread_cache \<times> 'o central_cache) result" where
  "list_to_long fuel brk i sz s =
     (case s of (tc, c) \<Rightarrow>
     bindR (PopRange (maxSize (freelist tc i)) (cc_mem c, freelist tc i)) (\<lambda>(start, e, m, fl).
     bindR (release_list_to_Spans fuel brk start sz (c\<lparr>cc_mem := m\<rparr>)) (\<lambda>c1.
     Inr (set_list i fl tc, c1))))"

definition deallocate ::
    "nat \<Rightarrow> (addr \<Rightarrow> 'o \<Rightarrow> 'o) \<Rightarrow> addr \<Rightarrow> word64 \<Rightarrow> thread_cache \<times> 'o central_cache \<Rightarrow>
     (thread_cache \<times> 'o central_cache) result" where
  "deallocate fuel brk ptr sz s =
     (case s of (tc, c) \<Rightarrow>
     bindR (assertR (ptr \<noteq> 0)) (\<lambda>_.
     bindR (assertR (sz \<le> MAXBYTES)) (\<lambda>_.
     bindR (list_index sz) (\<lambda>i.
     bindR (push ptr (cc_mem c, freelist tc i)) (\<lambda>(m, fl).
     let s1 = (set_list i fl tc, c\<lparr>cc_mem := m\<rparr>) in
     if maxSize fl < fl_size fl then list_to_long fuel brk i sz s1 else Inr s1)))))"

section \<open>Positions\<close>

lemma set_list_freelist [simp]:
  "freelist (set_list i fl tc) = (freelist tc)(i := fl)"
  by (simp add: set_list_def)

lemma max_bytes: "unat sz \<le> 262144 \<longleftrightarrow> sz \<le> MAXBYTES"
  by (simp add: MAXBYTES_def word_le_nat_alt)

lemma list_index_ok:
  assumes "0 < unat sz" "unat sz \<le> 262144"
  shows "list_index sz = Inr (class_index (unat sz))"
  using index_nat [OF assms] class_index_bound [OF assms] by (auto simp: list_index_def)

lemma round_index_ok:
  assumes "0 < unat sz" "unat sz \<le> 262144"
  obtains al where "round_up sz = Inr al" "unat al = class_size (unat sz)" "0 < unat al" "unat al \<le> 262144"
    "list_index al = Inr (class_index (unat sz))"
proof -
  obtain al where al: "round_up sz = Inr al" "unat al = class_size (unat sz)"
    using round_up_nat [OF assms(2)] by blast
  have b: "0 < unat al" "unat al \<le> 262144"
    using class_size_bounds [OF assms] assms(1) by (simp_all add: al(2))
  show thesis
    using al b list_index_ok [OF b] class_index_class_size [OF assms] by (intro that) simp_all
qed

lemma bucket_head_ok:
  assumes "list_index sz = Inr i"
  shows "bucket_head sz c = Inr (spanlist c i)"
  using assms by (auto simp: list_index_def bucket_head_def bindR_eq_Inr split: if_splits)

section \<open>Allocation\<close>

lemma Allocate_pop:
  assumes sz: "0 < unat sz" "unat sz \<le> 262144" and i: "i = class_index (unat sz)"
    and fl: "fl_rep (cc_mem c, freelist tc i) (x # xs)"
  shows "\<exists>fl'. Allocate fuel sbrk sz (tc, c) = Inr (x, set_list i fl' tc, c) \<and> fl_rep (cc_mem c, fl') xs \<and>
    maxSize fl' = maxSize (freelist tc i)"
proof -
  obtain al where al: "round_up sz = Inr al" "list_index al = Inr i" using round_index_ok [OF sz] i by metis
  obtain s' where s': "pop (cc_mem c, freelist tc i) = Inr (x, s')" "fl_rep s' xs" "fst s' = cc_mem c"
      "maxSize (snd s') = maxSize (freelist tc i)"
    using pop_ok [OF fl] by auto
  have "\<not> fl_empty (freelist tc i)" using fl_empty_iff [OF fl] by simp
  then have "Allocate fuel sbrk sz (tc, c) = Inr (x, set_list i (snd s') tc, c)"
    using sz al s' by (cases s') (simp add: Allocate_def max_bytes)
  then show ?thesis using s' by (cases s') auto
qed

text \<open>The upper limit of a batch.\<close>

definition batch_limit :: "nat \<Rightarrow> nat" where
  "batch_limit n = max 2 (min 512 (262144 div n))"

text \<open>All objects of a batch but the first go into the empty free list.\<close>

lemma push_batch:
  assumes ch: "chain m x (x # ys) 0" "distinct ys" "ys \<noteq> []" "length ys < size_mod" and fl: "fl_rep (m, fl) []"
  shows "\<exists>m' fl'. PushRange (m x) (last ys) (length ys) (m, fl) = Inr (m', fl') \<and> fl_rep (m', fl') ys \<and>
    maxSize fl' = maxSize fl \<and> (\<forall>a. a \<notin> set ys \<longrightarrow> m' a = m a)"
proof -
  obtain us e where us: "ys = us @ [e]" using ch(3) by (cases ys rule: rev_cases) auto
  have "\<exists>s'. PushRange (m x) e (length ys) (m, fl) = Inr s' \<and> fl_rep s' (us @ e # [])"
    using ch by (intro PushRange_ok [OF fl, where q = 0]) (auto simp: us)
  then obtain m' fl' where push: "PushRange (m x) e (length ys) (m, fl) = Inr (m', fl')" "fl_rep (m', fl') ys"
    by (auto simp: us)
  then have "m' = m(e := head fl)" "maxSize fl' = maxSize fl"
    by (auto simp: PushRange_def set_NEXT_OBJ_def split: if_splits)
  with push show ?thesis by (simp add: us)
qed

lemma take_parts:
  assumes "2 \<le> n" "n \<le> length xs" "distinct xs"
  obtains x ys where "take n xs = x # ys" "x = hd xs" "length ys = n - 1" "last ys = xs ! (n - 1)" "distinct ys" "ys \<noteq> []"
    "set ys \<inter> set (drop n xs) = {}"
proof -
  obtain x zs where xz: "xs = x # zs" using assms(1,2) by (cases xs) auto
  have t: "take n xs = x # take (n - 1) zs" "length (take (n - 1) zs) = n - 1"
    using assms(1,2) by (simp_all add: xz take_Cons')
  then have ne: "take (n - 1) zs \<noteq> []" using assms(1) by auto
  have "last (take (n - 1) zs) = take (n - 1) zs ! (n - 2)"
    using ne t(2) by (simp add: last_conv_nth numeral_2_eq_2)
  also have "\<dots> = xs ! (n - 1)" using assms(1) by (simp add: xz nth_Cons' numeral_2_eq_2)
  finally have l: "last (take (n - 1) zs) = xs ! (n - 1)" .
  have "set (take n xs) \<inter> set (drop n xs) = {}"
    using assms(3) by (simp add: set_take_disj_set_drop_if_distinct)
  then have "set (take (n - 1) zs) \<inter> set (drop n xs) = {}" unfolding t(1) by auto
  then show thesis using that [OF t(1)] t(2) ne l assms(3) by (simp add: xz)
qed

lemma Allocate_fetch:
  assumes sz: "0 < unat sz" "unat sz \<le> 262144" and i: "i = class_index (unat sz)"
    and fl: "fl_rep (cc_mem c, freelist tc i) []" "0 < maxSize (freelist tc i)" "maxSize (freelist tc i) + 1 < size_mod"
    and bucket: "sl_rep (cc_spans c) (spanlist c i) (as @ sp # bs)" "\<forall>x\<in>set as. objlist (cc_spans c x) = 0"
      "length as < fuel"
    and xs: "chain (cc_mem c) (objlist (cc_spans c sp)) xs 0" "distinct xs" "xs \<noteq> []"
      "usecount (cc_spans c sp) + length xs < size_mod"
  defines "M \<equiv> maxSize (freelist tc i)" and "L \<equiv> batch_limit (class_size (unat sz))"
  defines "n \<equiv> min (min L M) (length xs)"
  shows "\<exists>fl' c'. Allocate fuel sbrk sz (tc, c) = Inr (hd xs, set_list i fl' tc, c') \<and>
    fl_rep (cc_mem c', fl') (tl (take n xs)) \<and> maxSize fl' = (if M \<le> L then M + 1 else M) \<and>
    chain (cc_mem c') (objlist (cc_spans c' sp)) (drop n xs) 0 \<and>
    usecount (cc_spans c' sp) = usecount (cc_spans c sp) + n"
proof -
  obtain al where al: "round_up sz = Inr al" "unat al = class_size (unat sz)" "0 < unat al" "list_index al = Inr i"
    using round_index_ok [OF sz] i by metis
  obtain k where k: "num_move_size al = Inr k" "unat k = L"
    using num_move_size_nat [OF al(3)] al(2) by (auto simp: L_def batch_limit_def)
  have sp: "sp \<noteq> 0" "objlist (cc_spans c sp) \<noteq> 0"
    using sl_rep_next(2) [OF bucket(1)] xs(1,3) chain_null_iff by auto
  have Num: "0 < min L M" "min L M < size_mod"
    using fl(2,3) by (auto simp: M_def L_def batch_limit_def min_def)
  obtain c1 where c1: "fetch_range_obj fuel sbrk (min L M) al c = Inr (hd xs, xs ! (n - 1), n, c1)"
      "chain (cc_mem c1) (hd xs) (take n xs) 0" "chain (cc_mem c1) (objlist (cc_spans c1 sp)) (drop n xs) 0"
      "usecount (cc_spans c1 sp) = usecount (cc_spans c sp) + n"
    using fetch_ok [OF bucket_head_ok [OF al(4)] get_one_Span_hit [OF bucket(1,2) sp(2) bucket(3)] sp(1) xs(1-3) Num xs(4)]
    unfolding n_def by blast
  have n1: "1 \<le> n" using Num(1) xs(3) by (cases xs) (auto simp: n_def)
  define fl1 where "fl1 = (if min L M = M then (freelist tc i)\<lparr>maxSize := M + 1\<rparr> else freelist tc i)"
  have M1: "szadd M 1 = M + 1" using fl(3) by (simp add: szadd_exact M_def)
  have fl1: "fl_rep (m, fl1) []" "maxSize fl1 = (if M \<le> L then M + 1 else M)" for m
    using fl(1) by (auto simp: fl_rep_def fl1_def M_def min_def)
  have e: "\<not> \<not> fl_empty (freelist tc i)" using fl_empty_iff [OF fl(1)] by simp
  have run: "Allocate fuel sbrk sz (tc, c) =
    (if n = 1 then Inr (hd xs, set_list i fl1 tc, c1)
     else bindR (NEXT_OBJ (cc_mem c1) (hd xs)) (\<lambda>x.
       bindR (PushRange x (xs ! (n - 1)) (szsub n 1) (cc_mem c1, fl1)) (\<lambda>(m, fl2).
       Inr (hd xs, set_list i fl2 tc, c1\<lparr>cc_mem := m\<rparr>))))"
    using sz al(1,4) k c1(1) e M1 n1
    by (simp add: Allocate_def max_bytes fetch_from_CentralCache_def Let_def fl1_def M_def [symmetric])
  show ?thesis
  proof (cases "n = 1")
    case True
    then have "tl (take n xs) = []" by (cases xs) auto
    then show ?thesis using run fl1 c1(3,4) True by (intro exI [of _ fl1] exI [of _ c1]) simp
  next
    case False
    then have n2: "2 \<le> n" using n1 by simp
    have nl: "n \<le> length xs" by (simp add: n_def)
    obtain x ys where ys: "take n xs = x # ys" "x = hd xs" "length ys = n - 1" "last ys = xs ! (n - 1)" "distinct ys"
        "ys \<noteq> []" "set ys \<inter> set (drop n xs) = {}"
      by (rule take_parts [OF n2 nl xs(2)])
    have x: "x \<noteq> 0" "chain (cc_mem c1) x (x # ys) 0" using c1(2) by (simp_all add: ys(1))
    have sub: "szsub n 1 = length ys" "length ys < size_mod" using n2 nl Num(2) xs(4) ys(3) by (simp_all add: szsub_exact)
    obtain m fl2 where push: "PushRange (cc_mem c1 x) (last ys) (length ys) (cc_mem c1, fl1) = Inr (m, fl2)"
        "fl_rep (m, fl2) ys" "maxSize fl2 = maxSize fl1" "\<forall>a. a \<notin> set ys \<longrightarrow> m a = cc_mem c1 a"
      using push_batch [OF x(2) ys(5,6) sub(2) fl1(1)] by blast
    have "chain m (objlist (cc_spans c1 sp)) (drop n xs) 0"
      using c1(3) push(4) ys(7) by (subst chain_frame [where m = "cc_mem c1"]) auto
    moreover have "Allocate fuel sbrk sz (tc, c) = Inr (hd xs, set_list i fl2 tc, c1\<lparr>cc_mem := m\<rparr>)"
      using run False push(1) x(1) sub(1) by (simp add: NEXT_OBJ_def ys(2,4))
    ultimately show ?thesis
      using push(2,3) fl1(2) c1(4) ys(1)
      by (intro exI [of _ fl2] exI [of _ "c1\<lparr>cc_mem := m\<rparr>"]) (simp add: cc_spans_def)
  qed
qed

section \<open>Deallocation\<close>

lemma deallocate_push:
  assumes sz: "0 < unat sz" "unat sz \<le> 262144" and i: "i = class_index (unat sz)"
    and fl: "fl_rep (cc_mem c, freelist tc i) xs" "ptr \<noteq> 0" "ptr \<notin> set xs" "Suc (length xs) < size_mod"
  shows "\<exists>fl' m. fl_rep (m, fl') (ptr # xs) \<and> maxSize fl' = maxSize (freelist tc i) \<and>
    m = (cc_mem c)(ptr := head (freelist tc i)) \<and>
    deallocate fuel bk ptr sz (tc, c) =
      (if maxSize (freelist tc i) \<le> length xs
       then list_to_long fuel bk i sz (set_list i fl' tc, c\<lparr>cc_mem := m\<rparr>)
       else Inr (set_list i fl' tc, c\<lparr>cc_mem := m\<rparr>))"
proof -
  obtain m fl' where p: "push ptr (cc_mem c, freelist tc i) = Inr (m, fl')" "fl_rep (m, fl') (ptr # xs)"
      "maxSize fl' = maxSize (freelist tc i)" "m = (cc_mem c)(ptr := head (freelist tc i))"
    using push_ok [OF fl] by auto
  have "fl_size fl' = Suc (length xs)" using p(2) by (simp add: fl_rep_def)
  then show ?thesis
    using sz i fl(2) p list_index_ok [OF sz] by (auto simp: deallocate_def max_bytes Let_def)
qed

lemma free_list_roundtrip:
  assumes "0 < unat sz" "unat sz \<le> 262144" "i = class_index (unat sz)"
    "fl_rep (cc_mem c, freelist tc i) xs" "ptr \<noteq> 0" "ptr \<notin> set xs"
    "length xs < maxSize (freelist tc i)" "maxSize (freelist tc i) < size_mod"
  shows "\<exists>s1 tc' c'. deallocate fuel bk ptr sz (tc, c) = Inr s1 \<and>
    Allocate fuel' sbrk sz s1 = Inr (ptr, tc', c') \<and> tc' = tc \<and>
    (\<forall>a. a \<noteq> ptr \<longrightarrow> cc_mem c' a = cc_mem c a) \<and> cc_page c' = cc_page c"
proof -
  have "Suc (length xs) < size_mod" using assms(7,8) by simp
  from deallocate_push [OF assms(1-6) this, of fuel bk] obtain fl' m where
    d: "fl_rep (m, fl') (ptr # xs)" "maxSize fl' = maxSize (freelist tc i)"
      "m = (cc_mem c)(ptr := head (freelist tc i))"
      "deallocate fuel bk ptr sz (tc, c) = Inr (set_list i fl' tc, c\<lparr>cc_mem := m\<rparr>)"
    using assms(7) by auto
  let ?tc = "set_list i fl' tc" and ?c = "c\<lparr>cc_mem := m\<rparr>"
  have "fl_rep (cc_mem ?c, freelist ?tc i) (ptr # xs)" using d(1) by simp
  from Allocate_pop [OF assms(1-3) this, of fuel' sbrk] obtain fl2 where
    a: "Allocate fuel' sbrk sz (?tc, ?c) = Inr (ptr, set_list i fl2 ?tc, ?c)" "fl_rep (m, fl2) xs"
      "maxSize fl2 = maxSize fl'"
    by auto
  have h: "head fl2 = head (freelist tc i)"
    using a(2) assms(4) chain_unique assms(6) by (cases xs) (auto simp: fl_rep_def)
  have "fl_size fl2 = fl_size (freelist tc i)" using a(2) assms(4) by (simp add: fl_rep_def)
  with h have "fl2 = freelist tc i" using a(3) d(2) by (simp add: free_list.equality)
  then have "set_list i fl2 ?tc = tc" by (simp add: set_list_def fun_upd_idem)
  then show ?thesis using d(3,4) a(1) by auto
qed

text \<open>A full list is not shortened.\<close>

lemma deallocate_full:
  assumes "0 < unat sz" "unat sz \<le> 262144" "i = class_index (unat sz)"
    "fl_rep (cc_mem c, freelist tc i) xs" "ptr \<noteq> 0" "ptr \<notin> set xs" "Suc (length xs) < size_mod"
    "maxSize (freelist tc i) \<le> length xs"
  shows "deallocate fuel bk ptr sz (tc, c) = Inl AssertFailed"
proof -
  from deallocate_push [OF assms(1-7), of fuel bk] obtain fl' m where
    d: "fl_rep (m, fl') (ptr # xs)" "maxSize fl' = maxSize (freelist tc i)"
      "deallocate fuel bk ptr sz (tc, c) = list_to_long fuel bk i sz (set_list i fl' tc, c\<lparr>cc_mem := m\<rparr>)"
    using assms(8) by auto
  have "PopRange (maxSize fl') (m, fl') = Inl AssertFailed"
    using d(1) by (rule PopRange_too_few) (use d(2) assms(8) in simp)
  then show ?thesis using d(3) by (simp add: list_to_long_def)
qed

section \<open>Properties\<close>

text \<open>
  Slow start. A request of up to 256 KiB whose free list is empty is served from the central cache:
  it returns the first free object of the first span that has one, the rest of the batch becomes the
  free list, in order. A batch has as many objects as the list's limit, at most the limit of the size class
  and at most those of the span; the limit of the list grows by one until it has passed that of the class.
\<close>

theorem Allocate_slow_start:
  assumes "0 < unat sz" "unat sz \<le> 262144" "i = class_index (unat sz)"
    "fl_rep (cc_mem c, freelist tc i) []" "0 < maxSize (freelist tc i)" "maxSize (freelist tc i) + 1 < size_mod"
    "sl_rep (cc_spans c) (spanlist c i) (as @ sp # bs)" "\<forall>x\<in>set as. objlist (cc_spans c x) = 0" "length as < fuel"
    "chain (cc_mem c) (objlist (cc_spans c sp)) xs 0" "distinct xs" "xs \<noteq> []"
    "usecount (cc_spans c sp) + length xs < size_mod"
  defines "M \<equiv> maxSize (freelist tc i)" and "L \<equiv> batch_limit (class_size (unat sz))"
  defines "n \<equiv> min (min L M) (length xs)"
  shows "\<exists>tc' c'. Allocate fuel sbrk sz (tc, c) = Inr (hd xs, tc', c') \<and>
    fl_rep (cc_mem c', freelist tc' i) (tl (take n xs)) \<and>
    maxSize (freelist tc' i) = (if M \<le> L then M + 1 else M) \<and>
    (\<forall>j. j \<noteq> i \<longrightarrow> freelist tc' j = freelist tc j) \<and>
    chain (cc_mem c') (objlist (cc_spans c' sp)) (drop n xs) 0 \<and>
    usecount (cc_spans c' sp) = usecount (cc_spans c sp) + n"
proof -
  from Allocate_fetch [OF assms(1-13), of sbrk] obtain fl' c' where
    "Allocate fuel sbrk sz (tc, c) = Inr (hd xs, set_list i fl' tc, c')"
    "fl_rep (cc_mem c', fl') (tl (take n xs))" "maxSize fl' = (if M \<le> L then M + 1 else M)"
    "chain (cc_mem c') (objlist (cc_spans c' sp)) (drop n xs) 0"
    "usecount (cc_spans c' sp) = usecount (cc_spans c sp) + n"
    unfolding M_def L_def n_def by blast
  then show ?thesis by (intro exI [of _ "set_list i fl' tc"] exI [of _ c']) simp
qed

definition demo_tc :: "nat \<Rightarrow> thread_cache" where
  "demo_tc k = \<lparr>freelist = \<lambda>_. \<lparr>head = 0, maxSize = k, fl_size = 0\<rparr>\<rparr>"

lemma demo_tc_empty: "fl_rep (m, freelist (demo_tc k) i) []"
  by (simp add: demo_tc_def fl_rep_def size_mod_def)

lemma demo_class: "class_index (unat (16 :: word64)) = 1" "class_size (unat (16 :: word64)) = 16"
  by (simp_all add: class_defs)

theorem Allocate_slow_start_witness:
  "\<exists>tc' c'. Allocate 1 demo_sbrk 16 (demo_tc 2, demo_central 24576 0 demo_mem) = Inr (24576, tc', c') \<and>
    fl_rep (cc_mem c', freelist tc' 1) [24592] \<and> maxSize (freelist tc' 1) = 3"
proof -
  let ?c = "demo_central 24576 0 demo_mem"
  have ol: "chain (cc_mem ?c) (objlist (cc_spans ?c 4096)) [24576, 24592, 24608] 0" "usecount (cc_spans ?c 4096) = 0"
    by (simp_all add: cc_spans_def demo_central_def demo_spans_def demo_node_def demo_mem_def)
  have sl: "sl_rep (cc_spans ?c) (spanlist ?c 1) ([] @ 4096 # [])"
    using demo_bucket by (simp add: demo_central_def)
  show ?thesis
    using Allocate_slow_start [where sz = 16 and i = 1 and tc = "demo_tc 2" and fuel = 1 and sbrk = demo_sbrk,
        OF _ _ _ demo_tc_empty _ _ sl _ _ ol(1)] ol(2) demo_class
    by (auto simp: demo_tc_def size_mod_def batch_limit_def)
qed

text \<open>
  Freeing an object and allocating again from the same size class returns the same object, and the
  thread cache and the memory of all other objects are as before, as long as the free list holds fewer
  objects than its limit.
\<close>

theorem deallocate_Allocate_roundtrip:
  assumes "0 < unat sz" "unat sz \<le> 262144" "i = class_index (unat sz)"
    "fl_rep (cc_mem c, freelist tc i) xs" "ptr \<noteq> 0" "ptr \<notin> set xs"
    "length xs < maxSize (freelist tc i)" "maxSize (freelist tc i) < size_mod"
  shows "\<exists>s1 tc' c'. deallocate fuel bk ptr sz (tc, c) = Inr s1 \<and>
    Allocate fuel' sbrk sz s1 = Inr (ptr, tc', c') \<and> tc' = tc \<and>
    (\<forall>a. a \<noteq> ptr \<longrightarrow> cc_mem c' a = cc_mem c a) \<and> cc_page c' = cc_page c"
  using free_list_roundtrip [OF assms] .

theorem deallocate_Allocate_roundtrip_witness:
  "\<exists>s1 tc' c'. deallocate 1 (\<lambda>_. id) 24576 16 (demo_tc 1, demo_central 0 1 demo_mem) = Inr s1 \<and>
    Allocate 1 demo_sbrk 16 s1 = Inr (24576, tc', c')"
  using deallocate_Allocate_roundtrip [where sz = 16 and i = 1 and tc = "demo_tc 1" and ptr = 24576,
      OF _ _ _ demo_tc_empty] demo_class
  by (fastforce simp: demo_tc_def size_mod_def)

text \<open>
  A thread cache cannot give memory back. Once a free list holds as many objects as its limit, freeing
  one more object of the class calls \<^verbatim>\<open>list_to_long\<close>, whose \<^verbatim>\<open>PopRange\<close> asserts that it is asked
  for the whole list or more: the program aborts.
\<close>

theorem deallocate_surplus_aborts:
  assumes "0 < unat sz" "unat sz \<le> 262144" "i = class_index (unat sz)"
    "fl_rep (cc_mem c, freelist tc i) xs" "ptr \<noteq> 0" "ptr \<notin> set xs" "Suc (length xs) < size_mod"
    "maxSize (freelist tc i) \<le> length xs"
  shows "deallocate fuel bk ptr sz (tc, c) = Inl AssertFailed"
  using deallocate_full [OF assms] .

theorem deallocate_surplus_aborts_witness:
  "deallocate 5 (\<lambda>_. id) 32 16 (\<lparr>freelist = \<lambda>_. \<lparr>head = 24608, maxSize = 1, fl_size = 1\<rparr>\<rparr>,
     demo_central 0 2 demo_mem) = Inl AssertFailed"
proof -
  let ?tc = "\<lparr>freelist = \<lambda>_. \<lparr>head = 24608, maxSize = 1, fl_size = 1\<rparr>\<rparr>"
  have "fl_rep (cc_mem (demo_central 0 2 demo_mem), freelist ?tc 1) [24608]"
    by (simp add: fl_rep_def demo_central_def demo_mem_def size_mod_def)
  from deallocate_surplus_aborts [where sz = 16 and i = 1, OF _ _ _ this, of 32 5 "\<lambda>_. id"] show ?thesis
    using demo_class by (simp add: size_mod_def)
qed

end
