(* ===== verification/ConcurrentAlloc.thy ===== *)
theory ConcurrentAlloc
  imports ThreadCache
begin

text \<open>
  The allocator as its users see it (\<^verbatim>\<open>src/memory/ConcurrentAlloc.hpp\<close>): \<^verbatim>\<open>ConcurrentAlloc\<close> and
  \<^verbatim>\<open>ConcurrentFree\<close> on top of the three caches. Every thread has a pointer to a cache of its own, made on
  its first allocation from an object pool that all threads share.
\<close>

section \<open>Definitions\<close>

text \<open>208 free lists of three words.\<close>

definition sizeof_ThreadCache :: nat where
  "sizeof_ThreadCache = NFREELIST * 24"

text \<open>
  \<open>tcs\<close> are the thread cache objects by address, \<open>tls_threadcache\<close> the thread-local pointers by thread; the
  central cache with the page cache below it is shared. No thread cache is ever deleted, so that the pool's
  free list stays empty and the constructor is what gives a new object its contents.
\<close>

record 'o allocator =
  central :: "'o central_cache"
  TcPool :: object_pool
  tcs :: "addr \<Rightarrow> thread_cache"
  tls_threadcache :: "nat \<Rightarrow> addr"

definition TcPool_New :: "'o sbrk \<Rightarrow> 'o allocator \<Rightarrow> (addr \<times> 'o allocator) result" where
  "TcPool_New sbrk a =
     bindR (New (\<lambda>_ m. m) sbrk sizeof_ThreadCache (cc_mem (central a), TcPool a) (pc_os (cc_page (central a))))
       (\<lambda>(p, (m, P), os).
          Inr (p, a\<lparr>central := (central a)\<lparr>cc_mem := m, cc_page := (cc_page (central a))\<lparr>pc_os := os\<rparr>\<rparr>,
                    TcPool := P, tcs := (tcs a)(p := ThreadCache_init)\<rparr>))"

text \<open>Requests of more than 256 KiB, which go to the page cache.\<close>

definition alloc_large :: "'o sbrk \<Rightarrow> word64 \<Rightarrow> 'o allocator \<Rightarrow> (addr \<times> 'o allocator) result" where
  "alloc_large sbrk sz a =
     bindR (round_up sz) (\<lambda>AlignSize.
     let K = drop_bit PAGE_SHIFT AlignSize in
     bindR (new_Span 2 sbrk (unat K) (cc_page (central a))) (\<lambda>(sp, q).
     bindR (upd_field sp (\<lambda>s. s\<lparr>objsize := unat sz\<rparr>) q) (\<lambda>q1.
     bindR (deref_span sp (pc_spans q1)) (\<lambda>s.
     Inr (pageid s * PAGE_SIZE mod size_mod, a\<lparr>central := (central a)\<lparr>cc_page := q1\<rparr>\<rparr>)))))"

definition ConcurrentAlloc ::
    "nat \<Rightarrow> 'o sbrk \<Rightarrow> nat \<Rightarrow> word64 \<Rightarrow> 'o allocator \<Rightarrow> (addr \<times> 'o allocator) result" where
  "ConcurrentAlloc fuel sbrk tid sz a =
     (if sz > MAXBYTES then alloc_large sbrk sz a
      else
        bindR (if tls_threadcache a tid = 0
               then bindR (TcPool_New sbrk a) (\<lambda>(p, a1). Inr (a1\<lparr>tls_threadcache := (tls_threadcache a1)(tid := p)\<rparr>))
               else Inr a) (\<lambda>a1.
        let p = tls_threadcache a1 tid in
        if p = 0 then Inl NullDeref
        else
          bindR (Allocate fuel sbrk sz (tcs a1 p, central a1)) (\<lambda>(ptr, tc, c).
          Inr (ptr, a1\<lparr>central := c, tcs := (tcs a1)(p := tc)\<rparr>))))"

definition ConcurrentFree ::
    "nat \<Rightarrow> (addr \<Rightarrow> 'o \<Rightarrow> 'o) \<Rightarrow> nat \<Rightarrow> addr \<Rightarrow> 'o allocator \<Rightarrow> 'o allocator result" where
  "ConcurrentFree fuel brk tid ptr a =
     bindR (map_object_to_Span ptr (cc_page (central a))) (\<lambda>sp.
     let sz = objsize (cc_spans (central a) sp) in
     if sz > unat MAXBYTES then
       bindR (relase_to_PageCache brk sp (cc_page (central a))) (\<lambda>q.
       Inr (a\<lparr>central := (central a)\<lparr>cc_page := q\<rparr>\<rparr>))
     else
       let p = tls_threadcache a tid in
       bindR (assertR (p \<noteq> 0)) (\<lambda>_.
       bindR (deallocate fuel brk ptr (of_nat sz) (tcs a p, central a)) (\<lambda>(tc, c).
       Inr (a\<lparr>central := c, tcs := (tcs a)(p := tc)\<rparr>))))"

section \<open>Threads\<close>

lemma alloc_known_thread:
  assumes "unat sz \<le> 262144" "tls_threadcache a tid = p" "p \<noteq> 0"
    "Allocate fuel sbrk sz (tcs a p, central a) = Inr (ptr, tc, c)"
  shows "ConcurrentAlloc fuel sbrk tid sz a = Inr (ptr, a\<lparr>central := c, tcs := (tcs a)(p := tc)\<rparr>)"
  using assms by (simp add: ConcurrentAlloc_def Let_def max_bytes leD)

lemma free_known_thread:
  assumes "map_object_to_Span ptr (cc_page (central a)) = Inr sp" "objsize (cc_spans (central a) sp) = unat sz"
    "unat sz \<le> 262144" "tls_threadcache a tid = p" "p \<noteq> 0"
  shows "ConcurrentFree fuel bk tid ptr a =
    bindR (deallocate fuel bk ptr sz (tcs a p, central a)) (\<lambda>(tc, c). Inr (a\<lparr>central := c, tcs := (tcs a)(p := tc)\<rparr>))"
  using assms by (simp add: ConcurrentFree_def Let_def MAXBYTES_def)

text \<open>The first allocation of a thread makes its cache, with empty lists of limit one.\<close>

lemma TcPool_New_ok:
  assumes "freeList (TcPool a) = 0" "sbrk_law sbrk brk" "0 < remainBytes (TcPool a) \<longrightarrow> memory (TcPool a) \<noteq> 0"
  shows "\<exists>p P os. p \<noteq> 0 \<and> freeList P = 0 \<and> TcPool_New sbrk a =
    Inr (p, a\<lparr>central := (central a)\<lparr>cc_page := (cc_page (central a))\<lparr>pc_os := os\<rparr>\<rparr>, TcPool := P,
      tcs := (tcs a)(p := ThreadCache_init)\<rparr>)"
proof -
  let ?P = "TcPool a" and ?os = "pc_os (cc_page (central a))"
  have n: "pool_objSize sizeof_ThreadCache = 4992"
    by (simp add: pool_objSize_def sizeof_ThreadCache_def NFREELIST_def)
  obtain os1 where s: "SystemAlloc_sbrk sbrk 16 ?os = Inr (brk ?os, os1)" "0 < brk ?os"
    using SystemAlloc_law [OF assms(2), of 16 ?os] sbrk_lawD(2) [OF assms(2)] by blast
  show ?thesis
  proof (cases "remainBytes ?P < 4992")
    case True
    then show ?thesis using assms(1) s n
      by (intro exI [of _ "brk ?os"] exI [of _ "?P\<lparr>memory := brk ?os + 4992, remainBytes := szsub 131072 4992\<rparr>"]
          exI [of _ os1]) (simp add: TcPool_New_def New_def Let_def)
  next
    case False
    then show ?thesis using assms(1,3) n
      by (intro exI [of _ "memory ?P"] exI [of _ "?P\<lparr>memory := memory ?P + 4992, remainBytes := szsub (remainBytes ?P) 4992\<rparr>"]
          exI [of _ ?os]) (simp add: TcPool_New_def New_def Let_def)
  qed
qed

section \<open>Properties\<close>

text \<open>
  Requests of more than 256 KiB cannot be served: the branch that is meant to take whole pages from
  the page cache calls \<^verbatim>\<open>round_up\<close> first, which asserts that the size is at most 256 KiB.
\<close>

theorem large_alloc_aborts:
  assumes "262144 < unat sz"
  shows "ConcurrentAlloc fuel sbrk tid sz a = Inl AssertFailed"
proof -
  have "MAXBYTES < sz" using assms by (simp add: MAXBYTES_def word_less_nat_alt)
  moreover have "round_up sz = Inl AssertFailed" using assms by (simp add: round_up_unfold)
  ultimately show ?thesis by (simp add: ConcurrentAlloc_def alloc_large_def)
qed

definition demo_allocator :: "nat \<Rightarrow> addr \<Rightarrow> nat allocator" where
  "demo_allocator k tp = \<lparr>central = demo_central 24576 5 demo_mem, TcPool = objectPool_init,
     tcs = \<lambda>_. demo_tc k, tls_threadcache = \<lambda>_. tp\<rparr>"

theorem large_alloc_aborts_witness:
  "ConcurrentAlloc 1 demo_sbrk 7 262145 (demo_allocator 1 0) = Inl AssertFailed"
  by (rule large_alloc_aborts) simp

text \<open>
  A thread's first allocation. The thread gets a cache of its own that is not null, with one
  object of the batch limit one handed out at once, an empty free list, and its limit raised to two; the
  caches and pointers of all other threads stay as they are.
\<close>

theorem first_allocation:
  assumes "0 < unat sz" "unat sz \<le> 262144" "i = class_index (unat sz)" "tls_threadcache a tid = 0"
    "freeList (TcPool a) = 0" "sbrk_law sbrk brk" "0 < remainBytes (TcPool a) \<longrightarrow> memory (TcPool a) \<noteq> 0"
    "sl_rep (cc_spans (central a)) (spanlist (central a) i) (as @ sp # bs)"
    "\<forall>x\<in>set as. objlist (cc_spans (central a) x) = 0" "length as < fuel"
    "chain (cc_mem (central a)) (objlist (cc_spans (central a) sp)) (x # xs) 0" "distinct (x # xs)"
    "usecount (cc_spans (central a) sp) + length (x # xs) < size_mod"
  shows "\<exists>a' p. ConcurrentAlloc fuel sbrk tid sz a = Inr (x, a') \<and>
    tls_threadcache a' = (tls_threadcache a)(tid := p) \<and> p \<noteq> 0 \<and>
    (\<forall>q. q \<noteq> p \<longrightarrow> tcs a' q = tcs a q) \<and>
    fl_rep (cc_mem (central a'), freelist (tcs a' p) i) [] \<and> maxSize (freelist (tcs a' p) i) = 2 \<and>
    chain (cc_mem (central a')) (objlist (cc_spans (central a') sp)) xs 0 \<and>
    usecount (cc_spans (central a') sp) = usecount (cc_spans (central a) sp) + 1"
proof -
  obtain p P os where p: "p \<noteq> 0" "TcPool_New sbrk a =
      Inr (p, a\<lparr>central := (central a)\<lparr>cc_page := (cc_page (central a))\<lparr>pc_os := os\<rparr>\<rparr>, TcPool := P,
        tcs := (tcs a)(p := ThreadCache_init)\<rparr>)"
    using TcPool_New_ok [OF assms(5-7)] by blast
  let ?c = "(central a)\<lparr>cc_page := (cc_page (central a))\<lparr>pc_os := os\<rparr>\<rparr>"
  have same: "cc_spans ?c = cc_spans (central a)" "spanlist ?c = spanlist (central a)" "cc_mem ?c = cc_mem (central a)"
    by (simp_all add: cc_spans_def)
  have fl: "fl_rep (cc_mem ?c, freelist ThreadCache_init i) []" "maxSize (freelist ThreadCache_init i) = 1"
    using fl_rep_init by (simp_all add: ThreadCache_init_def FreeList_init_def)
  have L: "1 \<le> batch_limit n" for n by (simp add: batch_limit_def)
  obtain fl' c' where A: "Allocate fuel sbrk sz (ThreadCache_init, ?c) = Inr (x, set_list i fl' ThreadCache_init, c')"
      "fl_rep (cc_mem c', fl') []" "maxSize fl' = 2" "chain (cc_mem c') (objlist (cc_spans c' sp)) xs 0"
      "usecount (cc_spans c' sp) = usecount (cc_spans (central a) sp) + 1"
    using Allocate_fetch [of sz i ?c ThreadCache_init as sp bs fuel "x # xs" sbrk] assms(1-3,8-13) fl L
    unfolding same by (auto simp: size_mod_def min_absorb2)
  have "ConcurrentAlloc fuel sbrk tid sz a = Inr (x, a\<lparr>central := c', TcPool := P,
      tcs := (tcs a)(p := set_list i fl' ThreadCache_init), tls_threadcache := (tls_threadcache a)(tid := p)\<rparr>)"
    using assms(2,4) p A(1) by (simp add: ConcurrentAlloc_def Let_def max_bytes leD)
  then show ?thesis using p(1) A(2-5) by (intro exI exI [of _ p] conjI) (assumption | simp)+
qed

theorem first_allocation_witness:
  "\<exists>a' p. ConcurrentAlloc 1 demo_sbrk 7 16 (demo_allocator 1 0) = Inr (24576, a') \<and>
    tls_threadcache a' = (\<lambda>_. 0)(7 := p) \<and> p \<noteq> 0"
proof -
  let ?a = "demo_allocator 1 0"
  have ol: "chain (cc_mem (central ?a)) (objlist (cc_spans (central ?a) 4096)) (24576 # [24592, 24608]) 0"
      "usecount (cc_spans (central ?a) 4096) = 5"
    by (simp_all add: demo_allocator_def cc_spans_def demo_central_def demo_spans_def demo_node_def demo_mem_def)
  have sl: "sl_rep (cc_spans (central ?a)) (spanlist (central ?a) 1) ([] @ 4096 # [])"
    using demo_bucket by (simp add: demo_allocator_def demo_central_def)
  have "freeList (TcPool ?a) = 0" "tls_threadcache ?a = (\<lambda>_. 0)" "remainBytes (TcPool ?a) = 0"
    by (simp_all add: demo_allocator_def objectPool_init_def)
  then show ?thesis
    using first_allocation [where sz = 16 and i = 1 and a = ?a and tid = 7 and fuel = 1,
        OF _ _ _ _ _ demo_law _ sl _ _ ol(1)] ol(2) demo_class
    by (fastforce simp: size_mod_def)
qed



end
