(* ===== verification/CentralSafe.thy ===== *)
theory CentralSafe
  imports CentralRelease
begin

text \<open>
  The central cache on top of the page cache, over any sequence of operations: an invariant of both
  that every operation keeps, that the operations succeed, and that no object is handed out twice.
\<close>

section \<open>Lists of lists\<close>

lemma mset_concat_fun_upd:
  assumes "i < n"
  shows "mset (concat (map (f(i := ys)) [0..<n])) + mset (f i) = mset (concat (map f [0..<n])) + mset ys"
  using assms
proof (induction n)
  case (Suc n)
  show ?case
  proof (cases "i = n")
    case True
    then have "map (f(i := ys)) [0..<n] = map f [0..<n]" by simp
    with True show ?thesis by (simp del: fun_upd_apply add: fun_upd_same)
  next
    case False
    then show ?thesis using Suc by simp
  qed
qed simp

lemma mset_used_insert:
  "i < n \<Longrightarrow> mset (concat (map (f(i := x # f i)) [0..<n])) = mset (x # concat (map f [0..<n]))"
  using mset_concat_fun_upd [of i n f "x # f i"] by simp

lemma mset_used_remove:
  "i < n \<Longrightarrow> f i = as @ x # bs \<Longrightarrow>
   mset (x # concat (map (f(i := as @ bs)) [0..<n])) = mset (concat (map f [0..<n]))"
  using mset_concat_fun_upd [of i n f "as @ bs"] by simp

lemma distinct_concat_map_apart:
  assumes "distinct (concat (map f [0..<n]))" "i < n" "j < n" "i \<noteq> j"
  shows "set (f i) \<inter> set (f j) = {}"
  using assms
proof (induction n)
  case (Suc n)
  then show ?case by (cases "i = n"; cases "j = n") (fastforce simp: less_Suc_eq disjoint_iff)+
qed simp

section \<open>The invariant\<close>

text \<open>
  A span in a bucket, with its free objects \<open>fs\<close> and the objects \<open>hs\<close> it has handed out; the objects start
  in its pages, at multiples of the object size.
\<close>

definition span_ok :: "heap \<Rightarrow> span \<Rightarrow> addr list \<Rightarrow> addr list \<Rightarrow> bool" where
  "span_ok m s fs hs \<longleftrightarrow>
     isUse s \<and> chain m (objlist s) fs 0 \<and> distinct (fs @ hs) \<and> usecount s = length hs \<and>
     (\<forall>x\<in>set (fs @ hs). x div PAGE_SIZE \<in> pages s \<and> objsize s dvd x - pageid s * PAGE_SIZE)"

text \<open>
  \<open>bl i\<close> are the spans in the \<open>i\<close>-th bucket, \<open>fo\<close> and \<open>ho\<close> the free and the handed out objects of a span.
  A span of the \<open>i\<close>-th bucket has an object size of that class and as many pages as \<^verbatim>\<open>num_move_page\<close> says;
  those for objects of up to 24 bytes, in the first three buckets, are one page long.
\<close>

definition move_pages :: "nat \<Rightarrow> nat" where
  "move_pages n = max 1 (max 2 (min 512 (262144 div n)) * n div 8192)"

definition class_ok :: "nat \<Rightarrow> span \<Rightarrow> bool" where
  "class_ok i s \<longleftrightarrow>
     0 < objsize s \<and> objsize s \<le> 262144 \<and> class_index (objsize s) = i \<and> npage s = move_pages (objsize s)"

lemma small_class:
  assumes "0 < n" "n \<le> 262144"
  shows "class_index n < 3 \<longleftrightarrow> n \<le> 24"
  using assms(2) assms(1) by (cases rule: size_range_cases; simp add: class_defs; presburger)

lemma small_pages:
  assumes "n \<le> 24"
  shows "move_pages n = 1"
proof -
  have "max 2 (min 512 (262144 div n)) \<le> 512" by simp
  then have "max 2 (min 512 (262144 div n)) * n \<le> 512 * 24" using assms by (rule mult_le_mono)
  then have "max 2 (min 512 (262144 div n)) * n div 8192 \<le> 1" by simp
  then show ?thesis unfolding move_pages_def by (rule max_absorb1)
qed

lemma class_ok_small: "class_ok i s \<Longrightarrow> i < 3 \<Longrightarrow> npage s = 1"
  using small_class [of "objsize s"] small_pages by (auto simp: class_ok_def)

abbreviation used_spans :: "(nat \<Rightarrow> addr list) \<Rightarrow> addr list" where
  "used_spans bl \<equiv> concat (map bl [0..<NFREELIST])"

abbreviation bucket_heads :: "'o central_cache \<Rightarrow> addr list" where
  "bucket_heads c \<equiv> map (spanlist c) [0..<NFREELIST]"

definition cc_inv ::
    "('o \<Rightarrow> nat) \<Rightarrow> 'o central_cache \<Rightarrow> (nat \<Rightarrow> addr list) \<Rightarrow> (nat \<Rightarrow> addr list) \<Rightarrow>
     (addr \<Rightarrow> addr list) \<Rightarrow> (addr \<Rightarrow> addr list) \<Rightarrow> bool" where
  "cc_inv brk c fr bl fo ho \<longleftrightarrow>
     pc_inv brk (cc_page c) fr (used_spans bl) (bucket_heads c) \<and>
     (\<forall>i<NFREELIST. sl_rep (cc_spans c) (spanlist c i) (bl i)) \<and>
     (\<forall>p\<in>set (used_spans bl). span_ok (cc_mem c) (cc_spans c p) (fo p) (ho p)) \<and>
     (\<forall>i<NFREELIST. \<forall>p\<in>set (bl i). class_ok i (cc_spans c p))"

definition held :: "(nat \<Rightarrow> addr list) \<Rightarrow> (addr \<Rightarrow> addr list) \<Rightarrow> nat \<Rightarrow> addr set" where
  "held bl ho i = (if i < NFREELIST then \<Union>p\<in>set (bl i). set (ho p) else {})"

lemma cc_invD:
  assumes "cc_inv brk c fr bl fo ho"
  shows "pc_inv brk (cc_page c) fr (used_spans bl) (bucket_heads c)"
    "i < NFREELIST \<Longrightarrow> sl_rep (cc_spans c) (spanlist c i) (bl i)"
    "p \<in> set (used_spans bl) \<Longrightarrow> span_ok (cc_mem c) (cc_spans c p) (fo p) (ho p)"
    "distinct (nodes (pagelist (cc_page c)) fr @ used_spans bl @ bucket_heads c)"
    "p \<in> set (used_spans bl) \<Longrightarrow> p \<noteq> 0"
    "p \<in> set (used_spans bl) \<Longrightarrow> q \<in> set (used_spans bl) \<Longrightarrow> p \<noteq> q \<Longrightarrow>
       pages (cc_spans c p) \<inter> pages (cc_spans c q) = {}"
    "p \<in> set (used_spans bl) \<Longrightarrow> 0 < npage (cc_spans c p) \<and> npage (cc_spans c p) < NPAGES"
    "i < NFREELIST \<Longrightarrow> p \<in> set (bl i) \<Longrightarrow> class_ok i (cc_spans c p)"
proof -
  show inv: "pc_inv brk (cc_page c) fr (used_spans bl) (bucket_heads c)" using assms by (simp add: cc_inv_def)
  then have st: "pc_st brk (cc_page c) fr (used_spans bl) (bucket_heads c) {}" by (simp add: pc_inv_def)
  note g = pc_stD(4) [OF st, folded cc_spans_def]
  show "distinct (nodes (pagelist (cc_page c)) fr @ used_spans bl @ bucket_heads c)" by (rule pc_stD(6) [OF st])
  show "p \<in> set (used_spans bl) \<Longrightarrow> p \<noteq> 0" using pc_stD(7) [OF st] by fastforce
  show "p \<in> set (used_spans bl) \<Longrightarrow> q \<in> set (used_spans bl) \<Longrightarrow> p \<noteq> q \<Longrightarrow>
       pages (cc_spans c p) \<inter> pages (cc_spans c q) = {}" using geoD(4) [OF g] by blast
  show "p \<in> set (used_spans bl) \<Longrightarrow> 0 < npage (cc_spans c p) \<and> npage (cc_spans c p) < NPAGES"
    using geoD(1,2) [OF g] by blast
qed (use assms in \<open>unfold cc_inv_def, blast+\<close>)

lemma in_used: "i < NFREELIST \<Longrightarrow> p \<in> set (bl i) \<Longrightarrow> p \<in> set (used_spans bl)"
  by auto

text \<open>Objects of different spans are different.\<close>

lemma cc_inv_apart:
  assumes inv: "cc_inv brk c fr bl fo ho" and p: "p \<in> set (used_spans bl)" "q \<in> set (used_spans bl)"
    and x: "x \<in> set (fo p @ ho p)" "x \<in> set (fo q @ ho q)"
  shows "p = q"
proof (rule ccontr)
  assume "p \<noteq> q"
  moreover have "x div PAGE_SIZE \<in> pages (cc_spans c p)" "x div PAGE_SIZE \<in> pages (cc_spans c q)"
    using cc_invD(3) [OF inv p(1)] cc_invD(3) [OF inv p(2)] x unfolding span_ok_def by blast+
  ultimately show False using cc_invD(6) [OF inv p] by blast
qed

lemma held_apart:
  assumes inv: "cc_inv brk c fr bl fo ho" and ij: "i \<noteq> j"
  shows "held bl ho i \<inter> held bl ho j = {}"
proof (rule ccontr)
  assume "held bl ho i \<inter> held bl ho j \<noteq> {}"
  then obtain x p q where x: "i < NFREELIST" "j < NFREELIST" "p \<in> set (bl i)" "q \<in> set (bl j)"
      "x \<in> set (ho p)" "x \<in> set (ho q)"
    by (auto simp: held_def split: if_splits)
  then have "p = q" using cc_inv_apart [OF inv in_used in_used, of i p j q x] by simp
  moreover have "set (bl i) \<inter> set (bl j) = {}"
  proof -
    have "distinct (used_spans bl)" using cc_invD(4) [OF inv] by simp
    then show ?thesis using x(1,2) ij by (rule distinct_concat_map_apart)
  qed
  ultimately show False using x(3,4) by blast
qed


section \<open>Changing one span\<close>

lemma cc_inv_local:
  assumes inv: "cc_inv brk c fr bl fo ho" and sp: "sp \<in> set (used_spans bl)"
    and c': "cc_page c' = (cc_page c)\<lparr>pc_spans := (cc_spans c)(sp := t)\<rparr>" "spanlist c' = spanlist c"
    and t: "nxt t = nxt (cc_spans c sp)" "prv t = prv (cc_spans c sp)"
      "pageid t = pageid (cc_spans c sp)" "npage t = npage (cc_spans c sp)" "objsize t = objsize (cc_spans c sp)"
    and mem: "\<And>a. a \<notin> set (fo sp @ ho sp) \<Longrightarrow> cc_mem c' a = cc_mem c a"
    and ok: "span_ok (cc_mem c') t fs hs"
  shows "cc_inv brk c' fr bl (fo(sp := fs)) (ho(sp := hs))"
  unfolding cc_inv_def
proof (intro conjI allI impI ballI)
  have h: "cc_spans c' = (cc_spans c)(sp := t)" using c'(1) by (simp add: cc_spans_def)
  have spN: "sp \<notin> set (nodes (pagelist (cc_page c)) fr)" using cc_invD(4) [OF inv] sp by auto
  show "pc_inv brk (cc_page c') fr (used_spans bl) (bucket_heads c')"
    unfolding c' by (rule pc_inv_client [OF cc_invD(1) [OF inv]]) (use t spN in \<open>auto simp: cc_spans_def\<close>)
  show "sl_rep (cc_spans c') (spanlist c' i) (bl i)" if "i < NFREELIST" for i
    using cc_invD(2) [OF inv that] sl_rep_cong [of "cc_spans c" "cc_spans c'" "spanlist c i" "bl i"] t
    by (simp add: h c'(2) same_links_def)
  show "span_ok (cc_mem c') (cc_spans c' p) ((fo(sp := fs)) p) ((ho(sp := hs)) p)"
    if p: "p \<in> set (used_spans bl)" for p
  proof (cases "p = sp")
    case False
    then have "a \<notin> set (fo sp @ ho sp)" if "a \<in> set (fo p)" for a
      using cc_inv_apart [OF inv p sp, of a] that by auto
    then have "chain (cc_mem c') q (fo p) 0 \<longleftrightarrow> chain (cc_mem c) q (fo p) 0" for q
      by (intro chain_frame mem)
    then show ?thesis using cc_invD(3) [OF inv p] False by (simp add: h span_ok_def)
  qed (use ok h in simp)
  show "class_ok i (cc_spans c' p)" if "i < NFREELIST" "p \<in> set (bl i)" for i p
    using cc_invD(8) [OF inv that] t(4,5) by (auto simp: h class_ok_def)
qed

lemma bucket_unique:
  assumes "cc_inv brk c fr bl fo ho" "i < NFREELIST" "j < NFREELIST" "p \<in> set (bl i)" "p \<in> set (bl j)"
  shows "i = j"
  using distinct_concat_map_apart [of bl NFREELIST i j] cc_invD(4) [OF assms(1)] assms(2-5) by auto

lemma cc_inv_buckets_apart:
  assumes "cc_inv brk c fr bl fo ho" "i < NFREELIST" "j < NFREELIST" "i \<noteq> j"
  shows "set (spanlist c i # bl i) \<inter> set (spanlist c j # bl j) = {}"
proof -
  have d: "distinct (used_spans bl)" "distinct (bucket_heads c)" "set (used_spans bl) \<inter> set (bucket_heads c) = {}"
    using cc_invD(4) [OF assms(1)] unfolding distinct_append by blast+
  have "spanlist c i \<noteq> spanlist c j"
    using nth_eq_iff_index_eq [OF d(2), of i j] assms(2-4) by simp
  moreover have "set (bl i) \<inter> set (bl j) = {}" using distinct_concat_map_apart [OF d(1) assms(2-4)] .
  moreover have "spanlist c i \<notin> set (bl j)" "spanlist c j \<notin> set (bl i)"
    using d(3) assms(2,3) in_used [of i _ bl] in_used [of j _ bl] by (simp_all add: disjoint_iff) fastforce+
  ultimately show ?thesis by simp
qed

lemma held_add:
  assumes inv: "cc_inv brk c fr bl fo ho" and i: "i < NFREELIST" "sp \<in> set (bl i)"
  shows "held bl (ho(sp := ys @ ho sp)) = (held bl ho)(i := held bl ho i \<union> set ys)"
proof
  fix j
  have "sp \<notin> set (bl j)" if "j < NFREELIST" "j \<noteq> i" using bucket_unique [OF inv i(1) that(1) i(2)] that(2) by blast
  then show "held bl (ho(sp := ys @ ho sp)) j = ((held bl ho)(i := held bl ho i \<union> set ys)) j"
    using i by (auto simp: held_def split: if_splits)
qed

lemma held_remove:
  assumes inv: "cc_inv brk c fr bl fo ho" and i: "i < NFREELIST" "sp \<in> set (bl i)"
    and x: "x \<in> set (ho sp)"
  shows "held bl (ho(sp := remove1 x (ho sp))) = (held bl ho)(i := held bl ho i - {x})"
proof
  fix j
  have d: "distinct (ho sp)" using cc_invD(3) [OF inv in_used [of i sp bl, OF i]] by (simp add: span_ok_def)
  have "sp \<notin> set (bl j)" if "j < NFREELIST" "j \<noteq> i" using bucket_unique [OF inv i(1) that(1) i(2)] that(2) by blast
  moreover have "x \<notin> set (ho p)" if "p \<in> set (bl i)" "p \<noteq> sp" for p
    using cc_inv_apart [OF inv in_used in_used, of i p i sp x] that i x by auto
  ultimately show "held bl (ho(sp := remove1 x (ho sp))) j = ((held bl ho)(i := held bl ho i - {x})) j"
    using i d by (auto simp: held_def split: if_splits)
qed

section \<open>Fetching\<close>

lemma span_ok_count:
  assumes "span_ok m s fs hs" "npage s < NPAGES"
  shows "length (fs @ hs) < size_mod"
proof -
  have "set (fs @ hs) \<subseteq> {pageid s * PAGE_SIZE..<(pageid s + npage s) * PAGE_SIZE}"
  proof
    fix x assume "x \<in> set (fs @ hs)"
    then have "pageid s \<le> x div PAGE_SIZE" "x div PAGE_SIZE < pageid s + npage s"
      using assms(1) by (auto simp: span_ok_def pages_def)
    then show "x \<in> {pageid s * PAGE_SIZE..<(pageid s + npage s) * PAGE_SIZE}"
      by (simp add: PAGE_SIZE_def less_eq_div_iff_mult_less_eq div_less_iff_less_mult)
  qed
  then have "card (set (fs @ hs)) \<le> npage s * PAGE_SIZE"
    using card_mono [of "{pageid s * PAGE_SIZE..<(pageid s + npage s) * PAGE_SIZE}"]
    by (simp add: distrib_right)
  then have "length (fs @ hs) \<le> npage s * PAGE_SIZE"
    using assms(1) distinct_card [of "fs @ hs"] by (simp add: span_ok_def)
  also have "\<dots> \<le> 129 * PAGE_SIZE" using assms(2) by (simp add: NPAGES_def)
  finally show ?thesis by (simp add: PAGE_SIZE_def size_mod_def)
qed

lemma cc_take:
  assumes inv: "cc_inv brk c1 fr bl fo ho" and sp: "sp \<in> set (used_spans bl)" "fo sp \<noteq> []"
    and run: "bucket_head sz c = Inr hp" "get_one_Span fuel sbrk hp sz c = Inr (sp, c1)"
    and num: "0 < Num" "Num < size_mod"
  defines "n \<equiv> min Num (length (fo sp))"
  shows "\<exists>c2. fetch_range_obj fuel sbrk Num sz c = Inr (hd (fo sp), fo sp ! (n - 1), n, c2) \<and>
    cc_inv brk c2 fr bl (fo(sp := drop n (fo sp))) (ho(sp := take n (fo sp) @ ho sp)) \<and>
    chain (cc_mem c2) (hd (fo sp)) (take n (fo sp)) 0 \<and> spanlist c2 = spanlist c1 \<and>
    (\<forall>a. a \<notin> set (fo sp) \<longrightarrow> cc_mem c2 a = cc_mem c1 a) \<and> (\<forall>p. objsize (cc_spans c2 p) = objsize (cc_spans c1 p))"
proof -
  let ?s = "cc_spans c1 sp"
  have ok: "span_ok (cc_mem c1) ?s (fo sp) (ho sp)" by (rule cc_invD(3) [OF inv sp(1)])
  have count: "usecount ?s + length (fo sp) < size_mod"
    using span_ok_count [OF ok] cc_invD(7) [OF inv sp(1)] ok by (simp add: span_ok_def)
  have xs: "chain (cc_mem c1) (objlist ?s) (fo sp) 0" "distinct (fo sp)" using ok by (simp_all add: span_ok_def)
  obtain c2 where c2: "fetch_range_obj fuel sbrk Num sz c = Inr (hd (fo sp), fo sp ! (n - 1), n, c2)"
      "chain (cc_mem c2) (hd (fo sp)) (take n (fo sp)) 0"
      "chain (cc_mem c2) (objlist (cc_spans c2 sp)) (drop n (fo sp)) 0"
      "spanlist c2 = spanlist c1" "\<forall>a. a \<notin> set (fo sp) \<longrightarrow> cc_mem c2 a = cc_mem c1 a"
      "cc_page c2 = (cc_page c1)\<lparr>pc_spans := (cc_spans c1)(sp := ?s
        \<lparr>objlist := objlist (cc_spans c2 sp), usecount := usecount ?s + n\<rparr>)\<rparr>"
    using fetch_ok [OF run cc_invD(5) [OF inv sp(1)] xs sp(2) num count] unfolding n_def by blast
  let ?t = "?s\<lparr>objlist := objlist (cc_spans c2 sp), usecount := usecount ?s + n\<rparr>"
  have "mset (drop n (fo sp) @ take n (fo sp) @ ho sp) = mset (fo sp @ ho sp)"
    by (metis append.assoc append_take_drop_id mset_append union_commute)
  then have "distinct (drop n (fo sp) @ take n (fo sp) @ ho sp)"
      "set (drop n (fo sp) @ take n (fo sp) @ ho sp) = set (fo sp @ ho sp)"
    using ok mset_eq_imp_distinct_iff mset_eq_setD unfolding span_ok_def by metis+
  moreover have "length (take n (fo sp) @ ho sp) = usecount ?s + n"
    using ok by (simp add: span_ok_def n_def)
  moreover have "pages ?t = pages ?s" by (simp add: pages_def)
  ultimately have "span_ok (cc_mem c2) ?t (drop n (fo sp)) (take n (fo sp) @ ho sp)"
    using ok c2(3) unfolding span_ok_def by simp
  then have "cc_inv brk c2 fr bl (fo(sp := drop n (fo sp))) (ho(sp := take n (fo sp) @ ho sp))"
    using c2(4,5) by (intro cc_inv_local [OF inv sp(1) c2(6)]) simp_all
  moreover have h: "cc_spans c2 = (cc_spans c1)(sp := ?t)"
    using arg_cong [OF c2(6), of pc_spans] by (simp add: cc_spans_def)
  have "objsize (cc_spans c2 p) = objsize (cc_spans c1 p)" for p by (subst h) simp
  ultimately show ?thesis using c2(1,2,4,5) by blast
qed

lemma num_move_page_small:
  assumes "0 < unat sz" "unat sz \<le> 262144"
  shows "\<exists>k. num_move_page sz = Inr k \<and> 0 < unat k \<and> unat k < 128 \<and> unat k = move_pages (unat sz)"
proof -
  obtain k where k: "num_move_page sz = Inr k" "unat k = move_pages (unat sz)"
    using num_move_page_nat [OF assms] by (auto simp: move_pages_def)
  moreover have "max 2 (min 512 (262144 div unat sz)) * unat sz div 8192 \<le> 524288 div 8192"
    using batch_pages_bounds(1) [OF assms] by (rule div_le_mono)
  ultimately show ?thesis by (intro exI [of _ k]) (auto simp: move_pages_def less_max_iff_disj)
qed

lemma carved_span:
  assumes "0 < sz" "0 < npage s"
  defines "xs \<equiv> carved sz (pageid s * PAGE_SIZE) (ceil_div (npage s * PAGE_SIZE) sz)"
  shows "distinct xs" "xs \<noteq> []" "x \<in> set xs \<Longrightarrow> x div PAGE_SIZE \<in> pages s"
    "x \<in> set xs \<Longrightarrow> sz dvd x - pageid s * PAGE_SIZE"
proof -
  let ?b = "npage s * PAGE_SIZE"
  have b: "0 < ?b" using assms(2) by (simp add: PAGE_SIZE_def)
  have pos: "0 < ceil_div ?b sz" using b assms(1) by (simp add: ceil_div_pos)
  show "distinct xs" using assms(1) by (auto simp: xs_def carved_def distinct_map inj_on_def)
  show "xs \<noteq> []" using pos by (simp add: xs_def carved_def)
  show "sz dvd x - pageid s * PAGE_SIZE" if "x \<in> set xs" using that by (auto simp: xs_def carved_def)
  show "x div PAGE_SIZE \<in> pages s" if x: "x \<in> set xs"
  proof -
    obtain i where i: "i < ceil_div ?b sz" "x = pageid s * PAGE_SIZE + i * sz"
      using x by (auto simp: xs_def carved_def)
    have "i * sz < ?b"
    proof -
      have "Suc i \<le> (?b + sz - 1) div sz" using i(1) by (simp add: ceil_div_def)
      then have "Suc i * sz \<le> ?b + sz - 1" using assms(1) by (simp add: less_eq_div_iff_mult_less_eq)
      then show ?thesis using b assms(1) unfolding mult_Suc by linarith
    qed
    then have "pageid s * PAGE_SIZE \<le> x" "x < (pageid s + npage s) * PAGE_SIZE"
      using i(2) by (simp_all add: distrib_right)
    then show ?thesis
      by (simp add: pages_def PAGE_SIZE_def less_eq_div_iff_mult_less_eq div_less_iff_less_mult)
  qed
qed

text \<open>More rounds do not change the result.\<close>

lemma find_span_mono:
  "find_span f hp it h = Inr r \<Longrightarrow> f \<le> f' \<Longrightarrow> find_span f' hp it h = Inr r"
proof (induction f arbitrary: it f')
  case (Suc f)
  obtain g where g: "f' = Suc g" "f \<le> g" using Suc.prems(2) by (cases f') simp_all
  show ?case
    using Suc.prems(1) Suc.IH [OF _ g(2), of "nxt (h it)"]
    by (cases "it = 0"; cases "it = sl_end hp") (auto simp: g(1) deref_span_def split: if_splits)
qed simp

lemma bindR_mono: "bindR m g = Inr r \<Longrightarrow> (\<And>x. m = Inr x \<Longrightarrow> m' = Inr x) \<Longrightarrow> bindR m' g = Inr r"
  by (cases m) simp_all

lemma get_one_Span_mono:
  "get_one_Span f sbrk hp sz c = Inr r \<Longrightarrow> f \<le> f' \<Longrightarrow> get_one_Span f' sbrk hp sz c = Inr r"
proof (cases "sl_begin hp (cc_spans c)")
  case (Inr it)
  assume "get_one_Span f sbrk hp sz c = Inr r" "f \<le> f'"
  then show ?thesis
    unfolding get_one_Span_def Inr bindR_simps by (elim bindR_mono find_span_mono)
qed (simp add: get_one_Span_def)

text \<open>A bucket without free objects gets a new span.\<close>

lemma cc_new_span:
  assumes inv: "cc_inv brk c fr bl fo ho" and i: "i < NFREELIST" and law: "sbrk_law sbrk brk"
    and room: "brk (pc_os (cc_page c)) + 131072 + 2 ^ 33 \<le> 2 ^ 48"
    and sz: "0 < unat sz" "unat sz \<le> 262144" and none: "\<forall>p\<in>set (bl i). objlist (cc_spans c p) = 0"
  shows "\<exists>sp q fr'. (\<exists>k. num_move_page sz = Inr k \<and> new_Span 2 sbrk (unat k) (cc_page c) = Inr (sp, q)) \<and>
    pc_inv brk q fr' (sp # used_spans bl) (bucket_heads c) \<and> usecount (pc_spans q sp) = 0 \<and>
    (\<forall>p\<in>set (used_spans bl @ bucket_heads c). pc_spans q p = cc_spans c p) \<and>
    sl_rep (pc_spans q) (spanlist c i) (bl i) \<and> sp \<noteq> 0 \<and> sp \<notin> set (used_spans bl @ bucket_heads c) \<and>
    0 < pageid (pc_spans q sp) \<and> 0 < npage (pc_spans q sp) \<and> npage (pc_spans q sp) = move_pages (unat sz) \<and>
    (pageid (pc_spans q sp) + npage (pc_spans q sp)) * PAGE_SIZE < size_mod"
proof -
  obtain k where k: "num_move_page sz = Inr k" "0 < unat k" "unat k < 128" "unat k = move_pages (unat sz)"
    using num_move_page_small [OF sz] by blast
  obtain sp q fr' where q: "new_Span 2 sbrk (unat k) (cc_page c) = Inr (sp, q)"
      "pc_inv brk q fr' (sp # used_spans bl) (bucket_heads c)" "npage (pc_spans q sp) = unat k"
      "usecount (pc_spans q sp) = 0"
      "\<forall>p\<in>set (used_spans bl @ bucket_heads c). pc_spans q p = pc_spans (cc_page c) p"
    using new_Span_ok [OF cc_invD(1) [OF inv] law k(2,3) room] by blast
  have st: "pc_st brk q fr' (sp # used_spans bl) (bucket_heads c) {}" using q(2) by (simp add: pc_inv_def)
  note g = pc_stD(4) [OF st]
  have spS: "sp \<in> frees fr' \<union> set (sp # used_spans bl)" by simp
  have "0 \<notin> pages (pc_spans q sp)" by (rule geoD(8) [OF g spS])
  then have pid: "0 < pageid (pc_spans q sp)" using k(2) q(3) by (auto simp: pages_def)
  have "(pageid (pc_spans q sp) + npage (pc_spans q sp)) * PAGE_SIZE \<le> 2 ^ 35 * PAGE_SIZE"
    using geo_bound [OF g spS] by (rule mult_le_mono1)
  then have bound: "(pageid (pc_spans q sp) + npage (pc_spans q sp)) * PAGE_SIZE < size_mod"
    by (simp add: PAGE_SIZE_def size_mod_def)
  have sub: "set (spanlist c i # bl i) \<subseteq> set (used_spans bl @ bucket_heads c)" using i by auto
  have eq: "\<forall>p\<in>set (used_spans bl @ bucket_heads c). pc_spans q p = cc_spans c p"
    using q(5) unfolding cc_spans_def .
  have "pc_spans q p = cc_spans c p" if "p \<in> set (spanlist c i # bl i)" for p
    by (rule bspec [OF eq subsetD [OF sub that]])
  then have "same_links (cc_spans c) (pc_spans q) (set (spanlist c i # bl i))"
    by (simp add: same_links_def)
  then have "sl_rep (pc_spans q) (spanlist c i) (bl i)" using cc_invD(2) [OF inv i] sl_rep_cong by blast
  moreover have "sp \<noteq> 0" "sp \<notin> set (used_spans bl @ bucket_heads c)"
    using pc_stD(6,7) [OF st] by auto
  moreover have "0 < npage (pc_spans q sp)" "npage (pc_spans q sp) = move_pages (unat sz)" using k(2,4) q(3) by simp_all
  ultimately show ?thesis
    using k(1) q(1,2,4) eq pid bound
    by (intro exI [of _ sp] exI [of _ q] exI [of _ fr'] exI [of _ k] conjI) assumption+
qed

text \<open>The invariant after the push; \<open>q\<close> is the page cache that has handed out the span \<open>sp\<close>.\<close>

lemma cc_inv_push:
  assumes inv: "cc_inv brk c fr bl fo ho" and i: "i < NFREELIST"
    and q: "pc_inv brk q fr1 (sp # used_spans bl) (bucket_heads c)"
      "\<And>p. p \<in> set (used_spans bl @ bucket_heads c) \<Longrightarrow> pc_spans q p = cc_spans c p"
    and c1: "cc_page c1 = q\<lparr>pc_spans := cc_spans c1\<rparr>" "spanlist c1 = spanlist c"
      "sl_rep (cc_spans c1) (spanlist c i) (sp # bl i)" "span_ok (cc_mem c1) (cc_spans c1 sp) xs []"
      "\<And>a. a \<notin> set xs \<Longrightarrow> cc_mem c1 a = cc_mem c a"
    and h: "\<And>p. pages (cc_spans c1 p) = pages (pc_spans q p)"
      "\<And>p. pageid (cc_spans c1 p) = pageid (pc_spans q p) \<and> npage (cc_spans c1 p) = npage (pc_spans q p)"
      "\<And>p. p \<noteq> sp \<Longrightarrow> isUse (cc_spans c1 p) = isUse (pc_spans q p) \<and>
         usecount (cc_spans c1 p) = usecount (pc_spans q p) \<and> objlist (cc_spans c1 p) = objlist (pc_spans q p) \<and>
         objsize (cc_spans c1 p) = objsize (pc_spans q p)"
      "\<And>p. p \<notin> set (sp # spanlist c i # bl i) \<Longrightarrow> cc_spans c1 p = pc_spans q p"
    and cls: "class_ok i (cc_spans c1 sp)"
  shows "cc_inv brk c1 fr1 (bl(i := sp # bl i)) (fo(sp := xs)) (ho(sp := []))"
  unfolding cc_inv_def
proof (intro conjI allI impI ballI)
  let ?U = "used_spans bl" and ?E = "bucket_heads c"
  have st: "pc_st brk q fr1 (sp # ?U) ?E {}" using q(1) by (simp add: pc_inv_def)
  have d: "set (nodes (pagelist q) fr1) \<inter> set (sp # ?U @ ?E) = {}" "sp \<notin> set (?U @ ?E)"
    using pc_stD(6) [OF st] by auto
  have sub: "set (spanlist c i # bl i) \<subseteq> set (?U @ ?E)" using i by auto
  have nodes: "cc_spans c1 p = pc_spans q p" if "p \<in> set (nodes (pagelist q) fr1)" for p
  proof -
    have "p \<noteq> sp" "p \<notin> set (?U @ ?E)" using d(1) that by auto
    then have "p \<notin> set (sp # spanlist c i # bl i)" using sub by auto
    then show ?thesis by (rule h(4))
  qed
  have "pc_inv brk (cc_page c1) fr1 (sp # ?U) ?E"
    unfolding c1(1) using nodes h(2) by (intro pc_inv_client [OF q(1)]) simp_all
  then show "pc_inv brk (cc_page c1) fr1 (used_spans (bl(i := sp # bl i))) (bucket_heads c1)"
    unfolding c1(2) by (rule pc_inv_perm) (rule mset_used_insert [OF i, symmetric])
  show "sl_rep (cc_spans c1) (spanlist c1 j) ((bl(i := sp # bl i)) j)" if j: "j < NFREELIST" for j
  proof (cases "j = i")
    case False
    have "cc_spans c1 p = cc_spans c p" if p: "p \<in> set (spanlist c j # bl j)" for p
    proof -
      have pU: "p \<in> set (?U @ ?E)" using p j by auto
      have "p \<noteq> sp" using d(2) pU by metis
      moreover have "p \<notin> set (spanlist c i # bl i)" using cc_inv_buckets_apart [OF inv i j] False p by blast
      ultimately show ?thesis using h(4) [of p] q(2) [OF pU] by simp
    qed
    then have "same_links (cc_spans c) (cc_spans c1) (set (spanlist c j # bl j))" by (simp add: same_links_def)
    then show ?thesis using cc_invD(2) [OF inv j] sl_rep_cong c1(2) False by fastforce
  qed (use c1(2,3) in simp)
  show "span_ok (cc_mem c1) (cc_spans c1 p) ((fo(sp := xs)) p) ((ho(sp := [])) p)"
    if p: "p \<in> set (used_spans (bl(i := sp # bl i)))" for p
  proof (cases "p = sp")
    case False
    then have pU: "p \<in> set ?U" using p unfolding mset_eq_setD [OF mset_used_insert [OF i, of bl sp]] by simp
    have eq: "pc_spans q p = cc_spans c p" using q(2) pU by simp
    have old: "span_ok (cc_mem c) (cc_spans c p) (fo p) (ho p)" by (rule cc_invD(3) [OF inv pU])
    have "pages (cc_spans c1 sp) \<inter> pages (cc_spans c p) = {}"
      using geoD(4) [OF pc_stD(4) [OF st], of sp p] pU False by (simp add: h(1) eq)
    moreover have "x div PAGE_SIZE \<in> pages (cc_spans c1 sp)" if "x \<in> set xs" for x
      using c1(4) that by (simp add: span_ok_def)
    moreover have "x div PAGE_SIZE \<in> pages (cc_spans c p)" if "x \<in> set (fo p)" for x
      using old that by (simp add: span_ok_def)
    ultimately have "x \<notin> set xs" if "x \<in> set (fo p)" for x using that by blast
    then have "chain (cc_mem c1) r (fo p) 0 \<longleftrightarrow> chain (cc_mem c) r (fo p) 0" for r
      by (intro chain_frame c1(5))
    then show ?thesis using old h(1,2) [of p] h(3) [OF False] False by (simp add: span_ok_def eq)
  qed (use c1(4) in simp)
  show "class_ok j (cc_spans c1 p)" if j: "j < NFREELIST" "p \<in> set ((bl(i := sp # bl i)) j)" for j p
  proof (cases "p = sp")
    case False
    then have p: "p \<in> set (bl j)" using j(2) by (auto split: if_splits)
    then have "pc_spans q p = cc_spans c p" using q(2) in_used [of j p bl] j(1) by simp
    then show ?thesis using h(2) [of p] h(3) [OF False] cc_invD(8) [OF inv j(1) p] by (simp add: class_ok_def)
  next
    case True
    have "sp \<notin> set (bl j)" using d(2) in_used [of j sp bl, OF j(1)] by auto
    then show ?thesis using True j(2) cls by (simp split: if_splits)
  qed
qed

lemma cc_get_new:
  assumes inv: "cc_inv brk c fr bl fo ho" and i: "i < NFREELIST" and law: "sbrk_law sbrk brk"
    and room: "brk (pc_os (cc_page c)) + 131072 + 2 ^ 33 \<le> 2 ^ 48"
    and sz: "0 < unat sz" "unat sz \<le> 262144" "class_index (unat sz) = i"
    and none: "\<forall>p\<in>set (bl i). objlist (cc_spans c p) = 0"
  shows "\<exists>sp c1 fr1 xs. (\<forall>fuel>length (bl i). get_one_Span fuel sbrk (spanlist c i) sz c = Inr (sp, c1)) \<and>
    cc_inv brk c1 fr1 (bl(i := sp # bl i)) (fo(sp := xs)) (ho(sp := [])) \<and> xs \<noteq> [] \<and>
    sp \<notin> set (used_spans bl) \<and> spanlist c1 = spanlist c \<and> objsize (cc_spans c1 sp) = unat sz \<and>
    (\<forall>p\<in>set (used_spans bl). objsize (cc_spans c1 p) = objsize (cc_spans c p)) \<and>
    (\<forall>a. a \<notin> set xs \<longrightarrow> cc_mem c1 a = cc_mem c a)"
proof -
  let ?hp = "spanlist c i" and ?U = "used_spans bl" and ?E = "bucket_heads c"
  obtain sp q fr1 k where q: "num_move_page sz = Inr k" "new_Span 2 sbrk (unat k) (cc_page c) = Inr (sp, q)"
      "pc_inv brk q fr1 (sp # ?U) ?E" "usecount (pc_spans q sp) = 0"
      "\<forall>p\<in>set (?U @ ?E). pc_spans q p = cc_spans c p"
      "sl_rep (pc_spans q) ?hp (bl i)" "sp \<noteq> 0" "sp \<notin> set (?U @ ?E)"
      "0 < pageid (pc_spans q sp)" "0 < npage (pc_spans q sp)"
      "(pageid (pc_spans q sp) + npage (pc_spans q sp)) * PAGE_SIZE < size_mod"
      "npage (pc_spans q sp) = move_pages (unat sz)"
    using cc_new_span [OF inv i law room sz(1,2) none] by blast
  have "set (?hp # bl i) \<subseteq> set (?U @ ?E)" using i by auto
  then have spn: "sp \<notin> set (?hp # bl i)" using q(8) by (meson subsetD)
  define xs where "xs = carved (unat sz) (pageid (pc_spans q sp) * PAGE_SIZE)
    (ceil_div (npage (pc_spans q sp) * PAGE_SIZE) (unat sz))"
  note new = get_one_Span_new [OF cc_invD(2) [OF inv i] none _ q(1,2,6,7) spn q(9,10,11) sz(1), folded xs_def]
  obtain c1 where c1: "get_one_Span (Suc (length (bl i))) sbrk ?hp sz c = Inr (sp, c1)"
      "sl_rep (cc_spans c1) ?hp (sp # bl i)" "isUse (cc_spans c1 sp)"
      "chain (cc_mem c1) (objlist (cc_spans c1 sp)) xs 0" "\<forall>a. a \<notin> set xs \<longrightarrow> cc_mem c1 a = cc_mem c a"
      "spanlist c1 = spanlist c" "cc_page c1 = q\<lparr>pc_spans := cc_spans c1\<rparr>"
      "same_data ((pc_spans q)(sp := (pc_spans q sp)\<lparr>isUse := True, objsize := unat sz,
         objlist := pageid (pc_spans q sp) * PAGE_SIZE\<rparr>)) (cc_spans c1)"
      "\<forall>p. p \<notin> set (sp # ?hp # bl i) \<longrightarrow> cc_spans c1 p = pc_spans q p"
    using new [OF lessI] by blast
  have run: "get_one_Span fuel sbrk ?hp sz c = Inr (sp, c1)" if "length (bl i) < fuel" for fuel
    by (rule get_one_Span_mono [OF c1(1)]) (use that in simp)
  have geo: "pageid (cc_spans c1 p) = pageid (pc_spans q p) \<and> npage (cc_spans c1 p) = npage (pc_spans q p)" for p
    using c1(8) by (simp add: same_data_def)
  have pg: "pages (cc_spans c1 p) = pages (pc_spans q p)" for p using geo by (simp add: pages_def)
  note cv = carved_span [OF sz(1) q(10), folded xs_def]
  have ok: "span_ok (cc_mem c1) (cc_spans c1 sp) xs []"
    using c1(3,4,8) q(4) cv(1,3,4) pg by (simp add: span_ok_def same_data_def)
  have cls: "class_ok i (cc_spans c1 sp)" using c1(8) q(12) sz by (simp add: class_ok_def same_data_def)
  have "cc_inv brk c1 fr1 (bl(i := sp # bl i)) (fo(sp := xs)) (ho(sp := []))"
    by (rule cc_inv_push [OF inv i q(3) _ c1(7,6,2) ok _ pg geo _ _ cls])
      (use q(5) c1(5,8,9) in \<open>simp_all add: same_data_def\<close>)
  moreover have "objsize (cc_spans c1 sp) = unat sz" using c1(8) by (simp add: same_data_def)
  moreover have "objsize (cc_spans c1 p) = objsize (cc_spans c p)" if "p \<in> set ?U" for p
  proof -
    have "p \<noteq> sp" "pc_spans q p = cc_spans c p" using q(5,8) that by auto
    then show ?thesis using c1(8) by (simp add: same_data_def)
  qed
  moreover have "sp \<notin> set ?U" using q(8) by simp
  ultimately show ?thesis
    using run cv(2) c1(5,6) by (intro exI [of _ sp] exI [of _ c1] exI [of _ fr1] exI [of _ xs]) blast
qed

lemma held_push:
  assumes "i < NFREELIST" "sp \<notin> set (used_spans bl)"
  shows "held (bl(i := sp # bl i)) (ho(sp := [])) = held bl ho"
proof
  fix j
  have "sp \<notin> set (bl j)" if "j < NFREELIST" using in_used [of j sp bl, OF that] assms(2) by blast
  then have "(\<Union>p\<in>set (bl j). set ((ho(sp := [])) p)) = (\<Union>p\<in>set (bl j). set (ho p))" if "j < NFREELIST"
    using that by (intro SUP_cong) auto
  then show "held (bl(i := sp # bl i)) (ho(sp := [])) j = held bl ho j"
    using assms(1) by (cases "j = i") (simp_all add: held_def)
qed

lemma first_with_objects:
  assumes "\<exists>p\<in>set ps. P p"
  obtains as p bs where "ps = as @ p # bs" "\<forall>q\<in>set as. \<not> P q" "P p"
  using split_list_first_prop [OF assms] by blast

lemma free_not_held:
  assumes inv: "cc_inv brk c fr bl fo ho" and sp: "sp \<in> set (used_spans bl)"
  shows "set (fo sp) \<inter> held bl ho j = {}"
proof (rule ccontr)
  assume "set (fo sp) \<inter> held bl ho j \<noteq> {}"
  then obtain x p where x: "x \<in> set (fo sp)" "j < NFREELIST" "p \<in> set (bl j)" "x \<in> set (ho p)"
    by (auto simp: held_def split: if_splits)
  then have "p = sp" using cc_inv_apart [OF inv in_used [of j p bl, OF x(2,3)] sp, of x] by simp
  then show False using x(1,4) cc_invD(3) [OF inv sp] by (auto simp: span_ok_def)
qed

text \<open>The object sizes of the spans in the buckets.\<close>

definition obj_sizes :: "'o central_cache \<Rightarrow> (nat \<Rightarrow> addr list) \<Rightarrow> nat set" where
  "obj_sizes c bl = (\<lambda>p. objsize (cc_spans c p)) ` set (used_spans bl)"

text \<open>The free objects; the cache writes to no other memory.\<close>

definition free_objs :: "(nat \<Rightarrow> addr list) \<Rightarrow> (addr \<Rightarrow> addr list) \<Rightarrow> addr set" where
  "free_objs bl fo = (\<Union>p\<in>set (used_spans bl). set (fo p))"

lemma free_objs_held: "cc_inv brk c fr bl fo ho \<Longrightarrow> a \<in> held bl ho j \<Longrightarrow> a \<notin> free_objs bl fo"
  using free_not_held [of brk c fr bl fo ho _ j] unfolding free_objs_def by blast

lemma free_objs_upd:
  assumes "p \<in> set (used_spans bl)" "set (fo p) = A \<union> set ys"
  shows "free_objs bl fo \<subseteq> A \<union> free_objs bl (fo(p := ys))" "set (fo p) \<subseteq> free_objs bl fo"
proof -
  show "set (fo p) \<subseteq> free_objs bl fo" unfolding free_objs_def using assms(1) by (rule UN_upper)
  have "set (fo q) \<subseteq> A \<union> free_objs bl (fo(p := ys))" if q: "q \<in> set (used_spans bl)" for q
  proof -
    have "set ((fo(p := ys)) q) \<subseteq> free_objs bl (fo(p := ys))" unfolding free_objs_def using q by (rule UN_upper)
    then show ?thesis using assms(2) by (cases "q = p") (simp_all add: le_supI1 le_supI2)
  qed
  then show "free_objs bl fo \<subseteq> A \<union> free_objs bl (fo(p := ys))" unfolding free_objs_def by (rule UN_least)
qed

text \<open>Whatever the state, there is a span with a free object after \<^verbatim>\<open>get_one_Span\<close>.\<close>

lemma cc_get:
  assumes inv: "cc_inv brk c fr bl fo ho" and i: "i < NFREELIST" and law: "sbrk_law sbrk brk"
    and room: "brk (pc_os (cc_page c)) + 131072 + 2 ^ 33 \<le> 2 ^ 48" and sz: "0 < unat sz" "unat sz \<le> 262144" "class_index (unat sz) = i"
  shows "\<exists>sp c1 fr1 bl1 fo1 ho1.
    (\<forall>fuel>length (bl i). get_one_Span fuel sbrk (spanlist c i) sz c = Inr (sp, c1)) \<and>
    cc_inv brk c1 fr1 bl1 fo1 ho1 \<and> sp \<in> set (bl1 i) \<and> fo1 sp \<noteq> [] \<and> held bl1 ho1 = held bl ho \<and>
    spanlist c1 = spanlist c \<and> obj_sizes c1 bl1 \<subseteq> insert (unat sz) (obj_sizes c bl) \<and>
    (\<forall>a. a \<notin> free_objs bl1 fo1 \<longrightarrow> cc_mem c1 a = cc_mem c a)"
proof (cases "\<exists>p\<in>set (bl i). objlist (cc_spans c p) \<noteq> 0")
  case True
  then obtain as sp bs where s: "bl i = as @ sp # bs" "\<forall>q\<in>set as. objlist (cc_spans c q) = 0"
      "objlist (cc_spans c sp) \<noteq> 0"
    using first_with_objects [OF True] by (metis (mono_tags, lifting))
  have rep: "sl_rep (cc_spans c) (spanlist c i) (as @ sp # bs)" using cc_invD(2) [OF inv i] s(1) by simp
  have "get_one_Span fuel sbrk (spanlist c i) sz c = Inr (sp, c)" if "length (bl i) < fuel" for fuel
    by (rule get_one_Span_hit [OF rep s(2,3)]) (use that s(1) in simp)
  moreover have "sp \<in> set (bl i)" using s(1) by simp
  moreover from this have "fo sp \<noteq> []"
    using cc_invD(3) [OF inv in_used [of i sp bl, OF i]] s(3) by (auto simp: span_ok_def)
  moreover have "obj_sizes c bl \<subseteq> insert (unat sz) (obj_sizes c bl)" by blast
  ultimately show ?thesis using inv by blast
next
  case False
  then obtain sp c1 fr1 xs where n: "\<forall>fuel>length (bl i). get_one_Span fuel sbrk (spanlist c i) sz c = Inr (sp, c1)"
      "cc_inv brk c1 fr1 (bl(i := sp # bl i)) (fo(sp := xs)) (ho(sp := []))" "xs \<noteq> []"
      "sp \<notin> set (used_spans bl)" "spanlist c1 = spanlist c" "objsize (cc_spans c1 sp) = unat sz"
      "\<forall>p\<in>set (used_spans bl). objsize (cc_spans c1 p) = objsize (cc_spans c p)"
      "\<forall>a. a \<notin> set xs \<longrightarrow> cc_mem c1 a = cc_mem c a"
    using cc_get_new [OF inv i law room sz] by blast
  let ?bl = "bl(i := sp # bl i)" and ?ho = "ho(sp := [])"
  have U: "set (used_spans ?bl) = insert sp (set (used_spans bl))"
    using mset_eq_setD [OF mset_used_insert [OF i, of bl sp]] by simp
  have "obj_sizes c1 bl = obj_sizes c bl"
    unfolding obj_sizes_def by (rule image_cong [OF refl]) (rule n(7) [rule_format])
  then have sizes: "obj_sizes c1 ?bl \<subseteq> insert (unat sz) (obj_sizes c bl)"
    unfolding obj_sizes_def U image_insert n(6) by simp
  have h: "held ?bl ?ho = held bl ho" by (rule held_push [OF i n(4)])
  have "cc_mem c1 a = cc_mem c a" if "a \<notin> free_objs ?bl (fo(sp := xs))" for a
    using n(8) that unfolding free_objs_def U by auto
  then show ?thesis
    using n(1,2,3,5) h sizes
    by (intro exI [of _ sp] exI [of _ c1] exI [of _ fr1] exI [of _ ?bl]
        exI [of _ "fo(sp := xs)"] exI [of _ ?ho]) simp
qed

lemma bucket_head_class:
  assumes "0 < unat sz" "unat sz \<le> 262144"
  shows "bucket_head sz c = Inr (spanlist c (class_index (unat sz)))" "class_index (unat sz) < NFREELIST"
  using index_nat [OF assms] class_index_bound [OF assms] by (auto simp: bucket_head_def)

lemma last_take:
  assumes "0 < n" "n \<le> length xs"
  shows "xs ! (n - 1) = last (take n xs)" "length (take n xs) = n"
proof -
  show len: "length (take n xs) = n" using assms(2) by simp
  then have "take n xs \<noteq> []" using assms(1) by auto
  then have "last (take n xs) = take n xs ! (n - 1)" using len by (simp add: last_conv_nth)
  then show "xs ! (n - 1) = last (take n xs)" using assms(1) by simp
qed

text \<open>The first objects of a span are taken.\<close>

lemma cc_take_objs:
  assumes inv: "cc_inv brk c1 fr bl fo ho" and sp: "i < NFREELIST" "sp \<in> set (bl i)" "fo sp \<noteq> []"
    and run: "bucket_head sz c = Inr hp" "get_one_Span fuel sbrk hp sz c = Inr (sp, c1)"
    and num: "0 < Num" "Num < size_mod"
  shows "\<exists>xs c2 fo2 ho2. fetch_range_obj fuel sbrk Num sz c = Inr (hd xs, last xs, length xs, c2) \<and>
    cc_inv brk c2 fr bl fo2 ho2 \<and> held bl ho2 = (held bl ho)(i := held bl ho i \<union> set xs) \<and>
    chain (cc_mem c2) (hd xs) xs 0 \<and> distinct xs \<and> xs \<noteq> [] \<and> length xs \<le> Num \<and>
    (\<forall>j. set xs \<inter> held bl ho j = {}) \<and> spanlist c2 = spanlist c1 \<and> obj_sizes c2 bl = obj_sizes c1 bl \<and>
    (\<forall>a. a \<notin> set xs \<union> free_objs bl fo2 \<longrightarrow> cc_mem c2 a = cc_mem c1 a) \<and> free_objs bl fo \<subseteq> set xs \<union> free_objs bl fo2"
proof -
  define n where "n = min Num (length (fo sp))"
  define xs where "xs = take n (fo sp)"
  have U: "sp \<in> set (used_spans bl)" by (rule in_used [of i sp bl, OF sp(1,2)])
  have n: "0 < n" "n \<le> length (fo sp)" "n \<le> Num" using num(1) sp(3) by (simp_all add: n_def)
  note lt = last_take [OF n(1,2), folded xs_def]
  have ne: "xs \<noteq> []" using lt(2) n(1) by auto
  then have hd: "hd (fo sp) = hd xs" using n(1) by (simp add: xs_def)
  obtain c2 where c2: "fetch_range_obj fuel sbrk Num sz c = Inr (hd xs, last xs, n, c2)"
      "cc_inv brk c2 fr bl (fo(sp := drop n (fo sp))) (ho(sp := xs @ ho sp))"
      "chain (cc_mem c2) (hd xs) xs 0" "spanlist c2 = spanlist c1" "\<forall>a. a \<notin> set (fo sp) \<longrightarrow> cc_mem c2 a = cc_mem c1 a"
      "\<forall>p. objsize (cc_spans c2 p) = objsize (cc_spans c1 p)"
    using cc_take [OF inv U sp(3) run num] unfolding n_def [symmetric] xs_def [symmetric] lt(1) hd by blast
  have "distinct xs" using cc_invD(3) [OF inv U] by (simp add: span_ok_def xs_def)
  moreover have "set xs \<inter> held bl ho j = {}" for j
    using free_not_held [OF inv U, of j] set_take_subset [of n "fo sp"] unfolding xs_def by blast
  moreover have "length xs \<le> Num" using lt(2) n(3) by simp
  moreover have "set (fo sp) = set xs \<union> set (drop n (fo sp))"
    unfolding xs_def by (metis append_take_drop_id set_append)
  note fo = free_objs_upd [of sp bl fo, OF U this]
  have "cc_mem c2 a = cc_mem c1 a" if "a \<notin> set xs \<union> free_objs bl (fo(sp := drop n (fo sp)))" for a
    using c2(5) subsetD [OF fo(1)] subsetD [OF fo(2)] that by metis
  moreover have "obj_sizes c2 bl = obj_sizes c1 bl" using c2(6) by (simp add: obj_sizes_def)
  ultimately show ?thesis
    using c2(1) [folded lt(2)] c2(2-4) ne fo(1) held_add [OF inv sp(1,2), of xs] by blast
qed

lemma cc_fetch:
  assumes inv: "cc_inv brk c fr bl fo ho" and law: "sbrk_law sbrk brk"
    and room: "brk (pc_os (cc_page c)) + 131072 + 2 ^ 33 \<le> 2 ^ 48" and sz: "0 < unat sz" "unat sz \<le> 262144"
    and num: "0 < Num" "Num < size_mod"
  defines "i \<equiv> class_index (unat sz)"
  shows "\<exists>xs c' fr' bl' fo' ho'.
    (\<forall>fuel>length (bl i). fetch_range_obj fuel sbrk Num sz c = Inr (hd xs, last xs, length xs, c')) \<and>
    cc_inv brk c' fr' bl' fo' ho' \<and> held bl' ho' = (held bl ho)(i := held bl ho i \<union> set xs) \<and>
    chain (cc_mem c') (hd xs) xs 0 \<and> distinct xs \<and> xs \<noteq> [] \<and> length xs \<le> Num \<and>
    (\<forall>j. set xs \<inter> held bl ho j = {}) \<and> spanlist c' = spanlist c \<and>
    obj_sizes c' bl' \<subseteq> insert (unat sz) (obj_sizes c bl) \<and>
    (\<forall>a. a \<notin> set xs \<union> free_objs bl' fo' \<longrightarrow> cc_mem c' a = cc_mem c a)"
proof -
  have i: "i < NFREELIST" and b: "bucket_head sz c = Inr (spanlist c i)"
    using bucket_head_class [OF sz] by (simp_all add: i_def)
  have cls: "class_index (unat sz) = i" by (simp add: i_def)
  obtain sp c1 fr1 bl1 fo1 ho1 where
    g: "\<forall>fuel>length (bl i). get_one_Span fuel sbrk (spanlist c i) sz c = Inr (sp, c1)"
      "cc_inv brk c1 fr1 bl1 fo1 ho1" "sp \<in> set (bl1 i)" "fo1 sp \<noteq> []" "held bl1 ho1 = held bl ho"
      "spanlist c1 = spanlist c" "obj_sizes c1 bl1 \<subseteq> insert (unat sz) (obj_sizes c bl)"
      "\<forall>a. a \<notin> free_objs bl1 fo1 \<longrightarrow> cc_mem c1 a = cc_mem c a"
    using cc_get [OF inv i law room sz cls] by blast
  have g0: "get_one_Span (Suc (length (bl i))) sbrk (spanlist c i) sz c = Inr (sp, c1)" using g(1) by blast
  obtain xs c2 fo2 ho2 where
    t: "fetch_range_obj (Suc (length (bl i))) sbrk Num sz c = Inr (hd xs, last xs, length xs, c2)"
      "cc_inv brk c2 fr1 bl1 fo2 ho2" "held bl1 ho2 = (held bl1 ho1)(i := held bl1 ho1 i \<union> set xs)"
      "chain (cc_mem c2) (hd xs) xs 0" "distinct xs" "xs \<noteq> []" "length xs \<le> Num"
      "\<forall>j. set xs \<inter> held bl1 ho1 j = {}" "spanlist c2 = spanlist c1" "obj_sizes c2 bl1 = obj_sizes c1 bl1"
      "\<forall>a. a \<notin> set xs \<union> free_objs bl1 fo2 \<longrightarrow> cc_mem c2 a = cc_mem c1 a"
      "free_objs bl1 fo1 \<subseteq> set xs \<union> free_objs bl1 fo2"
    using cc_take_objs [OF g(2) i g(3,4) b g0 num] by blast
  have "\<forall>fuel>length (bl i). fetch_range_obj fuel sbrk Num sz c = Inr (hd xs, last xs, length xs, c2)"
  proof (intro allI impI)
    fix fuel assume "length (bl i) < fuel"
    then have "get_one_Span fuel sbrk (spanlist c i) sz c = get_one_Span (Suc (length (bl i))) sbrk (spanlist c i) sz c"
      using g(1) g0 by simp
    then show "fetch_range_obj fuel sbrk Num sz c = Inr (hd xs, last xs, length xs, c2)"
      using t(1) unfolding fetch_range_obj_def b bindR_simps by simp
  qed
  moreover have "\<forall>a. a \<notin> set xs \<union> free_objs bl1 fo2 \<longrightarrow> cc_mem c2 a = cc_mem c a"
  proof (intro allI impI)
    fix a assume a: "a \<notin> set xs \<union> free_objs bl1 fo2"
    then have "a \<notin> free_objs bl1 fo1" using t(12) by (meson subsetD)
    then show "cc_mem c2 a = cc_mem c a" using t(11) g(8) a by simp
  qed
  moreover have "obj_sizes c2 bl1 \<subseteq> insert (unat sz) (obj_sizes c bl)" unfolding t(10) by (rule g(7))
  ultimately show ?thesis
    using t(2-9) unfolding g(5,6)
    by (intro exI [of _ xs] exI [of _ c2] exI [of _ fr1] exI [of _ bl1] exI [of _ fo2] exI [of _ ho2] conjI) assumption+
qed

section \<open>Giving back\<close>

text \<open>An object of the \<open>i\<close>-th class that has been handed out and that the page map leads to its span.\<close>

definition owned :: "'o central_cache \<Rightarrow> (nat \<Rightarrow> addr list) \<Rightarrow> (addr \<Rightarrow> addr list) \<Rightarrow> nat \<Rightarrow> addr \<Rightarrow> bool" where
  "owned c bl ho i x \<longleftrightarrow>
     (\<exists>sp\<in>set (bl i). x \<in> set (ho sp) \<and> get_span (x div PAGE_SIZE) (id_span_map (cc_page c)) = sp)"

text \<open>An object goes back to a span of which others are in use.\<close>

lemma cc_put_back:
  assumes inv: "cc_inv brk c fr bl fo ho" and i: "i < NFREELIST" "sp \<in> set (bl i)" and x: "x \<in> set (ho sp)" "x \<noteq> 0"
    and u: "1 < usecount (cc_spans c sp)"
  shows "cc_inv brk (put_back sp x c) fr bl (fo(sp := x # fo sp)) (ho(sp := remove1 x (ho sp)))"
    "usecount (cc_spans (put_back sp x c) sp) \<noteq> 0"
proof -
  let ?s = "cc_spans c sp" and ?c = "put_back sp x c"
  have U: "sp \<in> set (used_spans bl)" by (rule in_used [of i sp bl, OF i])
  have ok: "span_ok (cc_mem c) ?s (fo sp) (ho sp)" by (rule cc_invD(3) [OF inv U])
  have "usecount ?s < size_mod" using span_ok_count [OF ok] cc_invD(7) [OF inv U] ok by (simp add: span_ok_def)
  then have dec: "szsub (usecount ?s) 1 = usecount ?s - 1" using u by (simp add: szsub_exact)
  then show "usecount (cc_spans ?c sp) \<noteq> 0" using u by simp
  let ?t = "?s\<lparr>objlist := x, usecount := usecount ?s - 1\<rparr>"
  have d: "distinct (fo sp)" "distinct (ho sp)" "x \<notin> set (fo sp)" "set (fo sp) \<inter> set (ho sp) = {}"
    using ok x(1) by (auto simp: span_ok_def)
  have "distinct ((x # fo sp) @ remove1 x (ho sp))" using d by auto
  moreover have "set ((x # fo sp) @ remove1 x (ho sp)) = set (fo sp @ ho sp)" using d(2) x(1) by auto
  moreover have "length (remove1 x (ho sp)) = usecount ?s - 1" using ok x(1) by (simp add: span_ok_def length_remove1)
  moreover have "chain (cc_mem ?c) x (x # fo sp) 0" using ok x(2) d(3) by (simp add: span_ok_def)
  moreover have "pages ?t = pages ?s" by (simp add: pages_def)
  ultimately have t: "span_ok (cc_mem ?c) ?t (x # fo sp) (remove1 x (ho sp))"
    using ok unfolding span_ok_def by simp
  show "cc_inv brk ?c fr bl (fo(sp := x # fo sp)) (ho(sp := remove1 x (ho sp)))"
    by (rule cc_inv_local [OF inv U _ _ _ _ _ _ _ _ t]) (use dec x(1) in \<open>auto simp: put_back_def\<close>)
qed

text \<open>The last one goes back, and the span to the page cache.\<close>

lemma cc_inv_pop:
  assumes inv: "cc_inv brk c fr bl fo ho" and i: "i < NFREELIST" "bl i = as @ sp # bs" and x: "x \<in> set (ho sp)"
    and pc: "pc_inv brk (cc_page c') fr' (used_spans (bl(i := as @ bs))) (bucket_heads c)"
    and c': "cc_mem c' = (cc_mem c)(x := objlist (cc_spans c sp))" "spanlist c' = spanlist c"
    and h: "sl_rep h (spanlist c i) (as @ bs)" "same_data (cc_spans (put_back sp x c)) h"
      "\<forall>p. p \<notin> set (spanlist c i # as @ bs) \<longrightarrow> h p = cc_spans (put_back sp x c) p"
      "\<forall>p\<in>set (used_spans (bl(i := as @ bs)) @ bucket_heads c). p \<noteq> sp \<longrightarrow> cc_spans c' p = h p"
  shows "cc_inv brk c' fr' (bl(i := as @ bs)) fo ho"
  unfolding cc_inv_def c'(2)
proof (intro conjI allI impI ballI)
  let ?bl = "bl(i := as @ bs)"
  let ?U = "used_spans ?bl" and ?E = "bucket_heads c"
  show "pc_inv brk (cc_page c') fr' ?U ?E" by (rule pc)
  have m: "mset (sp # ?U) = mset (used_spans bl)" by (rule mset_used_remove [of i NFREELIST bl, OF i])
  have spU: "sp \<in> set (used_spans bl)" using mset_eq_setD [OF m] by (metis list.set_intros(1))
  have "distinct (used_spans bl @ ?E)" using cc_invD(4) [OF inv] by simp
  moreover have "mset (used_spans bl @ ?E) = mset (sp # ?U @ ?E)" using m by simp
  ultimately have "distinct (sp # ?U @ ?E)" using mset_eq_imp_distinct_iff by blast
  then have spn: "sp \<notin> set (?U @ ?E)" by simp
  have eq: "cc_spans c' p = h p" if "p \<in> set (?U @ ?E)" for p
  proof -
    have "p \<noteq> sp" using that spn by metis
    then show ?thesis using h(4) that by blast
  qed
  show "sl_rep (cc_spans c') (spanlist c j) (?bl j)" if j: "j < NFREELIST" for j
  proof -
    have sub: "set (spanlist c j # ?bl j) \<subseteq> set (?U @ ?E)" using j by auto
    have "sl_rep h (spanlist c j) (?bl j)"
    proof (cases "j = i")
      case False
      have "h p = cc_spans c p" if p: "p \<in> set (spanlist c j # bl j)" for p
      proof -
        have "p \<notin> set (spanlist c i # bl i)" using cc_inv_buckets_apart [OF inv i(1) j] False p by blast
        then have "p \<notin> set (spanlist c i # as @ bs)" "p \<noteq> sp" unfolding i(2) by simp_all
        then show ?thesis using h(3) by simp
      qed
      then have "same_links (cc_spans c) h (set (spanlist c j # bl j))" by (simp add: same_links_def)
      then show ?thesis using cc_invD(2) [OF inv j] sl_rep_cong False by simp
    qed (use h(1) in simp)
    moreover have "cc_spans c' p = h p" if "p \<in> set (spanlist c j # ?bl j)" for p
      by (rule eq [OF subsetD [OF sub that]])
    then have "same_links h (cc_spans c') (set (spanlist c j # ?bl j))" unfolding same_links_def by metis
    ultimately show ?thesis using sl_rep_cong by blast
  qed
  show "span_ok (cc_mem c') (cc_spans c' p) (fo p) (ho p)" if p: "p \<in> set ?U" for p
  proof -
    have pU: "p \<in> set (used_spans bl)" "p \<noteq> sp"
      using p spn mset_eq_setD [OF m] by (metis list.set_intros(2), metis Un_iff set_append)
    have old: "span_ok (cc_mem c) (cc_spans c p) (fo p) (ho p)" by (rule cc_invD(3) [OF inv pU(1)])
    have "x \<notin> set (fo p)" using cc_inv_apart [OF inv pU(1) spU, of x] x pU(2) by auto
    moreover have "cc_spans c' p = h p" using p by (intro eq) simp
    moreover have "pages (h p) = pages (cc_spans c p)" using h(2) pU(2) by (simp add: same_data_def pages_def)
    ultimately show ?thesis using old h(2) pU(2) c'(1) by (simp add: span_ok_def same_data_def)
  qed
  show "class_ok j (cc_spans c' p)" if j: "j < NFREELIST" "p \<in> set (?bl j)" for j p
  proof -
    have p: "p \<in> set (bl j)" using j(2) i(2) by (auto split: if_splits)
    have pU: "p \<in> set ?U" by (rule in_used [of j p ?bl, OF j])
    then have "p \<noteq> sp" using spn by (metis Un_iff set_append)
    moreover have "cc_spans c' p = h p" using pU by (intro eq) simp
    ultimately show ?thesis using h(2) cc_invD(8) [OF inv j(1) p] by (simp add: same_data_def class_ok_def)
  qed
qed

lemma held_pop:
  assumes inv: "cc_inv brk c fr bl fo ho" and i: "i < NFREELIST" "bl i = as @ sp # bs" and x: "ho sp = [x]"
  shows "held (bl(i := as @ bs)) ho = (held bl ho)(i := held bl ho i - {x})"
proof
  fix j
  have "sp \<notin> set (as @ bs)" using cc_invD(2) [OF inv i(1)] by (auto simp: sl_rep_def i(2))
  then have "x \<notin> set (ho p)" if "p \<in> set (as @ bs)" for p
    using cc_inv_apart [OF inv in_used [of i p bl] in_used [of i sp bl], of x] that i x by auto
  then show "held (bl(i := as @ bs)) ho j = ((held bl ho)(i := held bl ho i - {x})) j"
    using i x by (auto simp: held_def)
qed

lemma cc_release_last:
  assumes inv: "cc_inv brk c fr bl fo ho" and i: "i < NFREELIST" "bl i = as @ sp # bs"
    and x: "ho sp = [x]" "x \<noteq> 0" "get_span (x div PAGE_SIZE) (id_span_map (cc_page c)) = sp"
  shows "\<exists>c' fr'. release_obj bk (spanlist c i) x c = Inr c' \<and>
    cc_inv brk c' fr' (bl(i := as @ bs)) fo ho \<and> spanlist c' = spanlist c \<and>
    (\<forall>a. a \<noteq> x \<longrightarrow> cc_mem c' a = cc_mem c a) \<and>
    (\<forall>p\<in>set (used_spans (bl(i := as @ bs))). \<forall>k\<in>pages (cc_spans c p).
       get_span k (id_span_map (cc_page c')) = get_span k (id_span_map (cc_page c)))"
proof -
  let ?U = "used_spans (bl(i := as @ bs))" and ?E = "bucket_heads c" and ?hp = "spanlist c i"
  let ?N = "set (nodes (pagelist (cc_page c)) fr)"
  have m: "mset (sp # ?U) = mset (used_spans bl)" by (rule mset_used_remove [of i NFREELIST bl, OF i])
  have sub: "set ?U \<subseteq> set (used_spans bl)" using mset_eq_setD [OF m] by (metis set_subset_Cons)
  have U: "sp \<in> set (used_spans bl)" by (rule in_used [of i sp bl]) (simp_all add: i)
  have pc: "pc_inv brk (cc_page c) fr (sp # ?U) ?E" by (rule pc_inv_perm [OF cc_invD(1) [OF inv] m [symmetric]])
  have used: "\<forall>p\<in>set ?U. isUse (cc_spans c p)" using cc_invD(3) [OF inv] sub unfolding span_ok_def by blast
  have rep: "sl_rep (cc_spans c) ?hp (as @ sp # bs)" using cc_invD(2) [OF inv i(1)] i(2) by simp
  have "set (?hp # as @ bs) \<subseteq> set (used_spans bl @ ?E)" using i in_used [of i _ bl] by auto
  moreover have "set (used_spans bl @ ?E) \<inter> ?N = {}" using cc_invD(4) [OF inv] by auto
  ultimately have apart: "set (?hp # as @ bs) \<inter> ?N = {}" by blast
  have mo: "map_object_to_Span x (cc_page c) = Inr sp"
    using x(3) cc_invD(5) [OF inv U] by (simp add: map_object_to_Span_def)
  have one: "usecount (cc_spans c sp) = 1" using cc_invD(3) [OF inv U] x(1) by (simp add: span_ok_def)
  obtain c' fr' h where c': "release_obj bk ?hp x c = Inr c'" "pc_inv brk (cc_page c') fr' ?U ?E"
      "cc_mem c' = (cc_mem c)(x := objlist (cc_spans c sp))" "spanlist c' = spanlist c"
      "sl_rep h ?hp (as @ bs)" "same_data (cc_spans (put_back sp x c)) h"
      "\<forall>p. p \<notin> set (?hp # as @ bs) \<longrightarrow> h p = cc_spans (put_back sp x c) p"
      "\<forall>p\<in>set (?U @ ?E). p \<noteq> sp \<longrightarrow> cc_spans c' p = h p"
      "\<forall>p\<in>set ?U. \<forall>k\<in>pages (cc_spans c p).
         get_span k (id_span_map (cc_page c')) = get_span k (id_span_map (cc_page c))"
    using release_last [OF pc used rep apart mo x(2) one, of bk] by blast
  have xs: "x \<in> set (ho sp)" by (simp add: x(1))
  have "cc_inv brk c' fr' (bl(i := as @ bs)) fo ho"
    by (rule cc_inv_pop [OF inv i xs c'(2-8)])
  then show ?thesis using c'(1,3,4,9) by auto
qed

lemma cc_release_obj:
  assumes inv: "cc_inv brk c fr bl fo ho" and i: "i < NFREELIST" and x: "owned c bl ho i x" "x \<noteq> 0"
  shows "\<exists>c' fr' bl' fo' ho'. release_obj bk (spanlist c i) x c = Inr c' \<and> cc_inv brk c' fr' bl' fo' ho' \<and>
    held bl' ho' = (held bl ho)(i := held bl ho i - {x}) \<and> spanlist c' = spanlist c \<and>
    (\<forall>a. a \<noteq> x \<longrightarrow> cc_mem c' a = cc_mem c a) \<and> (\<forall>y. y \<noteq> x \<longrightarrow> owned c bl ho i y \<longrightarrow> owned c' bl' ho' i y)"
proof -
  obtain sp where sp: "sp \<in> set (bl i)" "x \<in> set (ho sp)" "get_span (x div PAGE_SIZE) (id_span_map (cc_page c)) = sp"
    using x(1) by (auto simp: owned_def)
  have U: "sp \<in> set (used_spans bl)" by (rule in_used [of i sp bl, OF i sp(1)])
  have ok: "span_ok (cc_mem c) (cc_spans c sp) (fo sp) (ho sp)" by (rule cc_invD(3) [OF inv U])
  have len: "usecount (cc_spans c sp) = length (ho sp)" using ok by (simp add: span_ok_def)
  have d: "distinct (ho sp)" using ok by (simp add: span_ok_def)
  show ?thesis
  proof (cases "1 < usecount (cc_spans c sp)")
    case True
    note put = cc_put_back [OF inv i sp(1,2) x(2) True]
    have "map_object_to_Span x (cc_page c) = Inr sp"
      using sp(3) cc_invD(5) [OF inv U] by (simp add: map_object_to_Span_def)
    then have "release_obj bk (spanlist c i) x c = Inr (put_back sp x c)"
      using release_obj_eq [OF _ cc_invD(5) [OF inv U] x(2), of c] put(2) by simp
    moreover have "owned (put_back sp x c) bl (ho(sp := remove1 x (ho sp))) i y" if "y \<noteq> x" "owned c bl ho i y" for y
      using that by (auto simp: owned_def)
    ultimately show ?thesis
      using put(1) held_remove [OF inv i sp(1,2)]
      by (intro exI [of _ "put_back sp x c"] exI [of _ fr] exI [of _ bl] exI [of _ "fo(sp := x # fo sp)"]
          exI [of _ "ho(sp := remove1 x (ho sp))"] conjI) simp_all
  next
    case False
    then have one: "ho sp = [x]" using len sp(2) by (cases "ho sp") auto
    obtain as bs where b: "bl i = as @ sp # bs" using sp(1) by (meson split_list)
    obtain c' fr' where c': "release_obj bk (spanlist c i) x c = Inr c'"
        "cc_inv brk c' fr' (bl(i := as @ bs)) fo ho" "spanlist c' = spanlist c"
        "\<forall>a. a \<noteq> x \<longrightarrow> cc_mem c' a = cc_mem c a"
        "\<forall>p\<in>set (used_spans (bl(i := as @ bs))). \<forall>k\<in>pages (cc_spans c p).
           get_span k (id_span_map (cc_page c')) = get_span k (id_span_map (cc_page c))"
      using cc_release_last [where bl = bl, OF inv i b one x(2) sp(3)] by blast
    have "owned c' (bl(i := as @ bs)) ho i y" if y: "y \<noteq> x" "owned c bl ho i y" for y
    proof -
      obtain p where p: "p \<in> set (bl i)" "y \<in> set (ho p)" "get_span (y div PAGE_SIZE) (id_span_map (cc_page c)) = p"
        using y(2) by (auto simp: owned_def)
      have "p \<noteq> sp" using p(2) one y(1) by auto
      then have q: "p \<in> set ((bl(i := as @ bs)) i)" using p(1) b by auto
      have "y div PAGE_SIZE \<in> pages (cc_spans c p)"
        using cc_invD(3) [OF inv in_used [of i p bl, OF i p(1)]] p(2) by (simp add: span_ok_def)
      then have "get_span (y div PAGE_SIZE) (id_span_map (cc_page c')) = p"
        using c'(5) in_used [of i p "bl(i := as @ bs)", OF i q] p(3) by metis
      then show ?thesis using q p(2) unfolding owned_def by blast
    qed
    then show ?thesis using c'(1-4) held_pop [where bl = bl, OF inv i b one] by blast
  qed
qed

text \<open>The loop over the chain.\<close>

lemma cc_release_loop:
  assumes "cc_inv brk c fr bl fo ho" "i < NFREELIST" "chain (cc_mem c) p xs 0" "distinct xs"
    "\<forall>x\<in>set xs. owned c bl ho i x" "length xs < fuel"
  shows "\<exists>c' fr' bl' fo' ho'. release_loop fuel bk (spanlist c i) p c = Inr c' \<and> cc_inv brk c' fr' bl' fo' ho' \<and>
    held bl' ho' = (held bl ho)(i := held bl ho i - set xs) \<and> spanlist c' = spanlist c"
  using assms
proof (induction xs arbitrary: p c fr bl fo ho fuel)
  case Nil
  then obtain f where "fuel = Suc f" by (cases fuel) auto
  then show ?case using Nil by (intro exI [of _ c] exI [of _ fr] exI [of _ bl] exI [of _ fo] exI [of _ ho]) simp
next
  case (Cons x xs)
  obtain f where f: "fuel = Suc f" "length xs < f" using Cons.prems(6) by (cases fuel) auto
  have x: "p = x" "x \<noteq> 0" "chain (cc_mem c) (cc_mem c x) xs 0" "x \<notin> set xs" using Cons.prems(3,4) by auto
  have ox: "owned c bl ho i x" and dxs: "distinct xs" using Cons.prems(4,5) by simp_all
  obtain c1 fr1 bl1 fo1 ho1 where c1: "release_obj bk (spanlist c i) x c = Inr c1" "cc_inv brk c1 fr1 bl1 fo1 ho1"
      "held bl1 ho1 = (held bl ho)(i := held bl ho i - {x})" "spanlist c1 = spanlist c"
      "\<forall>a. a \<noteq> x \<longrightarrow> cc_mem c1 a = cc_mem c a" "\<forall>y. y \<noteq> x \<longrightarrow> owned c bl ho i y \<longrightarrow> owned c1 bl1 ho1 i y"
    using cc_release_obj [OF Cons.prems(1,2) ox x(2), of bk] by blast
  have "chain (cc_mem c1) (cc_mem c x) xs 0"
    using x(3,4) c1(5) by (subst chain_frame [where m = "cc_mem c"]) auto
  moreover have "\<forall>y\<in>set xs. owned c1 bl1 ho1 i y" using c1(6) Cons.prems(5) x(4) by auto
  ultimately obtain c' fr' bl' fo' ho' where c': "release_loop f bk (spanlist c1 i) (cc_mem c x) c1 = Inr c'"
      "cc_inv brk c' fr' bl' fo' ho'" "held bl' ho' = (held bl1 ho1)(i := held bl1 ho1 i - set xs)"
      "spanlist c' = spanlist c1"
    using Cons.IH [OF c1(2) Cons.prems(2) _ dxs _ f(2)] by blast
  have "release_loop fuel bk (spanlist c i) p c = Inr c'"
    using x(1,2) c1(1,4) c'(1) by (simp add: f(1) NEXT_OBJ_def)
  moreover have "held bl' ho' = (held bl ho)(i := held bl ho i - set (x # xs))"
  proof -
    have "held bl ho i - {x} - set xs = held bl ho i - set (x # xs)" by auto
    then show ?thesis unfolding c'(3) c1(3) by simp
  qed
  moreover have "spanlist c' = spanlist c" using c'(4) c1(4) by simp
  ultimately show ?case using c'(2) by blast
qed

end
