(* ===== verification/CentralLife.thy ===== *)
theory CentralLife
  imports CentralSafe
begin

text \<open>
  The life of the central cache and the page cache below it: construction, then any sequence of
  \<^verbatim>\<open>fetch_range_obj\<close>, \<^verbatim>\<open>release_list_to_Spans\<close> and writes by those who hold objects.
\<close>

section \<open>More rounds do not change a result\<close>

lemma fetch_range_obj_mono:
  assumes "fetch_range_obj f sbrk Num sz c = Inr r" "f \<le> f'"
  shows "fetch_range_obj f' sbrk Num sz c = Inr r"
proof (cases "bucket_head sz c")
  case (Inr hp)
  show ?thesis
    using assms(1) get_one_Span_mono [OF _ assms(2)]
    unfolding fetch_range_obj_def Inr bindR_simps by (elim bindR_mono) blast
qed (use assms(1) in \<open>simp add: fetch_range_obj_def\<close>)

lemma release_loop_mono:
  "release_loop f bk hp p c = Inr r \<Longrightarrow> f \<le> f' \<Longrightarrow> release_loop f' bk hp p c = Inr r"
proof (induction f arbitrary: p c f')
  case (Suc f)
  obtain g where g: "f' = Suc g" "f \<le> g" using Suc.prems(2) by (cases f') simp_all
  show ?case
    using Suc.prems(1) Suc.IH [OF _ g(2)] by (auto simp: g(1) bindR_eq_Inr split: if_splits)
qed simp

section \<open>Construction\<close>

lemma CentralCache_new_ok:
  assumes q: "pc_inv brk q fr [] (map sl [0..<NFREELIST])"
  shows "\<exists>c. CentralCache_new sl m q = Inr c \<and> cc_inv brk c fr (\<lambda>_. []) (\<lambda>_. []) (\<lambda>_. []) \<and> pc_os (cc_page c) = pc_os q"
proof -
  let ?E = "map sl [0..<NFREELIST]"
  have st: "pc_st brk q fr [] ?E {}" using q by (simp add: pc_inv_def)
  have d: "distinct ?E" "\<forall>i\<in>set [0..<NFREELIST]. sl i \<noteq> 0" using pc_stD(6,7) [OF st] by fastforce+
  obtain h where h: "foldR (\<lambda>i. SpanList_new (sl i)) [0..<NFREELIST] (pc_spans q) = Inr h"
      "\<forall>i\<in>set [0..<NFREELIST]. sl_rep h (sl i) []" "\<forall>a. a \<notin> sl ` set [0..<NFREELIST] \<longrightarrow> h a = pc_spans q a"
    using new_heads [OF d(2,1), of "pc_spans q"] by blast
  define c where "c = \<lparr>cc_mem = m, spanlist = sl, cc_page = q\<lparr>pc_spans := h\<rparr>\<rparr>"
  have out: "h p = pc_spans q p" if "p \<notin> set ([] @ ?E)" for p using h(3) that by simp
  have g: "p \<notin> set ?E" if "p \<in> frees fr" for p
    using pc_stD(6) [OF st] that frees_nodes [of fr "pagelist q"] by auto
  have "geo h (id_span_map q) (frees fr \<union> set []) {}"
    using pc_stD(4) [OF st] geo_cong [of "frees fr \<union> set []" h "pc_spans q"] out g by simp
  then have "pc_st brk (q\<lparr>pc_spans := h\<rparr>) fr [] ?E {}"
    by (intro pc_st_fields [OF st out]) simp_all
  moreover have "idle (h p)" if "p \<in> frees fr" for p using out [of p] g [OF that] q that by (simp add: pc_inv_def)
  ultimately have "pc_inv brk (q\<lparr>pc_spans := h\<rparr>) fr [] ?E" by (simp add: pc_inv_def)
  moreover have none: "used_spans (\<lambda>_. []) = ([] :: addr list)" by simp
  ultimately have "cc_inv brk c fr (\<lambda>_. []) (\<lambda>_. []) (\<lambda>_. [])"
    using h(2) unfolding cc_inv_def none by (simp add: c_def cc_spans_def)
  then show ?thesis using h(1) by (auto simp: CentralCache_new_def c_def)
qed

section \<open>Reachable states\<close>

text \<open>
  \<open>mapped c i x\<close>: \<^verbatim>\<open>map_object_to_Span\<close> leads from the object \<open>x\<close> to a span of the \<open>i\<close>-th bucket that its page
  belongs to. It is a condition on the release of objects, because a span of several pages that
  \<^verbatim>\<open>new_Span\<close> takes from the bucket of its own size is entered under its first page only.
\<close>

definition mapped :: "'o central_cache \<Rightarrow> nat \<Rightarrow> addr \<Rightarrow> bool" where
  "mapped c i x \<longleftrightarrow>
     (\<exists>ps. sl_rep (cc_spans c) (spanlist c i) ps \<and>
        (let sp = get_span (x div PAGE_SIZE) (id_span_map (cc_page c))
         in sp \<in> set ps \<and> x div PAGE_SIZE \<in> pages (cc_spans c sp)))"

text \<open>
  \<open>H i\<close> are the objects of the \<open>i\<close>-th class that have been handed out. Their holders may link them into
  lists of their own, that is write to their first word; room for another 128 pages below \<open>2 ^ 48\<close> is
  assumed at each fetch.
\<close>

inductive cc_reach ::
    "('o \<Rightarrow> nat) \<Rightarrow> 'o sbrk \<Rightarrow> (addr \<Rightarrow> 'o \<Rightarrow> 'o) \<Rightarrow> 'o central_cache \<Rightarrow> (nat \<Rightarrow> addr set) \<Rightarrow> bool"
  for brk sbrk bk where
  cc_start: "heads_ok (brk os) pl (map sl [0..<NFREELIST]) \<Longrightarrow> PAGE_SIZE dvd brk os \<Longrightarrow>
    PageCache_new pl h os = Inr q \<Longrightarrow> CentralCache_new sl m q = Inr c \<Longrightarrow> cc_reach brk sbrk bk c (\<lambda>_. {})"
| cc_fetches: "cc_reach brk sbrk bk c H \<Longrightarrow> 0 < unat sz \<Longrightarrow> unat sz \<le> 262144 \<Longrightarrow> 0 < Num \<Longrightarrow> Num < size_mod \<Longrightarrow>
    brk (pc_os (cc_page c)) + 131072 + 2 ^ 33 \<le> 2 ^ 48 \<Longrightarrow>
    fetch_range_obj fuel sbrk Num sz c = Inr (s, e, n, c') \<Longrightarrow> chain (cc_mem c') s xs 0 \<Longrightarrow>
    index sz = Inr i \<Longrightarrow> cc_reach brk sbrk bk c' (H(unat i := H (unat i) \<union> set xs))"
| cc_releases: "cc_reach brk sbrk bk c H \<Longrightarrow> 0 < unat sz \<Longrightarrow> unat sz \<le> 262144 \<Longrightarrow> index sz = Inr i \<Longrightarrow>
    chain (cc_mem c) p xs 0 \<Longrightarrow> distinct xs \<Longrightarrow> set xs \<subseteq> H (unat i) \<Longrightarrow> \<forall>x\<in>set xs. mapped c (unat i) x \<Longrightarrow>
    release_list_to_Spans fuel bk p sz c = Inr c' \<Longrightarrow>
    cc_reach brk sbrk bk c' (H(unat i := H (unat i) - set xs))"
| cc_writes: "cc_reach brk sbrk bk c H \<Longrightarrow> a \<in> H i \<Longrightarrow>
    cc_reach brk sbrk bk (c\<lparr>cc_mem := (cc_mem c)(a := v)\<rparr>) H"

lemma linked_unique:
  "linked h (p # xs @ [hp]) \<Longrightarrow> linked h (p # ys @ [hp]) \<Longrightarrow> hp \<notin> set xs \<Longrightarrow> hp \<notin> set ys \<Longrightarrow> xs = ys"
proof (induction xs arbitrary: p ys)
  case Nil
  then show ?case by (cases ys) auto
next
  case (Cons x xs)
  then show ?case by (cases ys) auto
qed

lemma sl_rep_unique: "sl_rep h hp xs \<Longrightarrow> sl_rep h hp ys \<Longrightarrow> xs = ys"
  by (rule linked_unique [of h hp _ hp]) (simp_all add: sl_rep_def)

lemma mapped_owned:
  assumes inv: "cc_inv brk c fr bl fo ho" and i: "i < NFREELIST" and x: "mapped c i x" "x \<in> held bl ho i"
  shows "owned c bl ho i x"
proof -
  let ?q = "get_span (x div PAGE_SIZE) (id_span_map (cc_page c))"
  obtain ps where ps: "sl_rep (cc_spans c) (spanlist c i) ps" "?q \<in> set ps" "x div PAGE_SIZE \<in> pages (cc_spans c ?q)"
    using x(1) by (auto simp: mapped_def Let_def)
  have q: "?q \<in> set (bl i)" using ps(2) sl_rep_unique [OF ps(1) cc_invD(2) [OF inv i]] by simp
  obtain p where p: "p \<in> set (bl i)" "x \<in> set (ho p)" using x(2) i by (auto simp: held_def)
  have "x div PAGE_SIZE \<in> pages (cc_spans c p)"
    using cc_invD(3) [OF inv in_used [of i p bl, OF i p(1)]] p(2) by (simp add: span_ok_def)
  then have "p = ?q"
    using cc_invD(6) [OF inv in_used [of i p bl, OF i p(1)] in_used [of i ?q bl, OF i q]] ps(3) by blast
  then show ?thesis using p by (auto simp: owned_def)
qed

lemma owned_mapped: "cc_inv brk c fr bl fo ho \<Longrightarrow> i < NFREELIST \<Longrightarrow> owned c bl ho i x \<Longrightarrow> mapped c i x"
  unfolding owned_def mapped_def Let_def
  using cc_invD(2,3) [of brk c fr bl fo ho] in_used [of i _ bl] by (fastforce simp: span_ok_def)

text \<open>An object of up to 24 bytes always finds its span.\<close>

lemma small_owned:
  assumes inv: "cc_inv brk c fr bl fo ho" and i: "i < 3" and x: "x \<in> held bl ho i"
  shows "owned c bl ho i x"
proof -
  have iN: "i < NFREELIST" using i by (simp add: NFREELIST_def)
  obtain p where p: "p \<in> set (bl i)" "x \<in> set (ho p)" using x iN by (auto simp: held_def)
  have U: "p \<in> set (used_spans bl)" by (rule in_used [of i p bl, OF iN p(1)])
  have "x div PAGE_SIZE \<in> pages (cc_spans c p)" using cc_invD(3) [OF inv U] p(2) by (simp add: span_ok_def)
  then have "x div PAGE_SIZE = first_page (cc_spans c p)"
    using class_ok_small [OF cc_invD(8) [OF inv iN p(1)] i] by (simp add: pages_def first_page_def)
  then have "get_span (x div PAGE_SIZE) (id_span_map (cc_page c)) = p"
    using pc_inv_pages(4) [OF cc_invD(1) [OF inv] U] by (simp add: cc_spans_def)
  then show ?thesis using p by (auto simp: owned_def)
qed

lemma index_class:
  "0 < unat sz \<Longrightarrow> unat sz \<le> 262144 \<Longrightarrow> index sz = Inr i \<Longrightarrow> unat i = class_index (unat sz) \<and> unat i < NFREELIST"
  using index_nat [of sz] class_index_bound [of "unat sz"] by auto

lemma release_list_ok:
  assumes inv: "cc_inv brk c fr bl fo ho" and sz: "0 < unat sz" "unat sz \<le> 262144" "index sz = Inr i"
    and xs: "chain (cc_mem c) p xs 0" "distinct xs" "set xs \<subseteq> held bl ho (unat i)"
      "\<forall>x\<in>set xs. mapped c (unat i) x" "length xs < fuel"
  shows "\<exists>c' fr' bl' fo' ho'. release_list_to_Spans fuel bk p sz c = Inr c' \<and> cc_inv brk c' fr' bl' fo' ho' \<and>
    held bl' ho' = (held bl ho)(unat i := held bl ho (unat i) - set xs)"
proof -
  have i: "unat i = class_index (unat sz)" "unat i < NFREELIST" using index_class [OF sz] by simp_all
  have b: "bucket_head sz c = Inr (spanlist c (unat i))" using bucket_head_class(1) [OF sz(1,2)] i(1) by simp
  have "\<forall>x\<in>set xs. owned c bl ho (unat i) x" using mapped_owned [OF inv i(2)] xs(3,4) by blast
  from cc_release_loop [OF inv i(2) xs(1,2) this xs(5), of bk] show ?thesis
    unfolding release_list_to_Spans_def b bindR_simps by blast
qed

lemma cc_fetch_result:
  assumes inv: "cc_inv brk c fr bl fo ho" and law: "sbrk_law sbrk brk"
    and room: "brk (pc_os (cc_page c)) + 131072 + 2 ^ 33 \<le> 2 ^ 48" and sz: "0 < unat sz" "unat sz \<le> 262144"
    and num: "0 < Num" "Num < size_mod"
    and run: "fetch_range_obj fuel sbrk Num sz c = Inr (s, e, n, c')" "chain (cc_mem c') s xs 0"
  defines "i \<equiv> class_index (unat sz)"
  shows "\<exists>fr' bl' fo' ho'. cc_inv brk c' fr' bl' fo' ho' \<and>
    held bl' ho' = (held bl ho)(i := held bl ho i \<union> set xs) \<and> distinct xs \<and> (\<forall>j. set xs \<inter> held bl ho j = {})"
proof -
  obtain ys c1 fr' bl' fo' ho' where f:
      "\<forall>fuel>length (bl i). fetch_range_obj fuel sbrk Num sz c = Inr (hd ys, last ys, length ys, c1)"
      "cc_inv brk c1 fr' bl' fo' ho'" "held bl' ho' = (held bl ho)(i := held bl ho i \<union> set ys)"
      "chain (cc_mem c1) (hd ys) ys 0" "distinct ys" "\<forall>j. set ys \<inter> held bl ho j = {}"
    unfolding i_def using cc_fetch [OF inv law room sz num] by blast
  have "fetch_range_obj (Suc (fuel + length (bl i))) sbrk Num sz c = Inr (s, e, n, c')"
    by (rule fetch_range_obj_mono [OF run(1)]) simp
  moreover have "fetch_range_obj (Suc (fuel + length (bl i))) sbrk Num sz c = Inr (hd ys, last ys, length ys, c1)"
    by (rule f(1) [rule_format]) simp
  ultimately have e: "c' = c1" "s = hd ys" by simp_all
  then have "xs = ys" using chain_unique [OF run(2)] f(4) by simp
  then show ?thesis using f(2,3,5,6) e(1) by blast
qed

text \<open>The holder of an object may write to it.\<close>

lemma cc_inv_write:
  assumes inv: "cc_inv brk c fr bl fo ho" and a: "a \<in> held bl ho i"
  shows "cc_inv brk (c\<lparr>cc_mem := (cc_mem c)(a := v)\<rparr>) fr bl fo ho"
proof -
  obtain p where p: "i < NFREELIST" "p \<in> set (bl i)" "a \<in> set (ho p)"
    using a by (auto simp: held_def split: if_splits)
  have U: "p \<in> set (used_spans bl)" by (rule in_used [of i p bl, OF p(1,2)])
  have ok: "span_ok (cc_mem c) (cc_spans c p) (fo p) (ho p)" by (rule cc_invD(3) [OF inv U])
  then have "a \<notin> set (fo p)" using p(3) by (auto simp: span_ok_def)
  with ok have "span_ok ((cc_mem c)(a := v)) (cc_spans c p) (fo p) (ho p)" by (simp add: span_ok_def)
  then have "cc_inv brk (c\<lparr>cc_mem := (cc_mem c)(a := v)\<rparr>) fr bl (fo(p := fo p)) (ho(p := ho p))"
    using p(3) by (intro cc_inv_local [OF inv U]) (auto simp: cc_spans_def)
  then show ?thesis by simp
qed

lemma cc_reach_inv:
  assumes "cc_reach brk sbrk bk c H" "sbrk_law sbrk brk"
  shows "\<exists>fr bl fo ho. cc_inv brk c fr bl fo ho \<and> H = held bl ho"
  using assms
proof (induction rule: cc_reach.induct)
  case (cc_start os pl sl h q m c)
  obtain q' where "PageCache_new pl h os = Inr q'" "pc_inv brk q' (\<lambda>_. []) [] (map sl [0..<NFREELIST])"
    using PageCache_new_ok [where brk = brk, OF cc_start(1,2), of h] by blast
  then have "cc_inv brk c (\<lambda>_. []) (\<lambda>_. []) (\<lambda>_. []) (\<lambda>_. [])"
    using CentralCache_new_ok [of brk q "\<lambda>_. []" sl m] cc_start(3,4) by auto
  moreover have "(\<lambda>_. {}) = held (\<lambda>_. []) (\<lambda>_. [])" by (simp add: held_def fun_eq_iff)
  ultimately show ?case by blast
next
  case (cc_fetches c H sz Num fuel s e n c' xs i)
  then obtain fr bl fo ho where inv: "cc_inv brk c fr bl fo ho" "H = held bl ho" by blast
  have i: "unat i = class_index (unat sz)" using index_class cc_fetches.hyps by blast
  show ?case
    using cc_fetch_result [OF inv(1) cc_fetches.prems cc_fetches.hyps(6,2-5,7,8)] unfolding i [symmetric] inv(2) by metis
next
  case (cc_releases c H sz i p xs fuel c')
  then obtain fr bl fo ho where inv: "cc_inv brk c fr bl fo ho" "H = held bl ho" by blast
  have sub: "set xs \<subseteq> held bl ho (unat i)" using cc_releases.hyps(7) inv(2) by simp
  have "length xs < Suc (fuel + length xs)" by simp
  from release_list_ok [OF inv(1) cc_releases.hyps(2-6) sub cc_releases.hyps(8) this, of bk]
  obtain c1 fr' bl' fo' ho' where r: "release_list_to_Spans (Suc (fuel + length xs)) bk p sz c = Inr c1"
      "cc_inv brk c1 fr' bl' fo' ho'" "held bl' ho' = (held bl ho)(unat i := held bl ho (unat i) - set xs)"
    by blast
  obtain hp where hp: "bucket_head sz c = Inr hp" using bucket_head_class(1) [OF cc_releases.hyps(2,3)] by blast
  have "release_list_to_Spans (Suc (fuel + length xs)) bk p sz c = Inr c'"
    using cc_releases.hyps(9) release_loop_mono [of fuel bk hp p c c' "Suc (fuel + length xs)"]
    unfolding release_list_to_Spans_def hp bindR_simps by simp
  then have "c' = c1" using r(1) by simp
  then show ?case using r(2) unfolding inv(2) by (metis r(3))
next
  case (cc_writes c H a i v)
  then obtain fr bl fo ho where inv: "cc_inv brk c fr bl fo ho" "H = held bl ho" by blast
  then show ?case using cc_inv_write [of brk c fr bl fo ho a i v] cc_writes.hyps(2) by auto
qed

section \<open>The interface: a source of objects\<close>

text \<open>
  What the thread caches rely on: a batch that is fetched consists of objects that nobody holds, and is
  held afterwards. \<open>batches fetched s bs t\<close> is a run of fetches from \<open>s\<close> to \<open>t\<close> with the batches \<open>bs\<close>.
\<close>

fun batches :: "('s \<Rightarrow> nat \<Rightarrow> 'a list \<Rightarrow> 's \<Rightarrow> bool) \<Rightarrow> 's \<Rightarrow> (nat \<times> 'a list) list \<Rightarrow> 's \<Rightarrow> bool" where
  "batches fetched s [] t \<longleftrightarrow> s = t"
| "batches fetched s ((i, xs) # bs) t \<longleftrightarrow> (\<exists>u. fetched s i xs u \<and> batches fetched u bs t)"

locale object_source =
  fixes state_ok :: "'s \<Rightarrow> (nat \<Rightarrow> 'a set) \<Rightarrow> bool"
    and fetched :: "'s \<Rightarrow> nat \<Rightarrow> 'a list \<Rightarrow> 's \<Rightarrow> bool"
  assumes fetch_fresh: "state_ok s H \<Longrightarrow> fetched s i xs t \<Longrightarrow>
    state_ok t (H(i := H i \<union> set xs)) \<and> distinct xs \<and> (\<forall>j. set xs \<inter> H j = {})"
begin

lemma batches_distinct:
  assumes "state_ok s H" "batches fetched s bs t"
  shows "distinct (concat (map snd bs)) \<and> (\<forall>j. set (concat (map snd bs)) \<inter> H j = {})"
  using assms
proof (induction bs arbitrary: s H)
  case (Cons b bs)
  obtain i xs where b: "b = (i, xs)" by (cases b)
  obtain u where u: "fetched s i xs u" "batches fetched u bs t" using Cons.prems(2) by (auto simp: b)
  note f = fetch_fresh [OF Cons.prems(1) u(1)]
  have ih: "distinct (concat (map snd bs))"
    "\<forall>j. set (concat (map snd bs)) \<inter> (H(i := H i \<union> set xs)) j = {}"
    using Cons.IH [OF _ u(2)] f by blast+
  let ?r = "set (concat (map snd bs))"
  have new: "?r \<inter> (H i \<union> set xs) = {}" using ih(2) [rule_format, of i] by simp
  have "?r \<inter> H j = {}" for j
    using ih(2) [rule_format, of j] new by (cases "j = i") (simp_all add: Int_Un_distrib)
  then have "(set xs \<union> ?r) \<inter> H j = {}" for j using f by (simp add: Int_Un_distrib2 del: set_concat)
  moreover have "set xs \<inter> ?r = {}" using new by blast
  ultimately show ?case using f ih(1) by (simp add: b del: set_concat)
qed simp

end

definition central_fetch ::
    "('o \<Rightarrow> nat) \<Rightarrow> 'o sbrk \<Rightarrow> 'o central_cache \<Rightarrow> nat \<Rightarrow> addr list \<Rightarrow> 'o central_cache \<Rightarrow> bool" where
  "central_fetch brk sbrk c i xs c' \<longleftrightarrow>
     (\<exists>fuel Num sz s e n w. 0 < unat sz \<and> unat sz \<le> 262144 \<and> 0 < Num \<and> Num < size_mod \<and>
        brk (pc_os (cc_page c)) + 131072 + 2 ^ 33 \<le> 2 ^ 48 \<and>
        fetch_range_obj fuel sbrk Num sz c = Inr (s, e, n, c') \<and> chain (cc_mem c') s xs 0 \<and>
        index sz = Inr w \<and> i = unat w)"

interpretation cs: object_source "\<lambda>c H. cc_reach brk sbrk bk c H \<and> sbrk_law sbrk brk" "central_fetch brk sbrk"
  for brk :: "'o \<Rightarrow> nat" and sbrk :: "'o sbrk" and bk :: "addr \<Rightarrow> 'o \<Rightarrow> 'o"
proof
  fix c H i xs and c' :: "'o central_cache"
  assume reach: "cc_reach brk sbrk bk c H \<and> sbrk_law sbrk brk" and "central_fetch brk sbrk c i xs c'"
  then obtain fuel Num sz s e n w where f: "0 < unat sz" "unat sz \<le> 262144" "0 < Num" "Num < size_mod"
      "brk (pc_os (cc_page c)) + 131072 + 2 ^ 33 \<le> 2 ^ 48" "fetch_range_obj fuel sbrk Num sz c = Inr (s, e, n, c')"
      "chain (cc_mem c') s xs 0" "index sz = Inr w" "i = unat w"
    unfolding central_fetch_def by blast
  obtain fr bl fo ho where inv: "cc_inv brk c fr bl fo ho" "H = held bl ho"
    using cc_reach_inv [of brk sbrk bk c H] reach by blast
  have "cc_reach brk sbrk bk c' (H(i := H i \<union> set xs))"
    unfolding f(9) by (rule cc_fetches [OF conjunct1 [OF reach] f(1-8)])
  then show "(cc_reach brk sbrk bk c' (H(i := H i \<union> set xs)) \<and> sbrk_law sbrk brk) \<and> distinct xs \<and>
      (\<forall>j. set xs \<inter> H j = {})"
    using cc_fetch_result [OF inv(1) conjunct2 [OF reach] f(5,1-4,6,7)] reach inv(2) by blast
qed

section \<open>A concrete cache\<close>

text \<open>As \<open>demo_cache\<close>, with the head nodes of both caches below a break at 32 KiB.\<close>

definition demo_sl :: "nat \<Rightarrow> addr" where
  "demo_sl i = demo_pl (NPAGES + i)"

lemma demo_heads2: "heads_ok (Suc 32767) demo_pl (map demo_sl [0..<NFREELIST])"
proof -
  have "block 64 (64 * i + 64) \<inter> block 64 (64 * j + 64) = {}" if "i \<noteq> j" for i j :: nat
    using that by (cases i j rule: linorder_cases) (auto simp: block_def)
  moreover have "inj demo_pl" by (auto simp: inj_def demo_pl_def)
  then have "distinct (map demo_pl [0..<NPAGES + NFREELIST])" by (simp add: distinct_map inj_on_subset [of _ UNIV])
  moreover have "map demo_pl [0..<NPAGES] @ map demo_sl [0..<NFREELIST] = map demo_pl [0..<NPAGES + NFREELIST]"
    by (rule nth_equalityI) (simp_all add: nth_append demo_sl_def)
  ultimately show ?thesis
    by (auto simp: heads_ok_def disjoint_blocks_def demo_pl_def sizeof_Span_def NPAGES_def NFREELIST_def)
qed

lemma demo_cc_reach:
  obtains c where "cc_reach Suc demo_sbrk (\<lambda>_. id) c (\<lambda>_. {})" "pc_os (cc_page c) = 32767"
proof -
  have d: "PAGE_SIZE dvd Suc 32767" by (simp add: PAGE_SIZE_def)
  obtain q where q: "PageCache_new demo_pl (\<lambda>_. demo_node) 32767 = Inr q"
      "pc_inv Suc q (\<lambda>_. []) [] (map demo_sl [0..<NFREELIST])" "pc_os q = 32767"
    using PageCache_new_ok [where brk = Suc, OF demo_heads2 d] by blast
  obtain c where c: "CentralCache_new demo_sl (\<lambda>_. 0) q = Inr c" "pc_os (cc_page c) = 32767"
    using CentralCache_new_ok [OF q(2), of "\<lambda>_. 0"] q(3) by auto
  show thesis by (rule that [OF cc_start [where brk = Suc, OF demo_heads2 d q(1) c(1)] c(2)])
qed

text \<open>A state in which an object of 8 bytes has been handed out.\<close>

lemma demo_cc_held:
  obtains c x where "cc_reach Suc demo_sbrk (\<lambda>_. id) c ((\<lambda>_. {})(0 := {x}))" "chain (cc_mem c) x [x] 0"
proof -
  obtain c where c: "cc_reach Suc demo_sbrk (\<lambda>_. id) c (\<lambda>_. {})" "pc_os (cc_page c) = 32767" by (rule demo_cc_reach)
  then obtain fr bl fo ho where inv: "cc_inv Suc c fr bl fo ho" using cc_reach_inv [OF c(1) demo_law] by blast
  have room: "Suc (pc_os (cc_page c)) + 131072 + 2 ^ 33 \<le> 2 ^ 48" by (simp add: c(2))
  have ix: "index 8 = Inr 0" by (simp add: index_def index_shift_def)
  obtain xs c' where f: "fetch_range_obj (Suc (length (bl (class_index (unat (8 :: word64)))))) demo_sbrk 1 8 c =
        Inr (hd xs, last xs, length xs, c')" "chain (cc_mem c') (hd xs) xs 0" "xs \<noteq> []" "length xs \<le> 1"
    using cc_fetch [OF inv demo_law room, of 8 1] by (auto simp: size_mod_def)
  then obtain x where x: "xs = [x]" by (cases xs) auto
  have "cc_reach Suc demo_sbrk (\<lambda>_. id) c' ((\<lambda>_. {})(unat (0 :: word64) := {} \<union> set xs))"
    using cc_fetches [where brk = Suc, OF c(1) _ _ _ _ room f(1,2) ix] by (simp add: size_mod_def)
  then show thesis using f(2) x by (intro that [of c' x]) (simp_all add: fun_upd_def)
qed

section \<open>Properties\<close>



text \<open>The batches of any run of fetches from such a state have no object in common.\<close>

corollary fetched_batches_distinct:
  assumes "cc_reach brk sbrk bk c H" "sbrk_law sbrk brk" "batches (central_fetch brk sbrk) c bs c'"
  shows "distinct (concat (map snd bs)) \<and> (\<forall>j. set (concat (map snd bs)) \<inter> H j = {})"
  using cs.batches_distinct [of brk sbrk bk c H bs c'] assms by blast



text \<open>
  Objects of up to 24 bytes can always be given back. Their spans are one page long, so that the
  page map leads from every held object to its span, whatever has been merged and split in between.
\<close>

theorem small_objects_come_back:
  assumes "cc_reach brk sbrk bk c H" "sbrk_law sbrk brk" "0 < unat sz" "unat sz \<le> 24" "index sz = Inr i"
    "chain (cc_mem c) p xs 0" "distinct xs" "set xs \<subseteq> H (unat i)" "length xs < fuel"
  shows "(\<forall>x\<in>set xs. mapped c (unat i) x) \<and> (\<exists>c'. release_list_to_Spans fuel bk p sz c = Inr c')"
proof -
  obtain fr bl fo ho where inv: "cc_inv brk c fr bl fo ho" "H = held bl ho"
    using cc_reach_inv [OF assms(1,2)] by blast
  have sz: "unat sz \<le> 262144" using assms(4) by simp
  have i: "unat i < 3" "unat i < NFREELIST"
    using index_class [OF assms(3) sz assms(5)] small_class [OF assms(3) sz] assms(4) by simp_all
  have m: "\<forall>x\<in>set xs. mapped c (unat i) x"
    using owned_mapped [OF inv(1) i(2) small_owned [OF inv(1) i(1)]] assms(8) inv(2) by blast
  moreover have "set xs \<subseteq> held bl ho (unat i)" using assms(8) inv(2) by simp
  ultimately show ?thesis
    using release_list_ok [OF inv(1) assms(3) sz assms(5-7) _ m assms(9), of bk] by blast
qed

theorem small_objects_come_back_witness:
  "\<exists>(c :: nat central_cache) x. cc_reach Suc demo_sbrk (\<lambda>_. id) c ((\<lambda>_. {})(0 := {x})) \<and> mapped c 0 x \<and>
    (\<exists>c'. release_list_to_Spans 2 (\<lambda>_. id) x 8 c = Inr c')"
proof -
  obtain c x where c: "cc_reach Suc demo_sbrk (\<lambda>_. id) c ((\<lambda>_. {})(0 := {x}))" "chain (cc_mem c) x [x] 0"
    by (rule demo_cc_held)
  have ix: "index 8 = Inr 0" by (simp add: index_def index_shift_def)
  from small_objects_come_back [OF c(1) demo_law _ _ ix c(2), of 2] c(1) show ?thesis by auto
qed

end
