(* ===== verification/AllocContract.thy ===== *)
theory AllocContract
  imports ConcurrentAlloc CentralLife
begin

text \<open>
  What the central cache, with the page cache below it, promises the thread caches: objects that are nowhere
  else, in blocks that do not overlap, and memory that it does not write to.
\<close>

section \<open>The end of the data segment only moves up\<close>

named_theorems grows \<open>an operation does not lower the end of the data segment\<close>

lemma SystemAlloc_grows [grows]:
  "SystemAlloc_sbrk sbrk n os = Inr (p, os') \<Longrightarrow> sbrk_law sbrk brk \<Longrightarrow> brk os \<le> brk os'"
  using SystemAlloc_law [of sbrk brk n os] by auto

lemma New_grows [grows]:
  "New ct sbrk t (m, P) os = Inr (x, s', os') \<Longrightarrow> sbrk_law sbrk brk \<Longrightarrow> brk os \<le> brk os'"
  by (auto simp: New_def Let_def bindR_eq_Inr split: if_splits dest: grows)

lemma ensure_key_grows [grows]:
  "ensure_key sbrk k s = Inr s' \<Longrightarrow> sbrk_law sbrk brk \<Longrightarrow> brk (snd s) \<le> brk (snd s')"
  by (cases s) (auto simp: ensure_key_def bindR_eq_Inr Let_def split: option.splits dest!: grows)

lemma Ensure_loop_grows:
  "Ensure_loop sbrk key final s = Inr (b, s') \<Longrightarrow> sbrk_law sbrk brk \<Longrightarrow> brk (snd s) \<le> brk (snd s')"
proof (induction sbrk key final s rule: Ensure_loop.induct)
  case (1 sbrk key final s)
  show ?case
    using "1.prems" "1.IH" ensure_key_grows [of sbrk key s _ brk]
    by (subst (asm) Ensure_loop.simps) (fastforce split: if_splits sum.splits)
qed

lemma spanPool_New_grows [grows]:
  "spanPool_New sbrk c = Inr (p, c') \<Longrightarrow> sbrk_law sbrk brk \<Longrightarrow> brk (pc_os c) \<le> brk (pc_os c')"
  by (auto simp: spanPool_New_def bindR_eq_Inr dest: grows)

text \<open>The other operations of the page cache do not call the system.\<close>

lemma page_ops_os [grows]:
  "upd_field p f c = Inr c1 \<Longrightarrow> pc_os c1 = pc_os c"
  "set_page k p c = Inr c1 \<Longrightarrow> pc_os c1 = pc_os c"
  "push_page i p c = Inr c1 \<Longrightarrow> pc_os c1 = pc_os c"
  "pop_page i c = Inr (p, c1) \<Longrightarrow> pc_os c1 = pc_os c"
  by (auto simp: upd_field_def set_page_def push_page_def pop_page_def bindR_eq_Inr)

lemma set_pages_os [grows]: "foldR (\<lambda>i. set_page (k i) p) is c = Inr c1 \<Longrightarrow> pc_os c1 = pc_os c"
  by (induction "is" arbitrary: c) (auto simp: bindR_eq_Inr dest!: page_ops_os(2))

lemma new_Span_large_grows [grows]:
  "new_Span_large sbrk n c = Inr (sp, c') \<Longrightarrow> sbrk_law sbrk brk \<Longrightarrow> brk (pc_os c) \<le> brk (pc_os c')"
  by (auto simp: new_Span_large_def bindR_eq_Inr Let_def dest!: grows)

lemma new_Span_exact_os [grows]: "new_Span_exact n c = Inr (sp, c') \<Longrightarrow> pc_os c' = pc_os c"
  by (auto simp: new_Span_exact_def bindR_eq_Inr dest!: grows)

lemma new_Span_split_grows [grows]:
  "new_Span_split sbrk i n c = Inr (sp, c') \<Longrightarrow> sbrk_law sbrk brk \<Longrightarrow> brk (pc_os c) \<le> brk (pc_os c')"
  by (auto simp: new_Span_split_def bindR_eq_Inr dest!: grows)

lemma grow_grows [grows]:
  "grow sbrk c = Inr c' \<Longrightarrow> sbrk_law sbrk brk \<Longrightarrow> brk (pc_os c) \<le> brk (pc_os c')"
  by (fastforce simp: grow_def Ensure_def bindR_eq_Inr Let_def dest!: grows dest: Ensure_loop_grows)

lemma new_Span_grows:
  "new_Span f sbrk n c = Inr (sp, c') \<Longrightarrow> sbrk_law sbrk brk \<Longrightarrow> brk (pc_os c) \<le> brk (pc_os c')"
proof (induction f arbitrary: c)
  case (Suc f)
  then show ?case
    by (auto simp: bindR_eq_Inr split: if_splits option.splits dest!: grows dest: order_trans)
qed simp

lemma fetch_range_obj_grows:
  assumes "fetch_range_obj fuel sbrk Num sz c = Inr (s, e, n, c')" "sbrk_law sbrk brk"
  shows "brk (pc_os (cc_page c)) \<le> brk (pc_os (cc_page c'))"
proof -
  obtain hp sp c1 where c1: "get_one_Span fuel sbrk hp sz c = Inr (sp, c1)" "pc_os (cc_page c') = pc_os (cc_page c1)"
    using assms(1) by (auto simp: fetch_range_obj_def bindR_eq_Inr Let_def upd_cc_def dest!: page_ops_os(1))
  then show ?thesis
    using assms(2)
    by (auto simp: get_one_Span_def bindR_eq_Inr Let_def split: option.splits dest!: page_ops_os(1) new_Span_grows)
qed

section \<open>Blocks of objects\<close>

text \<open>
  The objects of size \<open>n\<close> tile their span exactly if \<open>n\<close> divides its size. Otherwise the last object that
  is carved from a span sticks out into the next one.
\<close>

definition fits :: "nat \<Rightarrow> bool" where
  "fits n \<longleftrightarrow> n dvd move_pages n * PAGE_SIZE"

definition span_block :: "span \<Rightarrow> addr set" where
  "span_block s = {pageid s * PAGE_SIZE..<(pageid s + npage s) * PAGE_SIZE}"

lemma page_in_span: "x div PAGE_SIZE \<in> pages s \<longleftrightarrow> x \<in> span_block s"
  by (auto simp: pages_def span_block_def PAGE_SIZE_def less_eq_div_iff_mult_less_eq div_less_iff_less_mult)

lemma span_blocks_apart: "pages s \<inter> pages t = {} \<Longrightarrow> span_block s \<inter> span_block t = {}"
  unfolding disjoint_iff page_in_span [symmetric] by blast

text \<open>An object of a span, as an offset in units of its size.\<close>

lemma object_offset:
  assumes "span_ok m s fs hs" "x \<in> set (fs @ hs)"
  obtains k where "x = pageid s * PAGE_SIZE + k * objsize s" "k * objsize s < npage s * PAGE_SIZE"
proof -
  have x: "x \<in> span_block s" "objsize s dvd x - pageid s * PAGE_SIZE"
    using assms page_in_span by (auto simp: span_ok_def)
  then obtain k where k: "x - pageid s * PAGE_SIZE = k * objsize s" by (metis dvdE mult.commute)
  have "pageid s * PAGE_SIZE \<le> x" "x < pageid s * PAGE_SIZE + npage s * PAGE_SIZE"
    using x(1) by (simp_all add: span_block_def distrib_right)
  with k show thesis by (intro that [of k]) linarith+
qed

lemma block_in_span:
  assumes s: "span_ok m s fs hs" "x \<in> set (fs @ hs)" "class_ok i s" and fit: "fits (objsize s)"
  shows "block (objsize s) x \<subseteq> span_block s"
proof -
  obtain k where k: "x = pageid s * PAGE_SIZE + k * objsize s" "k * objsize s < npage s * PAGE_SIZE"
    by (rule object_offset [OF s(1,2)])
  obtain l where l: "npage s * PAGE_SIZE = l * objsize s"
    using fit s(3) by (auto simp: fits_def class_ok_def mult.commute elim!: dvdE)
  have "k < l" using k(2) unfolding l by simp
  then have "Suc k * objsize s \<le> npage s * PAGE_SIZE" unfolding l by (intro mult_le_mono1) simp
  then show ?thesis by (auto simp: k(1) block_def span_block_def distrib_right)
qed

text \<open>Two objects of one span never overlap.\<close>

lemma same_span_blocks:
  assumes s: "span_ok m s fs hs" "x \<in> set (fs @ hs)" "y \<in> set (fs @ hs)" "x \<noteq> y"
  shows "block (objsize s) x \<inter> block (objsize s) y = {}"
proof -
  obtain k l where k: "x = pageid s * PAGE_SIZE + k * objsize s" "y = pageid s * PAGE_SIZE + l * objsize s"
    using object_offset [OF s(1,2)] object_offset [OF s(1,3)] by metis
  have far: "block n (b + j * n) \<inter> block n (b + j' * n) = {}" if "j < j'" for n b j j' :: nat
  proof -
    have "Suc j * n \<le> j' * n" using that by (intro mult_le_mono1) simp
    then show ?thesis by (auto simp: block_def)
  qed
  have "k \<noteq> l" using s(4) k by auto
  then show ?thesis using far [of k l] far [of l k] unfolding k by (cases "k < l") (auto simp: Int_commute)
qed

lemma object_blocks_apart:
  assumes inv: "cc_inv brk c fr bl fo ho"
    and p: "i < NFREELIST" "p \<in> set (bl i)" "x \<in> set (fo p @ ho p)" "fits (objsize (cc_spans c p))"
    and q: "j < NFREELIST" "q \<in> set (bl j)" "y \<in> set (fo q @ ho q)" and xy: "x \<noteq> y"
  shows "y \<notin> block (objsize (cc_spans c p)) x"
    and "fits (objsize (cc_spans c q)) \<Longrightarrow>
      block (objsize (cc_spans c p)) x \<inter> block (objsize (cc_spans c q)) y = {}"
proof -
  let ?s = "cc_spans c p" and ?t = "cc_spans c q"
  note ok = cc_invD(3) [OF inv in_used [of i p bl, OF p(1,2)]] cc_invD(3) [OF inv in_used [of j q bl, OF q(1,2)]]
  note cls = cc_invD(8) [OF inv p(1,2)] cc_invD(8) [OF inv q(1,2)]
  have py: "y \<in> block (objsize ?t) y" using cls(2) by (simp add: class_ok_def)
  have apart: "span_block ?s \<inter> span_block ?t = {}" if "p \<noteq> q"
    using cc_invD(6) [OF inv in_used [of i p bl, OF p(1,2)] in_used [of j q bl, OF q(1,2)] that]
    by (rule span_blocks_apart)
  note bx = block_in_span [OF ok(1) p(3) cls(1) p(4)]
  have y: "y \<in> span_block ?t" using ok(2) q(3) page_in_span by (auto simp: span_ok_def)
  show "y \<notin> block (objsize ?s) x"
  proof (cases "p = q")
    case True
    then show ?thesis using same_span_blocks [OF ok(1) p(3), of y] q(3) xy py by auto
  next
    case False
    then show ?thesis using apart bx y by blast
  qed
  show "block (objsize ?s) x \<inter> block (objsize ?t) y = {}" if "fits (objsize ?t)"
  proof (cases "p = q")
    case True
    then show ?thesis using same_span_blocks [OF ok(1) p(3), of y] q(3) xy by simp
  next
    case False
    then show ?thesis using apart bx block_in_span [OF ok(2) q(3) cls(2) that] by blast
  qed
qed

section \<open>What the central cache promises the thread caches\<close>

text \<open>
  \<open>K i\<close> are the objects of the \<open>i\<close>-th class that are outside the central cache. As the thread caches ask for
  rounded sizes only, the spans of a bucket have the same object size.
\<close>

definition central_ok :: "('o \<Rightarrow> nat) \<Rightarrow> 'o central_cache \<Rightarrow> (nat \<Rightarrow> addr set) \<Rightarrow> bool" where
  "central_ok brk c K \<longleftrightarrow>
     (\<exists>fr bl fo ho. cc_inv brk c fr bl fo ho \<and> held bl ho = K \<and> (\<forall>n\<in>obj_sizes c bl. class_size n = n))"

lemma central_okE:
  assumes "central_ok brk c K"
  obtains fr bl fo ho where "cc_inv brk c fr bl fo ho" "held bl ho = K" "\<forall>n\<in>obj_sizes c bl. class_size n = n"
  using assms unfolding central_ok_def by blast

lemma central_ok_apart: "central_ok brk c K \<Longrightarrow> i \<noteq> j \<Longrightarrow> K i \<inter> K j = {}"
  by (elim central_okE) (use held_apart in blast)

definition object_size :: "nat \<Rightarrow> bool" where
  "object_size n \<longleftrightarrow> 0 < n \<and> n \<le> 262144 \<and> class_size n = n"

text \<open>The memory that the holder of an object may use: its block if it does not stick out of the span.\<close>

definition cells :: "nat \<Rightarrow> addr \<Rightarrow> addr set" where
  "cells n x = (if fits n then block n x else {x})"

text \<open>The span of an object outside; its object size is the one the class determines.\<close>

lemma held_span:
  assumes inv: "cc_inv brk c fr bl fo ho" "\<forall>n\<in>obj_sizes c bl. class_size n = n"
    and x: "x \<in> held bl ho (class_index n)" "object_size n"
  obtains p where "class_index n < NFREELIST" "p \<in> set (bl (class_index n))" "x \<in> set (fo p @ ho p)"
    "x \<in> set (ho p)" "objsize (cc_spans c p) = n"
proof -
  obtain p where p: "class_index n < NFREELIST" "p \<in> set (bl (class_index n))" "x \<in> set (ho p)"
    using x(1) by (auto simp: held_def split: if_splits)
  have cls: "class_ok (class_index n) (cc_spans c p)" by (rule cc_invD(8) [OF inv(1) p(1,2)])
  have "p \<in> set (used_spans bl)" by (rule in_used [of "class_index n" p bl, OF p(1,2)])
  then have "class_size (objsize (cc_spans c p)) = objsize (cc_spans c p)"
    using inv(2) unfolding obj_sizes_def by (meson imageI)
  moreover have "class_size (objsize (cc_spans c p)) = class_size n"
    using cls x(2) class_index_eq_iff [of "objsize (cc_spans c p)" n] by (simp add: class_ok_def object_size_def)
  ultimately show thesis using p x(2) unfolding object_size_def by (intro that [of p]) simp_all
qed

lemma cells_apart:
  assumes inv: "cc_inv brk c fr bl fo ho" "\<forall>n\<in>obj_sizes c bl. class_size n = n"
    and x: "x \<in> held bl ho (class_index n)" "object_size n" and a: "a \<in> cells n x"
  shows "a \<notin> free_objs bl fo" "a \<in> held bl ho j \<Longrightarrow> a = x"
proof -
  obtain p where p: "class_index n < NFREELIST" "p \<in> set (bl (class_index n))" "x \<in> set (fo p @ ho p)"
      "objsize (cc_spans c p) = n"
    using held_span [OF inv x] by metis
  have other: "a \<notin> set (fo q @ ho q)" if q: "j < NFREELIST" "q \<in> set (bl j)" and ne: "a \<noteq> x" for j q
  proof -
    have "fits n" "a \<in> block n x" using a ne by (auto simp: cells_def split: if_splits)
    then show ?thesis using object_blocks_apart(1) [OF inv(1) p(1-3) _ q, of a] ne unfolding p(4) by blast
  qed
  show "a = x" if "a \<in> held bl ho j"
    using that other by (auto simp: held_def split: if_splits)
  show "a \<notin> free_objs bl fo"
  proof (cases "a = x")
    case True
    then show ?thesis using free_objs_held [OF inv(1) x(1)] by simp
  next
    case False
    then show ?thesis using other unfolding free_objs_def by fastforce
  qed
qed

lemma central_blocks_apart:
  assumes ok: "central_ok brk c K"
    and x: "x \<in> K (class_index n)" "object_size n" "fits n" and y: "y \<in> K (class_index m)" "object_size m" "fits m"
    and xy: "x \<noteq> y"
  shows "block n x \<inter> block m y = {}"
proof -
  obtain fr bl fo ho where inv: "cc_inv brk c fr bl fo ho" "held bl ho = K" "\<forall>n\<in>obj_sizes c bl. class_size n = n"
    by (rule central_okE [OF ok])
  obtain p where p: "class_index n < NFREELIST" "p \<in> set (bl (class_index n))" "x \<in> set (fo p @ ho p)"
      "objsize (cc_spans c p) = n"
    using held_span [OF inv(1,3) _ x(2), of x] x(1) inv(2) by metis
  obtain q where q: "class_index m < NFREELIST" "q \<in> set (bl (class_index m))" "y \<in> set (fo q @ ho q)"
      "objsize (cc_spans c q) = m"
    using held_span [OF inv(1,3) _ y(2), of y] y(1) inv(2) by metis
  show ?thesis using object_blocks_apart(2) [OF inv(1) p(1-3) _ q(1-3) xy] x(3) y(3) unfolding p(4) q(4) by blast
qed

text \<open>Memory that is no free object does not concern the central cache.\<close>

lemma cc_inv_mem:
  assumes inv: "cc_inv brk c fr bl fo ho" and m: "\<And>a. a \<in> free_objs bl fo \<Longrightarrow> m a = cc_mem c a"
  shows "cc_inv brk (c\<lparr>cc_mem := m\<rparr>) fr bl fo ho"
proof -
  have "span_ok m (cc_spans c p) (fo p) (ho p)" if p: "p \<in> set (used_spans bl)" for p
  proof -
    have "m a = cc_mem c a" if "a \<in> set (fo p)" for a using m p that unfolding free_objs_def by blast
    then have "chain m q (fo p) 0 \<longleftrightarrow> chain (cc_mem c) q (fo p) 0" for q by (rule chain_frame)
    then show ?thesis using cc_invD(3) [OF inv p] unfolding span_ok_def by simp
  qed
  then show ?thesis using inv unfolding cc_inv_def by (simp add: cc_spans_def)
qed

lemma central_ok_write:
  assumes ok: "central_ok brk c K" and x: "x \<in> K (class_index n)" "object_size n" "a \<in> cells n x"
  shows "central_ok brk (c\<lparr>cc_mem := (cc_mem c)(a := v)\<rparr>) K" "a \<in> K j \<Longrightarrow> a = x"
proof -
  obtain fr bl fo ho where inv: "cc_inv brk c fr bl fo ho" "held bl ho = K" "\<forall>n\<in>obj_sizes c bl. class_size n = n"
    by (rule central_okE [OF ok])
  note ap = cells_apart [OF inv(1,3) _ x(2,3), unfolded inv(2), OF x(1)]
  have "cc_inv brk (c\<lparr>cc_mem := (cc_mem c)(a := v)\<rparr>) fr bl fo ho"
    using ap(1) by (intro cc_inv_mem [OF inv(1)]) auto
  then show "central_ok brk (c\<lparr>cc_mem := (cc_mem c)(a := v)\<rparr>) K"
    using inv(2,3) unfolding central_ok_def obj_sizes_def cc_spans_def by fastforce
  show "a \<in> K j \<Longrightarrow> a = x" by (rule ap(2))
qed

lemma central_ok_link:
  assumes ok: "central_ok brk c K" and x: "x \<in> K i"
  shows "central_ok brk (c\<lparr>cc_mem := (cc_mem c)(x := v)\<rparr>) K"
proof -
  obtain fr bl fo ho where inv: "cc_inv brk c fr bl fo ho" "held bl ho = K" "\<forall>n\<in>obj_sizes c bl. class_size n = n"
    by (rule central_okE [OF ok])
  show ?thesis
    using cc_inv_write [OF inv(1), of x i v] x inv(2,3) unfolding central_ok_def obj_sizes_def cc_spans_def
    by fastforce
qed

text \<open>The system's break may be moved up by others.\<close>

lemma central_ok_os:
  assumes ok: "central_ok brk c K" and os: "brk (pc_os (cc_page c)) \<le> brk os" "PAGE_SIZE dvd brk os"
  shows "central_ok brk (c\<lparr>cc_page := (cc_page c)\<lparr>pc_os := os\<rparr>\<rparr>) K"
proof -
  obtain fr bl fo ho where inv: "cc_inv brk c fr bl fo ho" "held bl ho = K" "\<forall>n\<in>obj_sizes c bl. class_size n = n"
    by (rule central_okE [OF ok])
  have st: "pc_st brk (cc_page c) fr (used_spans bl) (bucket_heads c) {}"
    using cc_invD(1) [OF inv(1)] by (simp add: pc_inv_def)
  have "pc_st brk ((cc_page c)\<lparr>pc_os := os\<rparr>) fr (used_spans bl) (bucket_heads c) {}"
    using objs_ok_os [OF pc_stD(3) [OF st] os] order_trans [OF pc_stD(5) [OF st] os(1)] pc_stD(1,2,4) [OF st]
    by (intro pc_stI) simp_all
  then have "cc_inv brk (c\<lparr>cc_page := (cc_page c)\<lparr>pc_os := os\<rparr>\<rparr>) fr bl fo ho"
    using inv(1) unfolding cc_inv_def pc_inv_def by (simp add: cc_spans_def)
  then show ?thesis using inv(2,3) unfolding central_ok_def obj_sizes_def cc_spans_def by fastforce
qed

text \<open>
  A fetch of a rounded size. It hands out objects that are nowhere outside, and does not touch the memory of
  those that are.
\<close>

lemma central_ok_fetch:
  assumes ok: "central_ok brk c K" and law: "sbrk_law sbrk brk"
    and room: "brk (pc_os (cc_page c)) + 131072 + 2 ^ 33 \<le> 2 ^ 48" and sz: "object_size (unat sz)"
    and num: "0 < Num" "Num < size_mod"
  defines "i \<equiv> class_index (unat sz)"
  shows "\<exists>rounds xs c'. (\<forall>fuel>rounds. fetch_range_obj fuel sbrk Num sz c = Inr (hd xs, last xs, length xs, c')) \<and>
    central_ok brk c' (K(i := K i \<union> set xs)) \<and> chain (cc_mem c') (hd xs) xs 0 \<and> distinct xs \<and> xs \<noteq> [] \<and>
    length xs \<le> Num \<and> (\<forall>j. set xs \<inter> K j = {}) \<and> brk (pc_os (cc_page c)) \<le> brk (pc_os (cc_page c')) \<and>
    (\<forall>j. \<forall>x\<in>K j. cc_mem c' x = cc_mem c x) \<and>
    (\<forall>n x a. x \<in> K (class_index n) \<longrightarrow> object_size n \<longrightarrow> a \<in> cells n x \<longrightarrow> cc_mem c' a = cc_mem c a)"
proof -
  obtain fr bl fo ho where inv: "cc_inv brk c fr bl fo ho" "held bl ho = K" "\<forall>n\<in>obj_sizes c bl. class_size n = n"
    by (rule central_okE [OF ok])
  have s: "0 < unat sz" "unat sz \<le> 262144" "class_size (unat sz) = unat sz" using sz by (simp_all add: object_size_def)
  obtain xs c' fr' bl' fo' ho' where f:
      "\<forall>fuel>length (bl i). fetch_range_obj fuel sbrk Num sz c = Inr (hd xs, last xs, length xs, c')"
      "cc_inv brk c' fr' bl' fo' ho'" "held bl' ho' = K(i := K i \<union> set xs)"
      "chain (cc_mem c') (hd xs) xs 0" "distinct xs" "xs \<noteq> []" "length xs \<le> Num" "\<forall>j. set xs \<inter> K j = {}"
      "obj_sizes c' bl' \<subseteq> insert (unat sz) (obj_sizes c bl)"
      "\<forall>a. a \<notin> set xs \<union> free_objs bl' fo' \<longrightarrow> cc_mem c' a = cc_mem c a"
    using cc_fetch [OF inv(1) law room s(1,2) num] unfolding i_def [symmetric] inv(2) by blast
  have sizes: "\<forall>n\<in>obj_sizes c' bl'. class_size n = n" using f(9) inv(3) s(3) by blast
  have up: "x \<in> held bl' ho' j" if "x \<in> K j" for x j using that unfolding f(3) by auto
  have new: "x \<notin> set xs" if "x \<in> K j" for x j using f(8) that by blast
  have link: "cc_mem c' x = cc_mem c x" if "x \<in> K j" for x j
    using f(10) free_objs_held [OF f(2) up [OF that]] new [OF that] by simp
  have "cc_mem c' a = cc_mem c a" if x: "x \<in> K (class_index n)" "object_size n" "a \<in> cells n x" for n x a
  proof -
    note ap = cells_apart [OF f(2) sizes up [OF x(1)] x(2,3)]
    have "a \<notin> set xs" using ap(2) [of i] new [OF x(1)] unfolding f(3) by auto
    then show ?thesis using f(10) ap(1) by simp
  qed
  moreover have "central_ok brk c' (K(i := K i \<union> set xs))"
    unfolding central_ok_def using f(2,3) sizes by blast
  moreover have "fetch_range_obj (Suc (length (bl i))) sbrk Num sz c = Inr (hd xs, last xs, length xs, c')"
    using f(1) by simp
  from fetch_range_obj_grows [OF this law] have "brk (pc_os (cc_page c)) \<le> brk (pc_os (cc_page c'))" .
  ultimately show ?thesis using f(1,4-8) link by blast
qed

end
