(* ===== verification/AllocSafe.thy ===== *)
theory AllocSafe
  imports AllocContract
begin

text \<open>
  The three caches together, for any number of threads: an invariant of the allocator as a whole that
  \<^verbatim>\<open>ConcurrentAlloc\<close> and \<^verbatim>\<open>ConcurrentFree\<close> keep, and what they return.
\<close>

section \<open>A thread cache\<close>

text \<open>\<open>l i\<close> are the objects in the free list of the \<open>i\<close>-th class, never more than its limit.\<close>

definition list_ok :: "heap \<Rightarrow> free_list \<Rightarrow> addr list \<Rightarrow> bool" where
  "list_ok m fl xs \<longleftrightarrow> fl_rep (m, fl) xs \<and> 0 < maxSize fl \<and> maxSize fl \<le> 513 \<and> length xs \<le> maxSize fl"

definition tc_ok :: "heap \<Rightarrow> thread_cache \<Rightarrow> (nat \<Rightarrow> addr list) \<Rightarrow> bool" where
  "tc_ok m tc l \<longleftrightarrow> (\<forall>i. list_ok m (freelist tc i) (l i))"

lemma tc_ok_init: "tc_ok m ThreadCache_init (\<lambda>_. [])"
  using fl_rep_init by (simp add: tc_ok_def list_ok_def ThreadCache_init_def FreeList_init_def)

lemma list_ok_frame: "list_ok m fl xs \<Longrightarrow> (\<And>x. x \<in> set xs \<Longrightarrow> m' x = m x) \<Longrightarrow> list_ok m' fl xs"
  using chain_frame [of xs m' m] by (simp add: list_ok_def fl_rep_def)

lemma tc_ok_frame: "tc_ok m tc l \<Longrightarrow> (\<And>i x. x \<in> set (l i) \<Longrightarrow> m' x = m x) \<Longrightarrow> tc_ok m' tc l"
  unfolding tc_ok_def using list_ok_frame by blast

lemma tc_ok_upd: "tc_ok m tc l \<Longrightarrow> list_ok m fl xs \<Longrightarrow> tc_ok m (set_list i fl tc) (l(i := xs))"
  by (simp add: tc_ok_def)

lemma tc_ok_nonnull: "tc_ok m tc l \<Longrightarrow> x \<in> set (l i) \<Longrightarrow> x \<noteq> 0"
  by (rule notI) (auto simp: tc_ok_def list_ok_def fl_rep_def dest!: spec [of _ i] chain_nonnull)

lemma chain_last: "chain m p xs 0 \<Longrightarrow> xs \<noteq> [] \<Longrightarrow> m (last xs) = 0"
  by (induction xs arbitrary: p) auto

text \<open>The rest of a fetched batch is linked already.\<close>

lemma push_batch_same:
  assumes "chain m x (x # ys) 0" "distinct ys" "ys \<noteq> []" "length ys < size_mod" "fl_rep (m, fl) []"
  shows "\<exists>fl'. PushRange (m x) (last ys) (length ys) (m, fl) = Inr (m, fl') \<and> fl_rep (m, fl') ys \<and> maxSize fl' = maxSize fl"
proof -
  obtain m' fl' where p: "PushRange (m x) (last ys) (length ys) (m, fl) = Inr (m', fl')" "fl_rep (m', fl') ys"
      "maxSize fl' = maxSize fl"
    using push_batch [OF assms] by blast
  have "m' = m(last ys := head fl)" using p(1) by (auto simp: PushRange_def set_NEXT_OBJ_def split: if_splits)
  moreover have "head fl = 0" using assms(5) by (simp add: fl_rep_def)
  moreover have "m (last ys) = 0" using assms(1,3) chain_last [of m x "x # ys"] by simp
  ultimately have "m' = m" by auto
  then show ?thesis using p by auto
qed

text \<open>The state \<open>c'\<close> after a fetch of \<open>N\<close> for the \<open>i\<close>-th class.\<close>

definition fetched_from ::
    "('o \<Rightarrow> nat) \<Rightarrow> 'o central_cache \<Rightarrow> (nat \<Rightarrow> addr set) \<Rightarrow> nat \<Rightarrow> addr set \<Rightarrow> 'o central_cache \<Rightarrow> bool" where
  "fetched_from brk c K i N c' \<longleftrightarrow>
     central_ok brk c' (K(i := K i \<union> N)) \<and> (\<forall>j. N \<inter> K j = {}) \<and>
     brk (pc_os (cc_page c)) \<le> brk (pc_os (cc_page c')) \<and> (\<forall>j. \<forall>x\<in>K j. cc_mem c' x = cc_mem c x) \<and>
     (\<forall>n x a. x \<in> K (class_index n) \<longrightarrow> object_size n \<longrightarrow> a \<in> cells n x \<longrightarrow> cc_mem c' a = cc_mem c a)"

lemma fetched_none: "central_ok brk c K \<Longrightarrow> fetched_from brk c K i {} c"
  by (simp add: fetched_from_def)

lemma fetch_from_CentralCache_ok:
  assumes ok: "central_ok brk c K" and law: "sbrk_law sbrk brk"
    and room: "brk (pc_os (cc_page c)) + 131072 + 2 ^ 33 \<le> 2 ^ 48" and sz: "object_size (unat sz)"
    and i: "i = class_index (unat sz)" and fl: "list_ok (cc_mem c) (freelist tc i) []"
  shows "\<exists>rounds x ys fl' c'.
    (\<forall>fuel>rounds. fetch_from_CentralCache fuel sbrk i sz (tc, c) = Inr (x, set_list i fl' tc, c')) \<and>
    list_ok (cc_mem c') fl' ys \<and> x \<noteq> 0 \<and> x \<notin> set ys \<and> fetched_from brk c K i (set (x # ys)) c'"
proof -
  let ?M = "maxSize (freelist tc i)"
  obtain k where k: "num_move_size sz = Inr k" "unat k \<le> 512" "0 < unat k"
  proof -
    have "0 < unat sz" using sz by (simp add: object_size_def)
    from num_move_size_nat [OF this] show thesis by (auto intro: that)
  qed
  have M: "0 < ?M" "?M \<le> 513" "fl_rep (cc_mem c, freelist tc i) []" using fl by (simp_all add: list_ok_def)
  define Num where "Num = min (unat k) ?M"
  define fl1 where "fl1 = (if Num = ?M then (freelist tc i)\<lparr>maxSize := ?M + 1\<rparr> else freelist tc i)"
  have num: "0 < Num" "Num < size_mod" using k(2,3) M(1) by (auto simp: Num_def size_mod_def)
  have fl1: "fl_rep (m, fl1) []" "0 < maxSize fl1" "maxSize fl1 \<le> 513" "Num \<le> maxSize fl1" for m
    using M k(2) by (auto simp: fl_rep_def fl1_def Num_def)
  obtain rounds xs c' where f:
      "\<forall>fuel>rounds. fetch_range_obj fuel sbrk Num sz c = Inr (hd xs, last xs, length xs, c')"
      "chain (cc_mem c') (hd xs) xs 0" "distinct xs" "xs \<noteq> []" "length xs \<le> Num" "fetched_from brk c K i (set xs) c'"
    using central_ok_fetch [OF ok law room sz num] unfolding fetched_from_def i by blast
  obtain x ys where xs: "xs = x # ys" using f(4) by (cases xs) auto
  have x: "x \<noteq> 0" "chain (cc_mem c') x (x # ys) 0" "distinct ys" "x \<notin> set ys" using f(2,3) by (simp_all add: xs)
  have run: "fetch_from_CentralCache fuel sbrk i sz (tc, c) =
      (if ys = [] then Inr (x, set_list i fl1 tc, c')
       else bindR (PushRange (cc_mem c' x) (last ys) (length ys) (cc_mem c', fl1)) (\<lambda>(m, fl2).
         Inr (x, set_list i fl2 tc, c'\<lparr>cc_mem := m\<rparr>)))" if "rounds < fuel" for fuel
  proof -
    have e: "szadd ?M 1 = ?M + 1" "szsub (length xs) 1 = length ys"
      using M(2) f(5) num by (simp_all add: szadd_exact szsub_exact size_mod_def xs)
    have "fetch_range_obj fuel sbrk Num sz c = Inr (x, last xs, length xs, c')" using f(1) that by (simp add: xs)
    then show ?thesis
      using k(1) e x(1) unfolding fl1_def Num_def
      by (simp add: fetch_from_CentralCache_def Let_def NEXT_OBJ_def xs)
  qed
  show ?thesis
  proof (cases "ys = []")
    case True
    then have "\<forall>fuel>rounds. fetch_from_CentralCache fuel sbrk i sz (tc, c) = Inr (x, set_list i fl1 tc, c')"
      using run by simp
    moreover have "list_ok (cc_mem c') fl1 ys" using fl1 True by (simp add: list_ok_def)
    ultimately show ?thesis using x(1,4) f(6) unfolding xs by blast
  next
    case False
    have len: "length ys < size_mod" "length ys \<le> Num" using f(5) num by (simp_all add: xs)
    obtain fl2 where p: "PushRange (cc_mem c' x) (last ys) (length ys) (cc_mem c', fl1) = Inr (cc_mem c', fl2)"
        "fl_rep (cc_mem c', fl2) ys" "maxSize fl2 = maxSize fl1"
      using push_batch_same [OF x(2,3) False len(1) fl1(1)] by blast
    have "\<forall>fuel>rounds. fetch_from_CentralCache fuel sbrk i sz (tc, c) = Inr (x, set_list i fl2 tc, c')"
      using run False p(1) by simp
    moreover have "list_ok (cc_mem c') fl2 ys" using p(2,3) fl1(2-4) len(2) by (simp add: list_ok_def)
    ultimately show ?thesis using x(1,4) f(6) unfolding xs by blast
  qed
qed

lemma Allocate_from_list:
  assumes sz: "0 < unat sz" "unat sz \<le> 262144" and i: "i = class_index (unat sz)"
    and li: "list_ok (cc_mem c) (freelist tc i) (x # ys)"
  shows "\<exists>fl'. (\<forall>fuel. Allocate fuel sbrk sz (tc, c) = Inr (x, set_list i fl' tc, c)) \<and> list_ok (cc_mem c) fl' ys"
proof -
  have rep: "fl_rep (cc_mem c, freelist tc i) (x # ys)" using li by (simp add: list_ok_def)
  obtain fl' where fl': "Allocate 0 sbrk sz (tc, c) = Inr (x, set_list i fl' tc, c)" "fl_rep (cc_mem c, fl') ys"
      "maxSize fl' = maxSize (freelist tc i)"
    using Allocate_pop [OF sz i rep] by blast
  moreover have "Allocate fuel sbrk sz (tc, c) = Allocate 0 sbrk sz (tc, c)" for fuel
    using Allocate_pop [OF sz i rep, of fuel sbrk] fl_empty_iff [OF rep] round_index_ok [OF sz]
    by (auto simp: Allocate_def i bindR_def split: sum.splits)
  ultimately show ?thesis using li by (auto simp: list_ok_def)
qed

text \<open>One lemma for both branches: \<open>N\<close> is what was fetched, nothing if the free list had an object.\<close>

lemma Allocate_ok:
  assumes ok: "central_ok brk c K" and law: "sbrk_law sbrk brk"
    and room: "brk (pc_os (cc_page c)) + 131072 + 2 ^ 33 \<le> 2 ^ 48" and sz: "0 < unat sz" "unat sz \<le> 262144"
    and tc: "tc_ok (cc_mem c) tc l" "\<And>j. set (l j) \<subseteq> K j"
  defines "i \<equiv> class_index (unat sz)"
  shows "\<exists>rounds x tc' c' ys N. (\<forall>fuel>rounds. Allocate fuel sbrk sz (tc, c) = Inr (x, tc', c')) \<and> x \<noteq> 0 \<and>
    tc_ok (cc_mem c') tc' (l(i := ys)) \<and> fetched_from brk c K i N c' \<and> x \<notin> set ys \<and> set (x # ys) = set (l i) \<union> N"
proof -
  have li: "list_ok (cc_mem c) (freelist tc i) (l i)" using tc(1) by (simp add: tc_ok_def)
  show ?thesis
  proof (cases "l i")
    case (Cons x ys)
    then have lx: "list_ok (cc_mem c) (freelist tc i) (x # ys)" using li by simp
    obtain fl' where r: "\<forall>fuel. Allocate fuel sbrk sz (tc, c) = Inr (x, set_list i fl' tc, c)"
        "list_ok (cc_mem c) fl' ys"
      using Allocate_from_list [OF sz i_def [THEN meta_eq_to_obj_eq] lx] by blast
    have "x \<notin> set ys" using lx by (simp add: list_ok_def fl_rep_def)
    moreover have "x \<noteq> 0" using tc_ok_nonnull [OF tc(1), of x i] Cons by simp
    ultimately show ?thesis
      using r(1) tc_ok_upd [OF tc(1) r(2), of i] fetched_none [OF ok, of i] Cons
      by (intro exI [of _ 0] exI [of _ x] exI [of _ "set_list i fl' tc"] exI [of _ c] exI [of _ ys] exI [of _ "{}"]) simp
  next
    case Nil
    obtain al where al: "round_up sz = Inr al" "unat al = class_size (unat sz)" "0 < unat al" "unat al \<le> 262144"
        "list_index al = Inr i"
      using round_index_ok [OF sz] unfolding i_def by metis
    have os: "object_size (unat al)" using al class_size_idem [OF sz] by (simp add: object_size_def)
    have ai: "i = class_index (unat al)" using al(2) class_index_class_size [OF sz] by (simp add: i_def)
    obtain rounds x ys fl' c' where f:
        "\<forall>fuel>rounds. fetch_from_CentralCache fuel sbrk i al (tc, c) = Inr (x, set_list i fl' tc, c')"
        "list_ok (cc_mem c') fl' ys" "x \<noteq> 0" "x \<notin> set ys" "fetched_from brk c K i (set (x # ys)) c'"
      using fetch_from_CentralCache_ok [OF ok law room os ai, of tc] li Nil by auto
    have e: "fl_empty (freelist tc i)" using li Nil fl_empty_iff [of "(cc_mem c, freelist tc i)" "[]"] by (simp add: list_ok_def)
    then have "\<forall>fuel>rounds. Allocate fuel sbrk sz (tc, c) = Inr (x, set_list i fl' tc, c')"
      using f(1) sz al(1,5) by (simp add: Allocate_def max_bytes)
    moreover have "cc_mem c' a = cc_mem c a" if "a \<in> set (l j)" for a j
      using f(5) tc(2) [of j] that unfolding fetched_from_def by blast
    then have "tc_ok (cc_mem c') tc l" by (rule tc_ok_frame [OF tc(1)])
    then have "tc_ok (cc_mem c') (set_list i fl' tc) (l(i := ys))" by (rule tc_ok_upd [OF _ f(2)])
    ultimately show ?thesis using f(3-5) Nil
      by (intro exI [of _ rounds] exI [of _ x] exI [of _ "set_list i fl' tc"] exI [of _ c'] exI [of _ ys]
          exI [of _ "set (x # ys)"]) simp
  qed
qed

section \<open>All threads\<close>

text \<open>
  \<open>L\<close> are the live objects with their sizes, \<open>ls t\<close> the free lists of thread \<open>t\<close>. The objects outside the central
  cache are the live ones and those in the thread caches, each in one place.
\<close>

definition live_in :: "(addr \<rightharpoonup> nat) \<Rightarrow> nat \<Rightarrow> addr set" where
  "live_in L i = {x. \<exists>n. L x = Some n \<and> class_index n = i}"

definition outside :: "(addr \<rightharpoonup> nat) \<Rightarrow> (nat \<Rightarrow> nat \<Rightarrow> addr list) \<Rightarrow> nat \<Rightarrow> addr set" where
  "outside L ls i = live_in L i \<union> (\<Union>t. set (ls t i))"

text \<open>
  The thread caches themselves come from a pool that hands out ascending addresses below the end of the data
  segment, so that no two threads share one.
\<close>

definition caches_ok :: "('o \<Rightarrow> nat) \<Rightarrow> 'o allocator \<Rightarrow> bool" where
  "caches_ok brk a \<longleftrightarrow>
     freeList (TcPool a) = 0 \<and> (\<forall>t. tls_threadcache a t < brk (pc_os (cc_page (central a)))) \<and>
     (0 < remainBytes (TcPool a) \<longrightarrow> memory (TcPool a) \<noteq> 0 \<and> (\<forall>t. tls_threadcache a t < memory (TcPool a))) \<and>
     remainBytes (TcPool a) \<le> 131072 \<and>
     memory (TcPool a) + remainBytes (TcPool a) \<le> brk (pc_os (cc_page (central a))) \<and>
     (\<forall>t u. tls_threadcache a t \<noteq> 0 \<longrightarrow> tls_threadcache a t = tls_threadcache a u \<longrightarrow> t = u)"

definition al_inv :: "('o \<Rightarrow> nat) \<Rightarrow> 'o allocator \<Rightarrow> (addr \<rightharpoonup> nat) \<Rightarrow> (nat \<Rightarrow> nat \<Rightarrow> addr list) \<Rightarrow> bool" where
  "al_inv brk a L ls \<longleftrightarrow>
     central_ok brk (central a) (outside L ls) \<and>
     (\<forall>t. tls_threadcache a t \<noteq> 0 \<longrightarrow>
        tc_ok (cc_mem (central a)) (tcs a (tls_threadcache a t)) (ls t)) \<and>
     (\<forall>t. tls_threadcache a t = 0 \<longrightarrow> ls t = (\<lambda>_. [])) \<and>
     (\<forall>t i. set (ls t i) \<inter> dom L = {}) \<and> (\<forall>t u i. t \<noteq> u \<longrightarrow> set (ls t i) \<inter> set (ls u i) = {}) \<and>
     (\<forall>x n. L x = Some n \<longrightarrow> object_size n) \<and> caches_ok brk a"

lemma al_invD:
  assumes "al_inv brk a L ls"
  shows "central_ok brk (central a) (outside L ls)"
    "tls_threadcache a t \<noteq> 0 \<Longrightarrow> tc_ok (cc_mem (central a)) (tcs a (tls_threadcache a t)) (ls t)"
    "tls_threadcache a t = 0 \<Longrightarrow> ls t = (\<lambda>_. [])"
    "set (ls t i) \<inter> dom L = {}" "t \<noteq> u \<Longrightarrow> set (ls t i) \<inter> set (ls u i) = {}"
    "L x = Some n \<Longrightarrow> object_size n" "caches_ok brk a"
  using assms unfolding al_inv_def by blast+

lemma al_invI:
  assumes "central_ok brk (central a) (outside L ls)"
    "\<And>t. tls_threadcache a t \<noteq> 0 \<Longrightarrow> tc_ok (cc_mem (central a)) (tcs a (tls_threadcache a t)) (ls t)"
    "\<And>t. tls_threadcache a t = 0 \<Longrightarrow> ls t = (\<lambda>_. [])"
    "\<And>t i. set (ls t i) \<inter> dom L = {}" "\<And>t u i. t \<noteq> u \<Longrightarrow> set (ls t i) \<inter> set (ls u i) = {}"
    "\<And>x n. L x = Some n \<Longrightarrow> object_size n" "caches_ok brk a"
  shows "al_inv brk a L ls"
  using assms unfolding al_inv_def by blast

lemma outside_live: "L x = Some n \<Longrightarrow> x \<in> outside L ls (class_index n)"
  by (auto simp: outside_def live_in_def)

lemma outside_list: "set (ls t i) \<subseteq> outside L ls i"
  by (auto simp: outside_def)

text \<open>An object leaves a free list, or a fetched batch, and becomes live.\<close>

lemma outside_alloc:
  assumes "set (x # ys) = set (ls t (class_index n)) \<union> N" "x \<notin> dom L"
  shows "outside (L(x \<mapsto> n)) (ls(t := (ls t)(class_index n := ys))) =
    (outside L ls)(class_index n := outside L ls (class_index n) \<union> N)"
proof
  fix j
  let ?i = "class_index n" and ?ls = "ls(t := (ls t)(class_index n := ys))"
  have live: "live_in (L(x \<mapsto> n)) j = (if j = ?i then insert x (live_in L j) else live_in L j)"
    using assms(2) by (auto simp: live_in_def dom_def)
  have lists: "(\<Union>u. set (?ls u j)) = (if j = ?i then set ys \<union> (\<Union>u\<in>-{t}. set (ls u ?i)) else (\<Union>u. set (ls u j)))"
    by (auto split: if_splits)
  have "(\<Union>u. set (ls u ?i)) = set (ls t ?i) \<union> (\<Union>u\<in>-{t}. set (ls u ?i))" by auto
  then show "outside (L(x \<mapsto> n)) ?ls j = ((outside L ls)(?i := outside L ls ?i \<union> N)) j"
    using assms(1) unfolding outside_def live lists by auto
qed

text \<open>A live object goes to a free list.\<close>

lemma outside_free:
  assumes "L x = Some n"
  shows "outside (L(x := None)) (ls(t := (ls t)(class_index n := x # ls t (class_index n)))) = outside L ls"
proof
  fix j
  let ?i = "class_index n" and ?ls = "ls(t := (ls t)(class_index n := x # ls t (class_index n)))"
  have live: "live_in (L(x := None)) j = live_in L j - {x}" by (auto simp: live_in_def)
  have x: "x \<in> live_in L j \<longleftrightarrow> j = ?i" using assms by (auto simp: live_in_def)
  have lists: "(\<Union>u. set (?ls u j)) = (if j = ?i then insert x (\<Union>u. set (ls u j)) else (\<Union>u. set (ls u j)))"
    by (auto split: if_splits)
  show "outside (L(x := None)) ?ls j = outside L ls j"
    using x unfolding outside_def live lists by auto
qed

section \<open>The first allocation of a thread\<close>

lemma central_ok_aligned: "central_ok brk c K \<Longrightarrow> PAGE_SIZE dvd brk (pc_os (cc_page c))"
  by (elim central_okE) (auto simp: pc_inv_def objs_ok_def dest!: cc_invD(1) pc_stD(3))

lemma TcPool_New_fresh:
  assumes ok: "caches_ok brk a" and law: "sbrk_law sbrk brk"
    and dvd: "PAGE_SIZE dvd brk (pc_os (cc_page (central a)))"
  shows "\<exists>p P os. TcPool_New sbrk a =
      Inr (p, a\<lparr>central := (central a)\<lparr>cc_page := (cc_page (central a))\<lparr>pc_os := os\<rparr>\<rparr>, TcPool := P,
        tcs := (tcs a)(p := ThreadCache_init)\<rparr>) \<and>
    (\<forall>t. tls_threadcache a t < p) \<and> p < brk os \<and> freeList P = 0 \<and> p < memory P \<and> remainBytes P \<le> 131072 \<and>
    memory P + remainBytes P \<le> brk os \<and> brk (pc_os (cc_page (central a))) \<le> brk os \<and>
    brk os \<le> brk (pc_os (cc_page (central a))) + 131072 \<and> PAGE_SIZE dvd brk os"
proof -
  let ?P = "TcPool a" and ?os = "pc_os (cc_page (central a))"
  note C = ok [unfolded caches_ok_def]
  have n: "pool_objSize sizeof_ThreadCache = 4992"
    by (simp add: pool_objSize_def sizeof_ThreadCache_def NFREELIST_def)
  obtain os1 where s: "SystemAlloc_sbrk sbrk 16 ?os = Inr (brk ?os, os1)" "brk os1 = brk ?os + 131072"
    using SystemAlloc_law [OF law, of 16 ?os] by (auto simp: size_mod_def)
  have d: "PAGE_SIZE dvd brk ?os + 131072" using dvd by (simp add: PAGE_SIZE_def dvd_add_left_iff)
  show ?thesis
  proof (cases "remainBytes ?P < 4992")
    case True
    then show ?thesis using C s d n
      by (intro exI [of _ "brk ?os"] exI [of _ "?P\<lparr>memory := brk ?os + 4992, remainBytes := szsub 131072 4992\<rparr>"]
          exI [of _ os1]) (simp add: TcPool_New_def New_def Let_def szsub_exact size_mod_def)
  next
    case False
    then have "szsub (remainBytes ?P) 4992 = remainBytes ?P - 4992"
      using C by (intro szsub_exact) (simp_all add: size_mod_def)
    moreover have "remainBytes ?P - 4992 \<le> 131072" using C by linarith
    ultimately show ?thesis using C False dvd n
      by (intro exI [of _ "memory ?P"] exI [of _ "?P\<lparr>memory := memory ?P + 4992, remainBytes := szsub (remainBytes ?P) 4992\<rparr>"]
          exI [of _ ?os]) (simp add: TcPool_New_def New_def Let_def)
  qed
qed

text \<open>The thread's cache exists after the first step of \<^verbatim>\<open>ConcurrentAlloc\<close>.\<close>

definition ensure_cache :: "'o sbrk \<Rightarrow> nat \<Rightarrow> 'o allocator \<Rightarrow> 'o allocator result" where
  "ensure_cache sbrk tid a =
     (if tls_threadcache a tid = 0
      then bindR (TcPool_New sbrk a) (\<lambda>(p, a1). Inr (a1\<lparr>tls_threadcache := (tls_threadcache a1)(tid := p)\<rparr>))
      else Inr a)"

lemma ensure_cache_ok:
  assumes inv: "al_inv brk a L ls" and law: "sbrk_law sbrk brk"
  shows "\<exists>a1. ensure_cache sbrk tid a = Inr a1 \<and> al_inv brk a1 L ls \<and> tls_threadcache a1 tid \<noteq> 0 \<and>
    cc_mem (central a1) = cc_mem (central a) \<and>
    brk (pc_os (cc_page (central a1))) \<le> brk (pc_os (cc_page (central a))) + 131072"
proof (cases "tls_threadcache a tid = 0")
  case False
  then show ?thesis using inv by (simp add: ensure_cache_def)
next
  case True
  note C = al_invD(7) [OF inv, unfolded caches_ok_def]
  obtain p P os where p: "TcPool_New sbrk a =
      Inr (p, a\<lparr>central := (central a)\<lparr>cc_page := (cc_page (central a))\<lparr>pc_os := os\<rparr>\<rparr>, TcPool := P,
        tcs := (tcs a)(p := ThreadCache_init)\<rparr>)"
      "\<forall>t. tls_threadcache a t < p" "p < brk os" "freeList P = 0" "p < memory P" "memory P + remainBytes P \<le> brk os"
      "brk (pc_os (cc_page (central a))) \<le> brk os" "brk os \<le> brk (pc_os (cc_page (central a))) + 131072" "PAGE_SIZE dvd brk os"
      "remainBytes P \<le> 131072"
    using TcPool_New_fresh [OF al_invD(7) [OF inv] law central_ok_aligned [OF al_invD(1) [OF inv]]] by blast
  let ?c = "(central a)\<lparr>cc_page := (cc_page (central a))\<lparr>pc_os := os\<rparr>\<rparr>"
  define a1 where "a1 = a\<lparr>central := ?c, TcPool := P, tcs := (tcs a)(p := ThreadCache_init),
    tls_threadcache := (tls_threadcache a)(tid := p)\<rparr>"
  have p0: "p \<noteq> 0" using p(2) by (metis not_less_zero)
  have ne: "tls_threadcache a t \<noteq> p" for t using p(2) by (metis less_irrefl)
  have "caches_ok brk a1"
    using C p(2-7,10) ne unfolding caches_ok_def by (auto simp: a1_def intro: less_trans less_le_trans)
  moreover have "central_ok brk (central a1) (outside L ls)"
    unfolding a1_def using central_ok_os [OF al_invD(1) [OF inv] p(7,9)] by simp
  moreover have "tc_ok (cc_mem (central a1)) (tcs a1 (tls_threadcache a1 t)) (ls t)" if "tls_threadcache a1 t \<noteq> 0" for t
    using that al_invD(2) [OF inv, of t] al_invD(3) [OF inv True] tc_ok_init ne [of t] by (auto simp: a1_def)
  moreover have "ls t = (\<lambda>_. [])" if "tls_threadcache a1 t = 0" for t
    using that al_invD(3) [OF inv, of t] p0 by (simp add: a1_def split: if_splits)
  ultimately have "al_inv brk a1 L ls"
    using al_invD(4,5,6) [OF inv] by (intro al_invI) simp_all
  moreover have "ensure_cache sbrk tid a = Inr a1" using True p(1) by (simp add: ensure_cache_def a1_def)
  ultimately show ?thesis using p(8) p0 by (intro exI [of _ a1]) (simp add: a1_def)
qed

section \<open>Allocation and release\<close>

text \<open>
  The state of one thread's cache and of the central cache is replaced: what has to hold for the new free
  lists \<open>l\<close> of the thread.
\<close>

lemma al_inv_update:
  assumes inv: "al_inv brk a L ls" and t: "tls_threadcache a t \<noteq> 0"
    and c: "central_ok brk c (outside L' (ls(t := l)))" "brk (pc_os (cc_page (central a))) \<le> brk (pc_os (cc_page c))"
    and tc: "tc_ok (cc_mem c) tc l"
    and others: "\<And>u i x. u \<noteq> t \<Longrightarrow> x \<in> set (ls u i) \<Longrightarrow>
      cc_mem c x = cc_mem (central a) x \<and> x \<notin> set (l i) \<and> x \<notin> dom L'"
    and L': "\<And>i. set (l i) \<inter> dom L' = {}" "\<And>x n. L' x = Some n \<Longrightarrow> object_size n"
  shows "al_inv brk (a\<lparr>central := c, tcs := (tcs a)(tls_threadcache a t := tc)\<rparr>) L' (ls(t := l))"
    (is "al_inv brk ?a L' ?ls")
proof (rule al_invI)
  note C = al_invD(7) [OF inv, unfolded caches_ok_def]
  show "caches_ok brk ?a" using C c(2) unfolding caches_ok_def by (auto intro: less_le_trans order_trans)
  show "tc_ok (cc_mem (central ?a)) (tcs ?a (tls_threadcache ?a u)) (?ls u)" if u: "tls_threadcache ?a u \<noteq> 0" for u
  proof (cases "u = t")
    case False
    then have "tls_threadcache a u \<noteq> tls_threadcache a t" using C t by metis
    moreover have "tc_ok (cc_mem c) (tcs a (tls_threadcache a u)) (ls u)"
      using others [OF False] by (intro tc_ok_frame [OF al_invD(2) [OF inv]]) (use u in auto)
    ultimately show ?thesis using False by simp
  qed (use tc in simp)
  show "?ls u = (\<lambda>_. [])" if "tls_threadcache ?a u = 0" for u using that t al_invD(3) [OF inv, of u] by auto
  show "set (?ls u i) \<inter> dom L' = {}" for u i using L'(1) [of i] others [of u] by (cases "u = t") auto
  show "set (?ls u i) \<inter> set (?ls v i) = {}" if "u \<noteq> v" for u v i
  proof -
    have "set (l i) \<inter> set (ls w i) = {}" if "w \<noteq> t" for w using others [OF that] by blast
    then show ?thesis using that al_invD(5) [OF inv that, of i] by (cases "u = t"; cases "v = t") auto
  qed
qed (use c(1) L'(2) in simp_all)

lemma al_inv_in_one_list:
  assumes inv: "al_inv brk a L ls" and x: "x \<in> set (ls t i)" "x \<in> set (ls u j)"
  shows "t = u"
proof (rule ccontr)
  assume ne: "t \<noteq> u"
  then have "i \<noteq> j" using al_invD(5) [OF inv ne, of i] x by auto
  then show False
    using central_ok_apart [OF al_invD(1) [OF inv], of i j] x outside_list [of ls t i L] outside_list [of ls u j L] by blast
qed

text \<open>The objects of the thread's list and the fetched ones belong to no other thread.\<close>

lemma fetched_new:
  assumes inv: "al_inv brk a L ls" and f: "fetched_from brk (central a) (outside L ls) i N c"
    and y: "y \<in> set (ls t i) \<union> N"
  shows "y \<notin> dom L" "y \<in> set (ls u j) \<Longrightarrow> u = t \<and> j = i"
proof -
  note F = f [unfolded fetched_from_def]
  consider "y \<in> set (ls t i)" | "y \<in> N" using y by blast
  then show "y \<notin> dom L"
  proof cases
    case 1
    then show ?thesis using al_invD(4) [OF inv, of t i] by blast
  next
    case 2
    then show ?thesis using F outside_live [of L y _ ls] by blast
  qed
  assume u: "y \<in> set (ls u j)"
  then have "y \<notin> N" using F outside_list [of ls u j L] by blast
  then have yi: "y \<in> set (ls t i)" using y by blast
  then have "y \<in> outside L ls i" "y \<in> outside L ls j" using u outside_list [of ls] by blast+
  then have "j = i" using central_ok_apart [OF al_invD(1) [OF inv], of j i] by blast
  then show "u = t \<and> j = i" using al_inv_in_one_list [OF inv u] yi by blast
qed

lemma al_inv_Allocate:
  assumes inv: "al_inv brk a L ls" and law: "sbrk_law sbrk brk" and t: "tls_threadcache a t \<noteq> 0"
    and room: "brk (pc_os (cc_page (central a))) + 131072 + 2 ^ 33 \<le> 2 ^ 48" and sz: "0 < unat sz" "unat sz \<le> 262144"
  defines "n \<equiv> class_size (unat sz)"
  shows "\<exists>rounds x tc c l. (\<forall>fuel>rounds. Allocate fuel sbrk sz (tcs a (tls_threadcache a t), central a) = Inr (x, tc, c)) \<and>
    x \<noteq> 0 \<and> x \<notin> dom L \<and>
    al_inv brk (a\<lparr>central := c, tcs := (tcs a)(tls_threadcache a t := tc)\<rparr>) (L(x \<mapsto> n)) (ls(t := l)) \<and>
    (\<forall>y k b. L y = Some k \<longrightarrow> b \<in> cells k y \<longrightarrow> cc_mem c b = cc_mem (central a) b)"
proof -
  let ?i = "class_index (unat sz)" and ?K = "outside L ls"
  have ni: "class_index n = ?i" using class_index_class_size [OF sz] by (simp add: n_def)
  have on: "object_size n"
    using class_size_bounds [OF sz] class_size_idem [OF sz] sz by (simp add: object_size_def n_def)
  obtain rounds x tc c ys N where A:
      "\<forall>fuel>rounds. Allocate fuel sbrk sz (tcs a (tls_threadcache a t), central a) = Inr (x, tc, c)" "x \<noteq> 0"
      "tc_ok (cc_mem c) tc ((ls t)(?i := ys))" "fetched_from brk (central a) ?K ?i N c" "x \<notin> set ys"
      "set (x # ys) = set (ls t ?i) \<union> N"
    using Allocate_ok [OF al_invD(1) [OF inv] law room sz al_invD(2) [OF inv t] outside_list] by blast
  note F = A(4) [unfolded fetched_from_def]
  have new: "y \<notin> dom L" "y \<in> set (ls u j) \<Longrightarrow> u = t \<and> j = ?i" if "y \<in> set (x # ys)" for y u j
    using fetched_new [OF inv A(4), of y t] that A(6) by blast+
  have x: "x \<notin> dom L" using new(1) [of x] by simp
  have K: "central_ok brk c (outside (L(x \<mapsto> n)) (ls(t := (ls t)(?i := ys))))"
    using F outside_alloc [of x ys ls t n N L] A(6) x unfolding ni by simp
  have "al_inv brk (a\<lparr>central := c, tcs := (tcs a)(tls_threadcache a t := tc)\<rparr>) (L(x \<mapsto> n)) (ls(t := (ls t)(?i := ys)))"
  proof (rule al_inv_update [OF inv t K _ A(3)])
    show "cc_mem c y = cc_mem (central a) y \<and> y \<notin> set (((ls t)(?i := ys)) j) \<and> y \<notin> dom (L(x \<mapsto> n))"
      if u: "u \<noteq> t" "y \<in> set (ls u j)" for u j y
    proof -
      have "y \<notin> set (x # ys)" using new(2) [of y u j] u by blast
      moreover have "y \<notin> set (ls t k)" for k using al_inv_in_one_list [OF inv u(2)] u(1) by blast
      moreover have "cc_mem c y = cc_mem (central a) y" using F outside_list [of ls u j L] u(2) by blast
      moreover have "y \<notin> dom L" using al_invD(4) [OF inv, of u j] u(2) by blast
      ultimately show ?thesis by simp
    qed
    show "set (((ls t)(?i := ys)) j) \<inter> dom (L(x \<mapsto> n)) = {}" for j
    proof -
      have "x \<notin> set (ls t j)" if "j \<noteq> ?i" using new(2) [of x t j] that by auto
      moreover have "y \<notin> dom L" if "y \<in> set ys" for y using new(1) [of y] that by simp
      ultimately show ?thesis using A(5) al_invD(4) [OF inv, of t j] by (cases "j = ?i") auto
    qed
  qed (use F on al_invD(6) [OF inv] in \<open>auto split: if_splits\<close>)
  moreover have "cc_mem c b = cc_mem (central a) b" if "L y = Some k" "b \<in> cells k y" for y k b
    using F outside_live [of L y k ls] al_invD(6) [OF inv] that by blast
  ultimately show ?thesis using A(1,2) x by blast
qed

lemma ConcurrentAlloc_ok:
  assumes inv: "al_inv brk a L ls" and law: "sbrk_law sbrk brk"
    and room: "brk (pc_os (cc_page (central a))) + 262144 + 2 ^ 33 \<le> 2 ^ 48" and sz: "0 < unat sz" "unat sz \<le> 262144"
  defines "n \<equiv> class_size (unat sz)"
  shows "\<exists>rounds x a' ls'. (\<forall>fuel>rounds. ConcurrentAlloc fuel sbrk tid sz a = Inr (x, a')) \<and> x \<noteq> 0 \<and> x \<notin> dom L \<and>
    al_inv brk a' (L(x \<mapsto> n)) ls' \<and>
    (\<forall>y k b. L y = Some k \<longrightarrow> b \<in> cells k y \<longrightarrow> cc_mem (central a') b = cc_mem (central a) b)"
proof -
  obtain a1 where a1: "ensure_cache sbrk tid a = Inr a1" "al_inv brk a1 L ls" "tls_threadcache a1 tid \<noteq> 0"
      "cc_mem (central a1) = cc_mem (central a)"
      "brk (pc_os (cc_page (central a1))) \<le> brk (pc_os (cc_page (central a))) + 131072"
    using ensure_cache_ok [OF inv law] by blast
  have room1: "brk (pc_os (cc_page (central a1))) + 131072 + 2 ^ 33 \<le> 2 ^ 48" using room a1(5) by simp
  obtain rounds x tc c l where A:
      "\<forall>fuel>rounds. Allocate fuel sbrk sz (tcs a1 (tls_threadcache a1 tid), central a1) = Inr (x, tc, c)"
      "x \<noteq> 0" "x \<notin> dom L"
      "al_inv brk (a1\<lparr>central := c, tcs := (tcs a1)(tls_threadcache a1 tid := tc)\<rparr>) (L(x \<mapsto> n)) (ls(tid := l))"
      "\<forall>y k b. L y = Some k \<longrightarrow> b \<in> cells k y \<longrightarrow> cc_mem c b = cc_mem (central a1) b"
    using al_inv_Allocate [OF a1(2) law a1(3) room1 sz] unfolding n_def by blast
  let ?a = "a1\<lparr>central := c, tcs := (tcs a1)(tls_threadcache a1 tid := tc)\<rparr>"
  have "ConcurrentAlloc fuel sbrk tid sz a = Inr (x, ?a)" if "rounds < fuel" for fuel
    using A(1) a1(1,3) sz that
    by (simp add: ConcurrentAlloc_def ensure_cache_def [symmetric] Let_def max_bytes leD)
  then show ?thesis using A(2-5) a1(4) by (intro exI [of _ rounds] exI [of _ x] exI [of _ ?a] exI [of _ "ls(tid := l)"]) simp
qed

lemma central_ok_nonnull:
  assumes "central_ok brk c K" "x \<in> K i"
  shows "x \<noteq> 0"
proof -
  obtain fr bl fo ho where inv: "cc_inv brk c fr bl fo ho" "held bl ho = K"
    by (rule central_okE [OF assms(1)])
  obtain p where p: "i < NFREELIST" "p \<in> set (bl i)" "x \<in> set (ho p)"
    using assms(2) inv(2) by (auto simp: held_def split: if_splits)
  have U: "p \<in> set (used_spans bl)" by (rule in_used [of i p bl, OF p(1,2)])
  have "x div PAGE_SIZE \<in> pages (cc_spans c p)" using cc_invD(3) [OF inv(1) U] p(3) by (simp add: span_ok_def)
  moreover have "pc_st brk (cc_page c) fr (used_spans bl) (bucket_heads c) {}"
    using cc_invD(1) [OF inv(1)] by (simp add: pc_inv_def)
  then have "0 \<notin> pages (cc_spans c p)" using geoD(8) [OF pc_stD(4), of brk "cc_page c"] U unfolding cc_spans_def by blast
  ultimately show ?thesis by (cases "x = 0") auto
qed

text \<open>The span of a live object, and so its size, is found through the page map.\<close>

lemma central_ok_lookup:
  assumes ok: "central_ok brk c K" and x: "x \<in> K (class_index n)" "object_size n"
    and found: "n \<le> 24 \<or> mapped c (class_index n) x"
  shows "\<exists>sp. map_object_to_Span x (cc_page c) = Inr sp \<and> objsize (cc_spans c sp) = n"
proof -
  obtain fr bl fo ho where inv: "cc_inv brk c fr bl fo ho" "held bl ho = K" "\<forall>n\<in>obj_sizes c bl. class_size n = n"
    by (rule central_okE [OF ok])
  have n: "0 < n" "n \<le> 262144" using x(2) by (simp_all add: object_size_def)
  have i: "class_index n < NFREELIST" by (rule class_index_bound [OF n])
  have h: "x \<in> held bl ho (class_index n)" using x(1) inv(2) by simp
  have "owned c bl ho (class_index n) x"
    using found mapped_owned [OF inv(1) i _ h] small_owned [OF inv(1) _ h] small_class [OF n] by blast
  then obtain sp where sp: "sp \<in> set (bl (class_index n))" "x \<in> set (ho sp)"
      "get_span (x div PAGE_SIZE) (id_span_map (cc_page c)) = sp"
    unfolding owned_def by blast
  have U: "sp \<in> set (used_spans bl)" by (rule in_used [of "class_index n" sp bl, OF i sp(1)])
  obtain p where p: "p \<in> set (bl (class_index n))" "x \<in> set (ho p)" "objsize (cc_spans c p) = n"
    using held_span [OF inv(1,3) h x(2)] by metis
  have "sp = p"
    using cc_inv_apart [OF inv(1) U in_used [of "class_index n" p bl, OF i p(1)], of x] sp(2) p(2) by simp
  then show ?thesis using p(3) sp(3) cc_invD(5) [OF inv(1) U] by (simp add: map_object_to_Span_def)
qed

lemma deallocate_below:
  assumes sz: "0 < unat sz" "unat sz \<le> 262144" and fl: "list_ok (cc_mem c) (freelist tc i) xs" "i = class_index (unat sz)"
    and x: "x \<noteq> 0" "x \<notin> set xs" "length xs < maxSize (freelist tc i)"
  shows "\<exists>fl' m. (\<forall>fuel. deallocate fuel bk x sz (tc, c) = Inr (set_list i fl' tc, c\<lparr>cc_mem := m\<rparr>)) \<and>
    list_ok m fl' (x # xs) \<and> m = (cc_mem c)(x := head (freelist tc i))"
proof -
  let ?fl = "freelist tc i" and ?m = "(cc_mem c)(x := head (freelist tc i))"
  let ?fl' = "\<lparr>head = x, maxSize = maxSize ?fl, fl_size = length xs + 1\<rparr>"
  have rep: "fl_rep (cc_mem c, ?fl) xs" "maxSize ?fl \<le> 513" using fl(1) by (simp_all add: list_ok_def)
  have len: "Suc (length xs) < size_mod" "fl_size ?fl = length xs"
    using rep x(3) by (simp_all add: size_mod_def fl_rep_def)
  have "push x (cc_mem c, ?fl) = Inr (?m, ?fl')"
    using x(1) len by (cases ?fl) (simp add: push_def set_NEXT_OBJ_def szadd_exact)
  then have "deallocate fuel bk x sz (tc, c) = Inr (set_list i ?fl' tc, c\<lparr>cc_mem := ?m\<rparr>)" for fuel
    using x(1,3) sz list_index_ok [OF sz] fl(2) by (simp add: deallocate_def max_bytes [symmetric] Let_def)
  moreover have "list_ok ?m ?fl' (x # xs)"
    using fl(1) rep x len by (simp add: list_ok_def fl_rep_def)
  ultimately show ?thesis by blast
qed

text \<open>A live object becomes the first one of a list of the thread \<open>t\<close>.\<close>

lemma al_inv_dealloc:
  assumes inv: "al_inv brk a L ls" and t: "tls_threadcache a t \<noteq> 0" and x: "L x = Some n"
    and i: "i = class_index n" and m: "m = (cc_mem (central a))(x := v)"
    and v: "v = head (freelist (tcs a (tls_threadcache a t)) i)" and fl: "list_ok m fl' (x # ls t i)"
  defines "a' \<equiv> a\<lparr>central := (central a)\<lparr>cc_mem := m\<rparr>,
      tcs := (tcs a)(tls_threadcache a t := set_list i fl' (tcs a (tls_threadcache a t)))\<rparr>"
  shows "al_inv brk a' (L(x := None)) (ls(t := (ls t)(i := x # ls t i)))"
    "\<forall>y k b. L y = Some k \<longrightarrow> y \<noteq> x \<longrightarrow> b \<in> cells k y \<longrightarrow> cc_mem (central a') b = cc_mem (central a) b"
proof -
  let ?c = "central a" and ?p = "tls_threadcache a t" and ?l = "(ls t)(i := x # ls t i)"
  note ok = al_invD(1) [OF inv]
  have xK: "x \<in> outside L ls i" unfolding i by (rule outside_live [of L, OF x])
  have xl: "x \<notin> set (ls u j)" for u j using al_invD(4) [OF inv, of u j] x by auto
  have "tc_ok m (tcs a ?p) (ls t)"
    using xl by (intro tc_ok_frame [OF al_invD(2) [OF inv t]]) (auto simp: m)
  then have tcok: "tc_ok (cc_mem (?c\<lparr>cc_mem := m\<rparr>)) (set_list i fl' (tcs a ?p)) ?l" using tc_ok_upd [OF _ fl] by simp
  have K: "central_ok brk (?c\<lparr>cc_mem := m\<rparr>) (outside (L(x := None)) (ls(t := ?l)))"
    unfolding i outside_free [of L, OF x] m by (rule central_ok_link [OF ok xK [unfolded i]])
  show "al_inv brk a' (L(x := None)) (ls(t := ?l))"
    unfolding a'_def
  proof (rule al_inv_update [OF inv t K _ tcok])
    show "cc_mem (?c\<lparr>cc_mem := m\<rparr>) y = cc_mem ?c y \<and> y \<notin> set (?l j) \<and> y \<notin> dom (L(x := None))"
      if u: "u \<noteq> t" "y \<in> set (ls u j)" for u j y
      using u xl [of u j] al_inv_in_one_list [OF inv u(2), of t] al_invD(4) [OF inv, of u j] by (auto simp: m)
    show "set (?l j) \<inter> dom (L(x := None)) = {}" for j
      using al_invD(4) [OF inv, of t j] al_invD(4) [OF inv, of t i] by auto
  qed (use al_invD(6) [OF inv] in \<open>auto split: if_splits\<close>)
  show "\<forall>y k b. L y = Some k \<longrightarrow> y \<noteq> x \<longrightarrow> b \<in> cells k y \<longrightarrow> cc_mem (central a') b = cc_mem ?c b"
  proof (intro allI impI)
    fix y k b assume y: "L y = Some k" "y \<noteq> x" "b \<in> cells k y"
    show "cc_mem (central a') b = cc_mem ?c b"
      using central_ok_write(2) [OF ok outside_live [of L, OF y(1)] al_invD(6) [OF inv y(1)] y(3), of i] xK y(2)
      by (auto simp: m a'_def)
  qed
qed

lemma ConcurrentFree_ok:
  assumes inv: "al_inv brk a L ls" and t: "tls_threadcache a t \<noteq> 0" and x: "L x = Some n"
    and found: "n \<le> 24 \<or> mapped (central a) (class_index n) x"
  defines "fl \<equiv> freelist (tcs a (tls_threadcache a t)) (class_index n)"
  shows "fl_size fl < maxSize fl \<Longrightarrow> \<exists>a' ls'. (\<forall>fuel. ConcurrentFree fuel bk t x a = Inr a') \<and> al_inv brk a' (L(x := None)) ls' \<and>
      (\<forall>y k b. L y = Some k \<longrightarrow> y \<noteq> x \<longrightarrow> b \<in> cells k y \<longrightarrow> cc_mem (central a') b = cc_mem (central a) b)"
    and "maxSize fl \<le> fl_size fl \<Longrightarrow> ConcurrentFree fuel bk t x a = Inl AssertFailed"
proof -
  let ?c = "central a" and ?p = "tls_threadcache a t" and ?i = "class_index n"
  have on: "object_size n" by (rule al_invD(6) [OF inv x])
  then have n: "unat (of_nat n :: word64) = n" "0 < n" "n \<le> 262144" by (simp_all add: object_size_def unat_of_nat)
  then have sz: "0 < unat (of_nat n :: word64)" "unat (of_nat n :: word64) \<le> 262144" by simp_all
  have xK: "x \<in> outside L ls ?i" by (rule outside_live [of L, OF x])
  note ok = al_invD(1) [OF inv]
  obtain sp where sp: "map_object_to_Span x (cc_page ?c) = Inr sp" "objsize (cc_spans ?c sp) = n"
    using central_ok_lookup [OF ok xK on found] by blast
  have run: "ConcurrentFree fuel bk t x a =
      bindR (deallocate fuel bk x (of_nat n) (tcs a ?p, ?c)) (\<lambda>(tc, c). Inr (a\<lparr>central := c, tcs := (tcs a)(?p := tc)\<rparr>))"
    for fuel
    using free_known_thread [OF sp(1) _ sz(2) refl t] sp(2) n(1) by simp
  have li: "list_ok (cc_mem ?c) fl (ls t ?i)" using al_invD(2) [OF inv t] by (simp add: fl_def tc_ok_def)
  then have rep: "fl_rep (cc_mem ?c, freelist (tcs a ?p) ?i) (ls t ?i)" "fl_size fl = length (ls t ?i)" "maxSize fl \<le> 513"
      "length (ls t ?i) \<le> maxSize fl"
    by (simp_all add: list_ok_def fl_def fl_rep_def)
  have x0: "x \<noteq> 0" by (rule central_ok_nonnull [OF ok xK])
  have xl: "x \<notin> set (ls u j)" for u j using al_invD(4) [OF inv, of u j] x by auto
  have len: "Suc (length (ls t ?i)) < size_mod" using rep(3,4) by (simp add: size_mod_def)
  have ci: "?i = class_index (unat (of_nat n :: word64))" by (simp add: n(1))
  show "ConcurrentFree fuel bk t x a = Inl AssertFailed" if full: "maxSize fl \<le> fl_size fl"
    using deallocate_full [OF sz ci rep(1) x0 xl len, of fuel bk] full rep(2) run [of fuel] unfolding fl_def by simp
  show "\<exists>a' ls'. (\<forall>fuel. ConcurrentFree fuel bk t x a = Inr a') \<and> al_inv brk a' (L(x := None)) ls' \<and>
      (\<forall>y k b. L y = Some k \<longrightarrow> y \<noteq> x \<longrightarrow> b \<in> cells k y \<longrightarrow> cc_mem (central a') b = cc_mem (central a) b)"
    if room: "fl_size fl < maxSize fl"
  proof -
    have lt: "length (ls t ?i) < maxSize (freelist (tcs a ?p) ?i)" using room rep(2) by (simp add: fl_def)
    obtain fl' m where d: "\<forall>fuel. deallocate fuel bk x (of_nat n) (tcs a ?p, ?c) =
          Inr (set_list ?i fl' (tcs a ?p), ?c\<lparr>cc_mem := m\<rparr>)"
        "list_ok m fl' (x # ls t ?i)" and m: "m = (cc_mem ?c)(x := head (freelist (tcs a ?p) ?i))"
      using deallocate_below [OF sz li [unfolded fl_def] ci x0 xl lt] by blast
    let ?a = "a\<lparr>central := ?c\<lparr>cc_mem := m\<rparr>, tcs := (tcs a)(?p := set_list ?i fl' (tcs a ?p))\<rparr>"
    have "\<forall>fuel. ConcurrentFree fuel bk t x a = Inr ?a" using run d(1) by simp
    then show ?thesis using al_inv_dealloc [OF inv t x refl m refl d(2)] by blast
  qed
qed

text \<open>The owner of a live object writes into it.\<close>

lemma al_inv_write:
  assumes inv: "al_inv brk a L ls" and x: "L x = Some n" "b \<in> cells n x"
  shows "al_inv brk (a\<lparr>central := (central a)\<lparr>cc_mem := (cc_mem (central a))(b := v)\<rparr>\<rparr>) L ls"
proof (rule al_invI)
  let ?c = "(central a)\<lparr>cc_mem := (cc_mem (central a))(b := v)\<rparr>"
  let ?a = "a\<lparr>central := ?c\<rparr>"
  note w = central_ok_write [OF al_invD(1) [OF inv] outside_live [of L, OF x(1)] al_invD(6) [OF inv x(1)] x(2)]
  show "central_ok brk (central ?a) (outside L ls)" using w(1) by simp
  have nb: "b \<notin> set (ls t i)" for t i
    using w(2) [of i] outside_list [of ls t i L] al_invD(4) [OF inv, of t i] x(1) by blast
  have "tc_ok ((cc_mem (central a))(b := v)) (tcs a (tls_threadcache a t)) (ls t)" if "tls_threadcache a t \<noteq> 0" for t
    by (rule tc_ok_frame [OF al_invD(2) [OF inv that]]) (use nb in auto)
  then show "tc_ok (cc_mem (central ?a)) (tcs ?a (tls_threadcache ?a t)) (ls t)" if "tls_threadcache ?a t \<noteq> 0" for t
    using that by simp
  show "caches_ok brk ?a" using al_invD(7) [OF inv] by (simp add: caches_ok_def)
qed (use al_invD(3-6) [OF inv] in simp_all)

end
