(* ===== verification/AllocLife.thy ===== *)
theory AllocLife
  imports AllocSafe
begin

text \<open>
  The life of the allocator: any sequence of \<^verbatim>\<open>ConcurrentAlloc\<close> and \<^verbatim>\<open>ConcurrentFree\<close> by any threads, with
  writes to the live objects in between.
\<close>

section \<open>More rounds do not change a result\<close>

lemma Allocate_mono:
  assumes "Allocate f sbrk sz (tc, c) = Inr r" "f \<le> f'"
  shows "Allocate f' sbrk sz (tc, c) = Inr r"
proof -
  have "fetch_from_CentralCache f' sbrk i al (tc, c) = Inr r'"
    if "fetch_from_CentralCache f sbrk i al (tc, c) = Inr r'" for i al r'
  proof (cases "num_move_size al")
    case (Inr k)
    show ?thesis
      using that fetch_range_obj_mono [OF _ assms(2)]
      unfolding fetch_from_CentralCache_def prod.case Inr bindR_simps Let_def by (elim bindR_mono) blast
  qed (use that in \<open>simp add: fetch_from_CentralCache_def\<close>)
  then show ?thesis
    using assms(1) by (cases r) (auto simp: Allocate_def bindR_def split: if_splits sum.splits)
qed

lemma ConcurrentAlloc_mono:
  assumes "ConcurrentAlloc f sbrk tid sz a = Inr r" "f \<le> f'"
  shows "ConcurrentAlloc f' sbrk tid sz a = Inr r"
  using assms(1) Allocate_mono [OF _ assms(2)]
  by (fastforce simp: ConcurrentAlloc_def bindR_eq_Inr Let_def split: if_splits)

section \<open>Reachable states\<close>

text \<open>
  The static objects before the first allocation; \<open>T\<close> is what the memory of the thread caches holds. \<open>L\<close> are the
  live objects with the sizes that were set aside for them. An owner writes into the block of its object. A
  release needs the page map to lead from the object to its span, as it does for all objects of up to 24 bytes
  and for objects on the first page of their span.
\<close>

definition Allocator_init :: "'o central_cache \<Rightarrow> (addr \<Rightarrow> thread_cache) \<Rightarrow> 'o allocator" where
  "Allocator_init c T = \<lparr>central = c, TcPool = objectPool_init, tcs = T, tls_threadcache = (\<lambda>_. 0)\<rparr>"

inductive al_reach ::
    "('o \<Rightarrow> nat) \<Rightarrow> 'o sbrk \<Rightarrow> (addr \<Rightarrow> 'o \<Rightarrow> 'o) \<Rightarrow> 'o allocator \<Rightarrow> (addr \<rightharpoonup> nat) \<Rightarrow> bool"
  for brk sbrk bk where
  al_start: "heads_ok (brk os) pl (map sl [0..<NFREELIST]) \<Longrightarrow> PAGE_SIZE dvd brk os \<Longrightarrow>
    PageCache_new pl h os = Inr q \<Longrightarrow> CentralCache_new sl m q = Inr c \<Longrightarrow>
    al_reach brk sbrk bk (Allocator_init c T) Map.empty"
| al_allocs: "al_reach brk sbrk bk a L \<Longrightarrow> 0 < unat sz \<Longrightarrow> unat sz \<le> 262144 \<Longrightarrow>
    brk (pc_os (cc_page (central a))) + 262144 + 2 ^ 33 \<le> 2 ^ 48 \<Longrightarrow>
    ConcurrentAlloc fuel sbrk tid sz a = Inr (x, a') \<Longrightarrow> al_reach brk sbrk bk a' (L(x \<mapsto> class_size (unat sz)))"
| al_frees: "al_reach brk sbrk bk a L \<Longrightarrow> L x = Some n \<Longrightarrow> n \<le> 24 \<or> mapped (central a) (class_index n) x \<Longrightarrow>
    ConcurrentFree fuel bk tid x a = Inr a' \<Longrightarrow> al_reach brk sbrk bk a' (L(x := None))"
| al_writes: "al_reach brk sbrk bk a L \<Longrightarrow> L x = Some n \<Longrightarrow> b \<in> cells n x \<Longrightarrow>
    al_reach brk sbrk bk (a\<lparr>central := (central a)\<lparr>cc_mem := (cc_mem (central a))(b := v)\<rparr>\<rparr>) L"

lemma al_inv_init:
  assumes "cc_inv brk c fr (\<lambda>_. []) (\<lambda>_. []) (\<lambda>_. [])" "sbrk_law sbrk brk"
  shows "al_inv brk (Allocator_init c T) Map.empty (\<lambda>_ _. [])"
proof -
  have K: "held (\<lambda>_. []) (\<lambda>_. []) = outside Map.empty (\<lambda>_ _. [])"
    by (intro ext) (auto simp: held_def outside_def live_in_def)
  have none: "set (used_spans (\<lambda>_. [])) = ({} :: addr set)" by simp
  have "central_ok brk c (outside Map.empty (\<lambda>_ _. []))"
    unfolding central_ok_def using assms(1) K none unfolding obj_sizes_def by (metis empty_iff image_empty)
  moreover have "caches_ok brk (Allocator_init c T)"
    using sbrk_lawD(2) [OF assms(2)] by (simp add: caches_ok_def Allocator_init_def objectPool_init_def)
  ultimately show ?thesis by (intro al_invI) (simp_all add: Allocator_init_def)
qed

text \<open>A thread that has never allocated cannot free.\<close>

lemma free_without_cache:
  assumes inv: "al_inv brk a L ls" and x: "L x = Some n" "n \<le> 24 \<or> mapped (central a) (class_index n) x"
    and t: "tls_threadcache a tid = 0"
  shows "ConcurrentFree fuel bk tid x a = Inl AssertFailed"
proof -
  have on: "object_size n" by (rule al_invD(6) [OF inv x(1)])
  obtain sp where sp: "map_object_to_Span x (cc_page (central a)) = Inr sp" "objsize (cc_spans (central a) sp) = n"
    using central_ok_lookup [OF al_invD(1) [OF inv] outside_live [of L, OF x(1)] on x(2)] by blast
  have "\<not> unat MAXBYTES < n" using on by (simp add: object_size_def MAXBYTES_def)
  then show ?thesis using sp t by (simp add: ConcurrentFree_def Let_def)
qed

lemma al_reach_inv:
  assumes "al_reach brk sbrk bk a L" "sbrk_law sbrk brk"
  shows "\<exists>ls. al_inv brk a L ls"
  using assms
proof (induction rule: al_reach.induct)
  case (al_start os pl sl h q m c T)
  obtain q' where "PageCache_new pl h os = Inr q'" "pc_inv brk q' (\<lambda>_. []) [] (map sl [0..<NFREELIST])"
    using PageCache_new_ok [where brk = brk, OF al_start(1,2), of h] by blast
  then have "cc_inv brk c (\<lambda>_. []) (\<lambda>_. []) (\<lambda>_. []) (\<lambda>_. [])"
    using CentralCache_new_ok [of brk q "\<lambda>_. []" sl m] al_start(3,4) by auto
  from al_inv_init [OF this al_start.prems] show ?case by blast
next
  case (al_allocs a L sz fuel tid x a')
  then obtain ls where inv: "al_inv brk a L ls" by blast
  obtain rounds y b ls' where A: "\<forall>fuel>rounds. ConcurrentAlloc fuel sbrk tid sz a = Inr (y, b)"
      "al_inv brk b (L(y \<mapsto> class_size (unat sz))) ls'"
    using ConcurrentAlloc_ok [OF inv al_allocs.prems al_allocs.hyps(4,2,3)] by blast
  have "ConcurrentAlloc (Suc (fuel + rounds)) sbrk tid sz a = Inr (x, a')"
    by (rule ConcurrentAlloc_mono [OF al_allocs.hyps(5)]) simp
  moreover have "ConcurrentAlloc (Suc (fuel + rounds)) sbrk tid sz a = Inr (y, b)"
    by (rule A(1) [rule_format]) simp
  ultimately show ?case using A(2) by (metis Inr_inject Pair_inject)
next
  case (al_frees a L x n fuel tid a')
  then obtain ls where inv: "al_inv brk a L ls" by blast
  have t: "tls_threadcache a tid \<noteq> 0"
    using free_without_cache [OF inv al_frees.hyps(2,3)] al_frees.hyps(4) by (metis Inl_Inr_False)
  note F = ConcurrentFree_ok [OF inv t al_frees.hyps(2,3)]
  have "fl_size (freelist (tcs a (tls_threadcache a tid)) (class_index n))
      < maxSize (freelist (tcs a (tls_threadcache a tid)) (class_index n))"
    using F(2) [of fuel bk] al_frees.hyps(4) by (metis Inl_Inr_False not_le)
  from F(1) [OF this, of bk] show ?case using al_frees.hyps(4) by (metis Inr_inject)
next
  case (al_writes a L x n b v)
  then show ?case using al_inv_write by blast
qed

section \<open>The interface: a memory allocator\<close>

text \<open>
  What the users of an allocator rely on. \<open>allocates s n x t\<close>: an allocation leads from \<open>s\<close> to \<open>t\<close> and returns
  \<open>x\<close> with \<open>n\<close> bytes; \<open>whole n\<close>: objects of \<open>n\<close> bytes lie inside their spans. \<open>alloc_run\<close> is a sequence of
  allocations.
\<close>

fun alloc_run :: "('s \<Rightarrow> nat \<Rightarrow> addr \<Rightarrow> 's \<Rightarrow> bool) \<Rightarrow> 's \<Rightarrow> (nat \<times> addr) list \<Rightarrow> 's \<Rightarrow> bool" where
  "alloc_run allocates s [] t \<longleftrightarrow> s = t"
| "alloc_run allocates s ((n, x) # r) t \<longleftrightarrow> (\<exists>u. allocates s n x u \<and> alloc_run allocates u r t)"

locale memory_allocator =
  fixes state_ok :: "'s \<Rightarrow> (addr \<rightharpoonup> nat) \<Rightarrow> bool"
    and allocates :: "'s \<Rightarrow> nat \<Rightarrow> addr \<Rightarrow> 's \<Rightarrow> bool"
    and whole :: "nat \<Rightarrow> bool"
  assumes alloc_fresh: "state_ok s L \<Longrightarrow> allocates s n x t \<Longrightarrow> x \<notin> dom L \<and> state_ok t (L(x \<mapsto> n))"
    and live_apart: "state_ok s L \<Longrightarrow> L x = Some n \<Longrightarrow> L y = Some k \<Longrightarrow> x \<noteq> y \<Longrightarrow> whole n \<Longrightarrow> whole k \<Longrightarrow>
      block n x \<inter> block k y = {}"
begin

lemma run_live:
  assumes "state_ok s L" "alloc_run allocates s r t"
  shows "\<exists>L'. state_ok t L' \<and> L \<subseteq>\<^sub>m L' \<and> (\<forall>(n, x)\<in>set r. L' x = Some n) \<and> distinct (map snd r) \<and>
    snd ` set r \<inter> dom L = {}"
  using assms
proof (induction r arbitrary: s L)
  case (Cons b r)
  obtain n x where b: "b = (n, x)" by (cases b)
  obtain u where u: "allocates s n x u" "alloc_run allocates u r t" using Cons.prems(2) by (auto simp: b)
  note f = alloc_fresh [OF Cons.prems(1) u(1)]
  obtain L' where L': "state_ok t L'" "L(x \<mapsto> n) \<subseteq>\<^sub>m L'" "\<forall>(n, x)\<in>set r. L' x = Some n" "distinct (map snd r)"
      "snd ` set r \<inter> dom (L(x \<mapsto> n)) = {}"
    using Cons.IH [OF conjunct2 [OF f] u(2)] by blast
  have "L \<subseteq>\<^sub>m L'" using L'(2) f by (auto simp: map_le_def dom_def)
  moreover have "L' x = Some n" using L'(2) by (auto simp: map_le_def)
  moreover have "x \<notin> snd ` set r" "snd ` set r \<inter> dom L = {}" using L'(5) by auto
  ultimately show ?case using L'(1,3,4) f by (intro exI [of _ L']) (auto simp: b)
qed (auto intro: exI [of _ L for L])

lemma run_apart:
  assumes "state_ok s L" "alloc_run allocates s r t" "(n, x) \<in> set r" "(k, y) \<in> set r" "x \<noteq> y" "whole n" "whole k"
  shows "block n x \<inter> block k y = {}"
proof -
  obtain L' where L': "state_ok t L'" "\<forall>(n, x)\<in>set r. L' x = Some n" using run_live [OF assms(1,2)] by blast
  then show ?thesis using live_apart [OF L'(1) _ _ assms(5-7)] assms(3,4) by blast
qed

end

definition small_alloc :: "('o \<Rightarrow> nat) \<Rightarrow> 'o sbrk \<Rightarrow> 'o allocator \<Rightarrow> nat \<Rightarrow> addr \<Rightarrow> 'o allocator \<Rightarrow> bool" where
  "small_alloc brk sbrk a n x a' \<longleftrightarrow>
     (\<exists>fuel tid sz. 0 < unat sz \<and> unat sz \<le> 262144 \<and> n = class_size (unat sz) \<and>
        brk (pc_os (cc_page (central a))) + 262144 + 2 ^ 33 \<le> 2 ^ 48 \<and>
        ConcurrentAlloc fuel sbrk tid sz a = Inr (x, a'))"

lemma al_inv_blocks:
  assumes "al_inv brk a L ls" "L x = Some n" "L y = Some k" "x \<noteq> y" "fits n" "fits k"
  shows "block n x \<inter> block k y = {}"
  using central_blocks_apart [OF al_invD(1) [OF assms(1)] outside_live [of L, OF assms(2)] _ assms(5)
      outside_live [of L, OF assms(3)] _ assms(6,4)] al_invD(6) [OF assms(1)] assms(2,3) by blast

lemma small_alloc_fresh:
  assumes "al_reach brk sbrk bk a L" "sbrk_law sbrk brk" "small_alloc brk sbrk a n x a'"
  shows "x \<notin> dom L" "al_reach brk sbrk bk a' (L(x \<mapsto> n))"
proof -
  obtain fuel tid sz where s: "0 < unat sz" "unat sz \<le> 262144" "n = class_size (unat sz)"
      "brk (pc_os (cc_page (central a))) + 262144 + 2 ^ 33 \<le> 2 ^ 48" "ConcurrentAlloc fuel sbrk tid sz a = Inr (x, a')"
    using assms(3) by (auto simp: small_alloc_def)
  obtain ls where inv: "al_inv brk a L ls" using al_reach_inv [OF assms(1,2)] by blast
  obtain rounds y b where A: "\<forall>fuel>rounds. ConcurrentAlloc fuel sbrk tid sz a = Inr (y, b)" "y \<notin> dom L"
    using ConcurrentAlloc_ok [OF inv assms(2) s(4,1,2)] by blast
  have "ConcurrentAlloc (Suc (fuel + rounds)) sbrk tid sz a = Inr (x, a')"
    by (rule ConcurrentAlloc_mono [OF s(5)]) simp
  moreover have "ConcurrentAlloc (Suc (fuel + rounds)) sbrk tid sz a = Inr (y, b)"
    by (rule A(1) [rule_format]) simp
  ultimately show "x \<notin> dom L" using A(2) by auto
  show "al_reach brk sbrk bk a' (L(x \<mapsto> n))" unfolding s(3) by (rule al_allocs [OF assms(1) s(1,2,4,5)])
qed

interpretation al: memory_allocator "\<lambda>a L. al_reach brk sbrk bk a L \<and> sbrk_law sbrk brk" "small_alloc brk sbrk" fits
  for brk :: "'o \<Rightarrow> nat" and sbrk :: "'o sbrk" and bk :: "addr \<Rightarrow> 'o \<Rightarrow> 'o"
proof
  fix a a' :: "'o allocator" and L n x
  assume "al_reach brk sbrk bk a L \<and> sbrk_law sbrk brk" "small_alloc brk sbrk a n x a'"
  then show "x \<notin> dom L \<and> al_reach brk sbrk bk a' (L(x \<mapsto> n)) \<and> sbrk_law sbrk brk"
    using small_alloc_fresh [of brk sbrk bk a L n x a'] by blast
next
  fix a :: "'o allocator" and L x y n k
  assume r: "al_reach brk sbrk bk a L \<and> sbrk_law sbrk brk" and l: "L x = Some n" "L y = Some k" "x \<noteq> y" "fits n" "fits k"
  obtain ls where "al_inv brk a L ls" using al_reach_inv [of brk sbrk bk a L] r by blast
  then show "block n x \<inter> block k y = {}" using l by (rule al_inv_blocks)
qed

section \<open>A concrete allocator\<close>

lemma demo_al_reach:
  obtains a where "al_reach Suc demo_sbrk (\<lambda>_. id) a Map.empty" "pc_os (cc_page (central a)) = 32767"
    "tls_threadcache a = (\<lambda>_. 0)"
proof -
  have d: "PAGE_SIZE dvd Suc 32767" by (simp add: PAGE_SIZE_def)
  obtain q where q: "PageCache_new demo_pl (\<lambda>_. demo_node) 32767 = Inr q"
      "pc_inv Suc q (\<lambda>_. []) [] (map demo_sl [0..<NFREELIST])" "pc_os q = 32767"
    using PageCache_new_ok [where brk = Suc, OF demo_heads2 d] by blast
  obtain c where c: "CentralCache_new demo_sl (\<lambda>_. 0) q = Inr c" "pc_os (cc_page c) = 32767"
    using CentralCache_new_ok [OF q(2), of "\<lambda>_. 0"] q(3) by auto
  show thesis
    by (rule that [OF al_start [where brk = Suc, OF demo_heads2 d q(1) c(1), of _ _ "\<lambda>_. ThreadCache_init"]])
      (simp_all add: Allocator_init_def c(2))
qed

text \<open>A state in which thread 7 has one object of 8 bytes.\<close>

lemma demo_class8: "class_size (unat (8 :: word64)) = 8" "class_index 8 = 0"
  by (simp_all add: class_defs)

lemma demo_al_live:
  obtains a x where "al_reach Suc demo_sbrk (\<lambda>_. id) a [x \<mapsto> 8]" "tls_threadcache a 7 \<noteq> 0"
proof -
  obtain a where a: "al_reach Suc demo_sbrk (\<lambda>_. id) a Map.empty" "pc_os (cc_page (central a)) = 32767"
    by (rule demo_al_reach)
  obtain ls where inv: "al_inv Suc a Map.empty ls" using al_reach_inv [OF a(1) demo_law] by blast
  have room: "Suc (pc_os (cc_page (central a))) + 262144 + 2 ^ 33 \<le> 2 ^ 48" by (simp add: a(2))
  obtain rounds x a' where A: "\<forall>fuel>rounds. ConcurrentAlloc fuel demo_sbrk 7 8 a = Inr (x, a')"
    using ConcurrentAlloc_ok [OF inv demo_law room, of 8 7] by auto
  then have run: "ConcurrentAlloc (Suc rounds) demo_sbrk 7 8 a = Inr (x, a')" by simp
  have "al_reach Suc demo_sbrk (\<lambda>_. id) a' [x \<mapsto> 8]"
    using al_allocs [where brk = Suc, OF a(1) _ _ room run] demo_class8 by simp
  moreover have "tls_threadcache a' 7 \<noteq> 0"
    using run by (auto simp: ConcurrentAlloc_def bindR_eq_Inr Let_def MAXBYTES_def split: if_splits)
  ultimately show thesis by (rule that)
qed

section \<open>Properties\<close>

text \<open>The objects of every power of two that is a size class lie inside their spans.\<close>

lemma powers_fit: "\<forall>k\<in>set [3..<19]. fits (2 ^ k)"
  by (simp add: upt_rec fits_def move_pages_def PAGE_SIZE_def)





text \<open>
  C19: when a release works. A thread that frees a live object of up to 24 bytes, or any other to which the page
  map leads, needs a cache of its own, and room for one more object in its free list of that size: then
  \<^verbatim>\<open>ConcurrentFree\<close> succeeds, the object is no longer live, the memory of all other live objects is as
  before (\<open>cells\<close>) and the state is again one of those above. In both other cases an assertion fails, because
  a full list is not handed back to the central cache.
\<close>

theorem free_exactly_below_limit:
  fixes tid :: nat
  assumes "al_reach brk sbrk bk a L" "sbrk_law sbrk brk" "L x = Some n" "n \<le> 24 \<or> mapped (central a) (class_index n) x"
  defines "fl \<equiv> freelist (tcs a (tls_threadcache a tid)) (class_index n)"
  shows "if tls_threadcache a tid \<noteq> 0 \<and> fl_size fl < maxSize fl
    then \<exists>a'. ConcurrentFree fuel bk tid x a = Inr a' \<and> al_reach brk sbrk bk a' (L(x := None)) \<and>
      (\<forall>y k b. L y = Some k \<longrightarrow> y \<noteq> x \<longrightarrow> b \<in> cells k y \<longrightarrow> cc_mem (central a') b = cc_mem (central a) b)
    else ConcurrentFree fuel bk tid x a = Inl AssertFailed"
proof -
  obtain ls where inv: "al_inv brk a L ls" using al_reach_inv [OF assms(1,2)] by blast
  note F = ConcurrentFree_ok [OF inv _ assms(3,4), of tid, folded fl_def]
  show ?thesis
  proof (cases "tls_threadcache a tid \<noteq> 0 \<and> fl_size fl < maxSize fl")
    case True
    obtain a' where a': "ConcurrentFree fuel bk tid x a = Inr a'"
        "\<forall>y k b. L y = Some k \<longrightarrow> y \<noteq> x \<longrightarrow> b \<in> cells k y \<longrightarrow> cc_mem (central a') b = cc_mem (central a) b"
      using F(1) [of bk] True by blast
    moreover have "al_reach brk sbrk bk a' (L(x := None))" by (rule al_frees [OF assms(1,3,4) a'(1)])
    ultimately show ?thesis using True by auto
  next
    case False
    then have "ConcurrentFree fuel bk tid x a = Inl AssertFailed"
      using F(2) free_without_cache [OF inv assms(3,4)] by (meson not_le)
    then show ?thesis using False by (simp only: if_False)
  qed
qed

theorem free_exactly_below_limit_witness:
  "\<exists>(a :: nat allocator) x. al_reach Suc demo_sbrk (\<lambda>_. id) a [x \<mapsto> 8] \<and>
    (let fl = freelist (tcs a (tls_threadcache a 7)) 0 in
     (\<exists>a'. ConcurrentFree 1 (\<lambda>_. id) 7 x a = Inr a' \<and> al_reach Suc demo_sbrk (\<lambda>_. id) a' Map.empty) =
     (fl_size fl < maxSize fl))"
proof -
  obtain a x where a: "al_reach Suc demo_sbrk (\<lambda>_. id) a [x \<mapsto> 8]" "tls_threadcache a 7 \<noteq> 0" by (rule demo_al_live)
  have "[x \<mapsto> 8] x = Some (8 :: nat)" "[x \<mapsto> 8](x := None) = (Map.empty :: addr \<rightharpoonup> nat)" by auto
  then show ?thesis
    using a free_exactly_below_limit [OF a(1) demo_law, of x 8 7 1] demo_class8(2)
    by (intro exI [of _ a] exI [of _ x]) (auto simp: Let_def split: if_splits)
qed

end
