(* ===== verification/LoopLife.thy ===== *)
theory LoopLife
  imports Poller TimerQueue
begin

text \<open>
  Construction and destruction of an event loop (\<^verbatim>\<open>EventLoop::EventLoop\<close>, \<^verbatim>\<open>EventLoop::~EventLoop\<close> in
  \<^verbatim>\<open>src/net/EventLoop.cc\<close>) with the members it owns: the poller that \<^verbatim>\<open>Poller::newDefaultPoller\<close> chooses,
  the timer queue with its timer descriptor, and the wake-up channel, each of which registers a channel
  with the poller. The system calls that make descriptors are parameters: their results.
\<close>

section \<open>Members\<close>

definition EpollPoller_new :: "int \<Rightarrow> (chan_ptr \<Rightarrow> channel) \<Rightarrow> 'k \<Rightarrow> 'k poller result" where
  "EpollPoller_new epoll_create1 mem k =
     (if epoll_create1 < 0 then Inl FatalExit
      else Inr \<lparr>chan = mem, channels = (\<lambda>_. None), kern = k, ev_size = kInitEventListSize\<rparr>)"

text \<open>With the environment variable set, the result is a null pointer, here \<open>None\<close>.\<close>

definition newDefaultPoller ::
    "bool \<Rightarrow> int \<Rightarrow> (chan_ptr \<Rightarrow> channel) \<Rightarrow> 'k \<Rightarrow> 'k poller option result" where
  "newDefaultPoller MUDUO_USE_PILL epoll_create1 mem k =
     (if MUDUO_USE_PILL then Inr None
      else bindR (EpollPoller_new epoll_create1 mem k) (\<lambda>s. Inr (Some s)))"

text \<open>\<^verbatim>\<open>poller_->\<close> an operation.\<close>

definition via_poller ::
    "('k poller \<Rightarrow> 'k poller result) \<Rightarrow> 'k poller option \<Rightarrow> 'k poller option result" where
  "via_poller f po =
     (case po of None \<Rightarrow> Inl NullDeref | Some s \<Rightarrow> bindR (f s) (\<lambda>t. Inr (Some t)))"

definition loop_updateChannel :: "'k epoll_ctl \<Rightarrow> chan_ptr \<Rightarrow> 'k poller option \<Rightarrow> 'k poller option result" where
  "loop_updateChannel ctl p = via_poller (updateChannel ctl p)"

definition loop_removeChannel :: "'k epoll_ctl \<Rightarrow> chan_ptr \<Rightarrow> 'k poller option \<Rightarrow> 'k poller option result" where
  "loop_removeChannel ctl p = via_poller (removeChannel ctl p)"

text \<open>\<^verbatim>\<open>EventLoop::hasChannel\<close> calls the poller and has no return statement.\<close>

definition loop_hasChannel :: "chan_ptr \<Rightarrow> 'k poller option \<Rightarrow> bool result" where
  "loop_hasChannel p po =
     (case po of None \<Rightarrow> Inl NullDeref | Some s \<Rightarrow> (let _ = hasChannel p s in Inl NoReturn))"

text \<open>A failing \<^verbatim>\<open>timerfd_create\<close> is logged and its result used all the same; a failing \<^verbatim>\<open>eventfd\<close> is fatal.\<close>

definition createTimerfd :: "int \<Rightarrow> int" where
  "createTimerfd timerfd_create = timerfd_create"

definition CreateEventfd :: "int \<Rightarrow> int result" where
  "CreateEventfd evtfd = (if evtfd < 0 then Inl FatalExit else Inr evtfd)"

text \<open>
  The constructor of a channel with its read callback set, then \<^verbatim>\<open>enableReading\<close>, which goes through
  \<^verbatim>\<open>Channel::update\<close> and the loop.
\<close>

definition new_channel :: "chan_ptr \<Rightarrow> int \<Rightarrow> 'k poller option \<Rightarrow> 'k poller option" where
  "new_channel p f = map_option (upd_chan p (\<lambda>_. (Channel_new f)\<lparr>readCallback := True\<rparr>))"

definition loop_enableReading :: "'k epoll_ctl \<Rightarrow> chan_ptr \<Rightarrow> 'k poller option \<Rightarrow> 'k poller option result" where
  "loop_enableReading ctl p po =
     loop_updateChannel ctl p (map_option (upd_chan p (\<lambda>c. c\<lparr>events := events c OR kReadEvent\<rparr>)) po)"

definition loop_disableAll :: "'k epoll_ctl \<Rightarrow> chan_ptr \<Rightarrow> 'k poller option \<Rightarrow> 'k poller option result" where
  "loop_disableAll ctl p po =
     loop_updateChannel ctl p (map_option (upd_chan p (\<lambda>c. c\<lparr>events := kNoneEvent\<rparr>)) po)"

section \<open>The loop\<close>

text \<open>
  The members that the constructor sets; \<open>loopClosed\<close> lists the descriptors that have been closed.
\<close>

record 'k reactor =
  epollfd :: int
  loopPoller :: "'k poller option"
  timerFd :: int
  timerfdChannel :: chan_ptr
  loopTimers :: timer_queue
  loopWakeupFd :: int
  wakeupChannel :: chan_ptr
  loopClosed :: "int list"

definition TimerQueue_new ::
    "'k epoll_ctl \<Rightarrow> chan_ptr \<Rightarrow> int \<Rightarrow> 'k poller option \<Rightarrow> 'k poller option result" where
  "TimerQueue_new ctl tp f po = loop_enableReading ctl tp (new_channel tp f po)"

text \<open>
  The members are initialised in the order of their declaration: poller, timer queue, wake-up
  descriptor, wake-up channel. \<open>here\<close> is \<^verbatim>\<open>t_loopInThisThread\<close>, \<open>this\<close> the new loop.
\<close>

definition EventLoop_construct ::
    "'k epoll_ctl \<Rightarrow> bool \<Rightarrow> int \<Rightarrow> int \<Rightarrow> int \<Rightarrow> chan_ptr \<Rightarrow> chan_ptr \<Rightarrow> (chan_ptr \<Rightarrow> channel) \<Rightarrow> 'k \<Rightarrow>
     nat \<Rightarrow> nat option \<Rightarrow> ('k reactor \<times> nat option) result" where
  "EventLoop_construct ctl pill epoll_create1 timerfd_create evtfd tp wp mem k this here =
     bindR (newDefaultPoller pill epoll_create1 mem k) (\<lambda>po.
     let tfd = createTimerfd timerfd_create in
     bindR (TimerQueue_new ctl tp tfd po) (\<lambda>po1.
     bindR (CreateEventfd evtfd) (\<lambda>wfd.
     let po2 = new_channel wp wfd po1 in
     if here \<noteq> None then Inl FatalExit
     else
       bindR (loop_enableReading ctl wp po2) (\<lambda>po3.
       Inr (\<lparr>epollfd = epoll_create1, loopPoller = po3, timerFd = tfd, timerfdChannel = tp,
             loopTimers = TimerQueue_init, loopWakeupFd = wfd, wakeupChannel = wp, loopClosed = []\<rparr>,
            Some this)))))"

text \<open>\<^verbatim>\<open>delete timer.second\<close> for every timer that is still queued.\<close>

definition delete_timer :: "entry \<Rightarrow> timer_queue \<Rightarrow> timer_queue result" where
  "delete_timer e q = bindR (deref (snd e) q) (\<lambda>_. Inr (q\<lparr>objs := (objs q)(snd e := None)\<rparr>))"

definition TimerQueue_destroy :: "'k epoll_ctl \<Rightarrow> 'k reactor \<Rightarrow> 'k reactor result" where
  "TimerQueue_destroy ctl r =
     bindR (loop_disableAll ctl (timerfdChannel r) (loopPoller r)) (\<lambda>po1.
     bindR (loop_removeChannel ctl (timerfdChannel r) po1) (\<lambda>po2.
     bindR (foldR delete_timer (timers (loopTimers r)) (loopTimers r)) (\<lambda>q.
     Inr (r\<lparr>loopPoller := po2, loopTimers := q, loopClosed := loopClosed r @ [timerFd r]\<rparr>))))"

text \<open>
  The body of the destructor, then the members in the opposite order: the wake-up channel, whose
  destructor does nothing, the timer queue, and the poller.
\<close>

definition EventLoop_destroy :: "'k epoll_ctl \<Rightarrow> 'k reactor \<Rightarrow> ('k reactor \<times> nat option) result" where
  "EventLoop_destroy ctl r =
     bindR (loop_disableAll ctl (wakeupChannel r) (loopPoller r)) (\<lambda>po1.
     bindR (loop_removeChannel ctl (wakeupChannel r) po1) (\<lambda>po2.
     bindR (TimerQueue_destroy ctl (r\<lparr>loopPoller := po2, loopClosed := loopClosed r @ [loopWakeupFd r]\<rparr>)) (\<lambda>r1.
     Inr (r1\<lparr>loopClosed := loopClosed r1 @ (if loopPoller r1 = None then [] else [epollfd r1])\<rparr>, None))))"

section \<open>Through the loop to the poller\<close>

lemma loop_ops_Some [simp]:
  "loop_enableReading ctl p (Some s) = bindR (enableReading ctl p s) (\<lambda>t. Inr (Some t))"
  "loop_disableAll ctl p (Some s) = bindR (disableAll ctl p s) (\<lambda>t. Inr (Some t))"
  "loop_removeChannel ctl p (Some s) = bindR (removeChannel ctl p s) (\<lambda>t. Inr (Some t))"
  by (simp_all add: loop_enableReading_def loop_disableAll_def loop_removeChannel_def loop_updateChannel_def
      via_poller_def enableReading_def disableAll_def)

text \<open>A new channel on a descriptor that nobody uses joins the registered ones.\<close>

lemma in_sync_new_channel:
  assumes s: "in_sync interest valid U None s" and p: "p \<notin> U"
    and f: "valid f" "channels s f = None" "interest (kern s) f = None" "\<forall>q\<in>U. fd (chan s q) \<noteq> f"
  shows "in_sync interest valid (insert p U) None (upd_chan p (\<lambda>_. (Channel_new f)\<lparr>readCallback := b\<rparr>) s)"
proof -
  have ne: "q \<noteq> p" if "q \<in> U" for q using p that by blast
  have "inj_on (\<lambda>q. fd (chan s q)) U" using s by (simp add: in_sync_def)
  then have "inj_on (\<lambda>q. fd (chan (upd_chan p (\<lambda>_. (Channel_new f)\<lparr>readCallback := b\<rparr>) s) q)) (insert p U)"
    using ne f(4) by (auto simp: inj_on_def Channel_new_def)
  then show ?thesis
    using s f ne by (auto simp: in_sync_def Channel_new_def kNew_def kAdded_def)
qed

lemma enableReading_ok:
  assumes "epoll_spec ctl interest valid" "in_sync interest valid U None s" "p \<in> U"
  shows "\<exists>t. enableReading ctl p s = Inr t \<and> in_sync interest valid U None t \<and>
    (\<forall>q. fd (chan t q) = fd (chan s q)) \<and> (\<forall>q. q \<noteq> p \<longrightarrow> chan t q = chan s q) \<and>
    (events (chan s p) = 0 \<longrightarrow> index (chan t p) = kAdded \<and> events (chan t p) = kReadEvent)"
  using updateChannel_ok [OF assms(1) in_sync_set_events [OF assms(2,3), of "\<lambda>c. events c OR kReadEvent"] assms(3)]
  unfolding enableReading_def
  by (auto simp: index_after_def kReadEvent_def kNoneEvent_def EPOLLIN_def EPOLLPRI_def)

lemma drop_channel_ok:
  assumes ep: "epoll_spec ctl interest valid" and s: "in_sync interest valid U None s" and p: "p \<in> U"
  shows "\<exists>t u. disableAll ctl p s = Inr t \<and> removeChannel ctl p t = Inr u \<and> in_sync interest valid U None u \<and>
    index (chan u p) = kNew \<and> (\<forall>q. fd (chan u q) = fd (chan s q)) \<and> (\<forall>q. q \<noteq> p \<longrightarrow> chan u q = chan s q)"
proof -
  obtain t where t: "disableAll ctl p s = Inr t" "in_sync interest valid U None t"
      "\<exists>i. chan t = (chan s)(p := (chan s p)\<lparr>events := kNoneEvent, index := i\<rparr>)"
    using updateChannel_ok [OF ep in_sync_set_events [OF s p, of "\<lambda>_. kNoneEvent"] p]
    unfolding disableAll_def by auto
  obtain u where u: "removeChannel ctl p t = Inr u" "in_sync interest valid U None u"
      "chan u = (chan t)(p := (chan t p)\<lparr>index := kNew\<rparr>)"
    using removeChannel_ok [OF ep t(2) p] by blast
  show ?thesis using t u by (intro exI [of _ t] exI [of _ u]) auto
qed

lemma unregistered:
  assumes "in_sync interest valid U x s" "p \<in> U" "index (chan s p) = kNew"
  shows "channels s (fd (chan s p)) = None" "interest (kern s) (fd (chan s p)) = None"
  using in_syncD(3,5) [OF assms(1,2)] assms(3) by simp_all

section \<open>The timers\<close>

lemma delete_timers_ok:
  assumes "\<forall>e\<in>set es. objs q (snd e) \<noteq> None" "distinct (map snd es)"
  shows "\<exists>q'. foldR delete_timer es q = Inr q' \<and>
    objs q' = (\<lambda>p. if p \<in> snd ` set es then None else objs q p)"
  using assms
proof (induction es arbitrary: q)
  case (Cons e es)
  let ?q = "q\<lparr>objs := (objs q)(snd e := None)\<rparr>"
  have step: "delete_timer e q = Inr ?q" using Cons.prems(1) by (auto simp: delete_timer_def deref_def)
  have "\<forall>e'\<in>set es. objs ?q (snd e') \<noteq> None" using Cons.prems by (force simp: image_iff)
  then obtain q' where "foldR delete_timer es ?q = Inr q'"
      "objs q' = (\<lambda>p. if p \<in> snd ` set es then None else objs ?q p)"
    using Cons.IH [of ?q] Cons.prems(2) by auto
  with step show ?case by (auto simp: fun_eq_iff)
qed simp

lemma wf_tq_pointers:
  assumes "wf_tq q"
  shows "distinct (map snd (timers q))" "\<forall>e\<in>set (timers q). objs q (snd e) \<noteq> None"
proof -
  have t: "objs q (snd e) \<noteq> None \<and> fst e = expiration (the (objs q (snd e)))" if "e \<in> set (timers q)" for e
    using assms that by (cases e) (auto simp: wf_tq_def)
  then have "inj_on snd (set (timers q))" by (auto simp: inj_on_def prod_eq_iff)
  moreover have "distinct (timers q)" using assms by (simp add: wf_tq_def strict_sorted_iff)
  ultimately show "distinct (map snd (timers q))" by (simp add: distinct_map)
  show "\<forall>e\<in>set (timers q). objs q (snd e) \<noteq> None" using t by blast
qed

section \<open>Construction and destruction\<close>

lemma EventLoop_construct_ok:
  assumes ep: "epoll_spec ctl interest valid" and fds: "0 \<le> epfd" "0 \<le> wfd" "valid tfd" "valid wfd" "tfd \<noteq> wfd"
    and ptr: "tp \<noteq> wp" and k: "interest k tfd = None" "interest k wfd = None"
  shows "\<exists>s. EventLoop_construct ctl False epfd tfd wfd tp wp mem k this None =
      Inr (\<lparr>epollfd = epfd, loopPoller = Some s, timerFd = tfd, timerfdChannel = tp, loopTimers = TimerQueue_init,
            loopWakeupFd = wfd, wakeupChannel = wp, loopClosed = []\<rparr>, Some this) \<and>
    in_sync interest valid {tp, wp} None s \<and> interest (kern s) tfd = Some (kReadEvent, tp) \<and>
    interest (kern s) wfd = Some (kReadEvent, wp)"
proof -
  let ?s0 = "\<lparr>chan = mem, channels = (\<lambda>_. None), kern = k, ev_size = kInitEventListSize\<rparr>"
  let ?n = "\<lambda>f. (Channel_new f)\<lparr>readCallback := True\<rparr>"
  have "in_sync interest valid {} None ?s0" by (simp add: in_sync_def)
  then have s1: "in_sync interest valid {tp} None (upd_chan tp (\<lambda>_. ?n tfd) ?s0)"
    using in_sync_new_channel [of interest valid "{}" ?s0 tp tfd True] fds k by simp
  obtain s2 where s2: "enableReading ctl tp (upd_chan tp (\<lambda>_. ?n tfd) ?s0) = Inr s2" "in_sync interest valid {tp} None s2"
      "fd (chan s2 tp) = tfd" "index (chan s2 tp) = kAdded" "events (chan s2 tp) = kReadEvent"
      "channels s2 wfd = None" "interest (kern s2) wfd = None"
  proof -
    obtain t where t: "enableReading ctl tp (upd_chan tp (\<lambda>_. ?n tfd) ?s0) = Inr t" "in_sync interest valid {tp} None t"
        "fd (chan t tp) = tfd" "index (chan t tp) = kAdded" "events (chan t tp) = kReadEvent"
      using enableReading_ok [OF ep s1, of tp] by (auto simp: Channel_new_def)
    have c: "fst (ctl EPOLL_CTL_ADD tfd (kReadEvent, tp) k)"
        "interest (snd (ctl EPOLL_CTL_ADD tfd (kReadEvent, tp) k)) = (interest k)(tfd \<mapsto> (kReadEvent, tp))"
      using epoll_specD(1) [OF ep fds(3) k(1)] by simp_all
    then have "channels t wfd = None" "interest (kern t) wfd = None"
      using t(1) fds(5) k(2)
      by (auto simp: enableReading_def updateChannel_def update_def Let_def Channel_new_def kNew_def
          upd_chan_def split: prod.splits if_splits)
    then show thesis using t by (intro that [of t])
  qed
  have s3: "in_sync interest valid {wp, tp} None (upd_chan wp (\<lambda>_. ?n wfd) s2)"
    using in_sync_new_channel [OF s2(2), of wp wfd True] s2(3,6,7) ptr fds(4,5) by simp
  obtain s4 where s4: "enableReading ctl wp (upd_chan wp (\<lambda>_. ?n wfd) s2) = Inr s4" "in_sync interest valid {wp, tp} None s4"
      "fd (chan s4 wp) = wfd" "index (chan s4 wp) = kAdded" "events (chan s4 wp) = kReadEvent" "chan s4 tp = chan s2 tp"
    using enableReading_ok [OF ep s3, of wp] ptr by (auto simp: Channel_new_def)
  have "interest (kern s4) tfd = Some (kReadEvent, tp)" "interest (kern s4) wfd = Some (kReadEvent, wp)"
    using s4(2-6) s2(3-5) by (auto simp: in_sync_def)
  then show ?thesis
    using fds(1,2) s2(1) s4(1,2)
    by (intro exI [of _ s4]) (simp add: EventLoop_construct_def newDefaultPoller_def EpollPoller_new_def
        createTimerfd_def TimerQueue_new_def new_channel_def CreateEventfd_def Let_def insert_commute)
qed

lemma EventLoop_destroy_ok:
  assumes ep: "epoll_spec ctl interest valid" and t: "in_sync interest valid U None t"
    and U: "timerfdChannel r \<in> U" "wakeupChannel r \<in> U" "timerfdChannel r \<noteq> wakeupChannel r"
    and r: "loopPoller r = Some t" "wf_tq (loopTimers r)"
      "fd (chan t (timerfdChannel r)) = timerFd r" "fd (chan t (wakeupChannel r)) = loopWakeupFd r"
  shows "\<exists>u r'. EventLoop_destroy ctl r = Inr (r', None) \<and> loopPoller r' = Some u \<and>
    in_sync interest valid U None u \<and>
    channels u (timerFd r) = None \<and> channels u (loopWakeupFd r) = None \<and>
    interest (kern u) (timerFd r) = None \<and> interest (kern u) (loopWakeupFd r) = None \<and>
    loopClosed r' = loopClosed r @ [loopWakeupFd r, timerFd r, epollfd r] \<and>
    (\<forall>e\<in>set (timers (loopTimers r)). objs (loopTimers r') (snd e) = None)"
proof -
  let ?w = "wakeupChannel r" and ?t = "timerfdChannel r"
  obtain t1 t2 where w: "disableAll ctl ?w t = Inr t1" "removeChannel ctl ?w t1 = Inr t2"
      "in_sync interest valid U None t2" "index (chan t2 ?w) = kNew" "\<forall>q. fd (chan t2 q) = fd (chan t q)"
    using drop_channel_ok [OF ep t U(2)] by blast
  obtain t3 t4 where tm: "disableAll ctl ?t t2 = Inr t3" "removeChannel ctl ?t t3 = Inr t4"
      "in_sync interest valid U None t4" "index (chan t4 ?t) = kNew" "\<forall>q. fd (chan t4 q) = fd (chan t2 q)"
      "\<forall>q. q \<noteq> ?t \<longrightarrow> chan t4 q = chan t2 q"
    using drop_channel_ok [OF ep w(3) U(1)] by blast
  have iw: "index (chan t4 ?w) = kNew" using tm(6) U(3) w(4) by simp
  obtain q where q: "foldR delete_timer (timers (loopTimers r)) (loopTimers r) = Inr q"
      "objs q = (\<lambda>p. if p \<in> snd ` set (timers (loopTimers r)) then None else objs (loopTimers r) p)"
    using delete_timers_ok [OF wf_tq_pointers(2) [OF r(2)] wf_tq_pointers(1) [OF r(2)]] by blast
  have f: "fd (chan t4 ?t) = timerFd r" "fd (chan t4 ?w) = loopWakeupFd r" using tm(5) w(5) r(3,4) by simp_all
  have "EventLoop_destroy ctl r = Inr (r\<lparr>loopPoller := Some t4, loopTimers := q,
      loopClosed := loopClosed r @ [loopWakeupFd r, timerFd r, epollfd r]\<rparr>, None)"
    using w(1,2) tm(1,2) q(1) r(1) by (simp add: EventLoop_destroy_def TimerQueue_destroy_def)
  then show ?thesis
    using tm(3) unregistered [OF tm(3) U(1) tm(4)] unregistered [OF tm(3) U(2) iw] q(2) unfolding f by auto
qed

section \<open>Properties\<close>



text \<open>
  With the environment variable \<^verbatim>\<open>MUDUO_USE_PILL\<close> set there is no poller, and the constructor of the first
  event loop follows the null pointer when the timer queue registers its channel.
\<close>

theorem poll_environment_crashes:
  "EventLoop_construct ctl True epfd tfd wfd tp wp mem k this here = Inl NullDeref"
  by (simp add: EventLoop_construct_def newDefaultPoller_def TimerQueue_new_def new_channel_def
      loop_enableReading_def loop_updateChannel_def via_poller_def Let_def)

text \<open>
  A second loop in the same thread ends the process, and so does a failing \<^verbatim>\<open>eventfd\<close>; a failing
  \<^verbatim>\<open>timerfd_create\<close> is only logged, but the registration of the invalid descriptor then is fatal if the kernel
  refuses it.
\<close>

theorem second_loop_is_fatal:
  assumes "epoll_spec ctl interest valid" "0 \<le> epfd" "valid tfd" "interest k tfd = None" "tp \<noteq> wp"
  shows "EventLoop_construct ctl False epfd tfd wfd tp wp mem k this (Some other) = Inl FatalExit"
proof -
  let ?s0 = "\<lparr>chan = mem, channels = (\<lambda>_. None), kern = k, ev_size = kInitEventListSize\<rparr>"
  have "in_sync interest valid {} None ?s0" by (simp add: in_sync_def)
  then have "in_sync interest valid {tp} None (upd_chan tp (\<lambda>_. (Channel_new tfd)\<lparr>readCallback := True\<rparr>) ?s0)"
    using in_sync_new_channel [of interest valid "{}" ?s0 tp tfd True] assms by simp
  from enableReading_ok [OF assms(1) this, of tp] obtain t where
    "enableReading ctl tp (upd_chan tp (\<lambda>_. (Channel_new tfd)\<lparr>readCallback := True\<rparr>) ?s0) = Inr t" by auto
  then show ?thesis
    using assms(2)
    by (simp add: EventLoop_construct_def newDefaultPoller_def EpollPoller_new_def createTimerfd_def
        TimerQueue_new_def new_channel_def CreateEventfd_def Let_def)
qed

theorem bad_timerfd_is_fatal:
  assumes "0 \<le> epfd" "\<not> fst (ctl EPOLL_CTL_ADD tfd (kReadEvent, tp) k)"
  shows "EventLoop_construct ctl False epfd tfd wfd tp wp mem k this here = Inl FatalExit"
  using assms
  by (auto simp: EventLoop_construct_def newDefaultPoller_def EpollPoller_new_def createTimerfd_def
      TimerQueue_new_def new_channel_def Let_def enableReading_def updateChannel_def update_def
      Channel_new_def kNew_def upd_chan_def split: prod.splits)

end
