(* ===== verification/Logger.thy ===== *)
theory Logger
  imports Format TimerQueue
begin

text \<open>
  The asynchronous logger (\<^verbatim>\<open>src/logger/logger.h\<close>, \<^verbatim>\<open>logger.cc\<close>, \<^verbatim>\<open>lockqueue.h\<close>): the macros put messages into a
  queue guarded by a mutex and a condition variable, a detached thread takes them out and appends
  them to a file named after the day. The step relation interleaves the logging threads, the writer
  and the clock; \<^verbatim>\<open>localtime\<close> is a parameter, whether \<^verbatim>\<open>fopen\<close> succeeds is open at each step.
\<close>

section \<open>State\<close>

datatype LogLevel = INFO | ERROR | FATAL | DEBUG

text \<open>
  Where the writer thread is: before opening the file; at the test of the queue in \<^verbatim>\<open>Pop\<close>; waiting for the
  condition variable; with a message in hand.
\<close>

datatype writer = Open_file | Pop_test string | Pop_wait string | Write_msg string string

text \<open>\<open>files\<close> are the contents of the log files by name; \<open>exited\<close> that the process has ended.\<close>

record logger =
  loglevel :: LogLevel
  m_queue :: "string list"
  wthread :: writer
  files :: "string \<Rightarrow> string"
  exited :: bool

definition Logger_new :: "LogLevel \<Rightarrow> (string \<Rightarrow> string) \<Rightarrow> logger" where
  "Logger_new garbage fs =
     \<lparr>loglevel = garbage, m_queue = [], wthread = Open_file, files = fs, exited = False\<rparr>"

section \<open>The queue\<close>

definition notify_one :: "logger \<Rightarrow> logger" where
  "notify_one l = (case wthread l of Pop_wait f \<Rightarrow> l\<lparr>wthread := Pop_test f\<rparr> | _ \<Rightarrow> l)"

definition Push :: "string \<Rightarrow> logger \<Rightarrow> logger" where
  "Push data l = notify_one (l\<lparr>m_queue := m_queue l @ [data]\<rparr>)"

text \<open>One test of the loop of \<^verbatim>\<open>Pop\<close>, with what follows it under the same lock.\<close>

definition Pop :: "string \<Rightarrow> logger \<Rightarrow> logger" where
  "Pop f l =
     (case m_queue l of
        [] \<Rightarrow> l\<lparr>wthread := Pop_wait f\<rparr>
      | data # q \<Rightarrow> l\<lparr>m_queue := q, wthread := Write_msg f data\<rparr>)"

section \<open>Logging\<close>

definition setLogLevel :: "LogLevel \<Rightarrow> logger \<Rightarrow> logger" where
  "setLogLevel level l = l\<lparr>loglevel := level\<rparr>"

definition log_msg :: "string \<Rightarrow> logger \<Rightarrow> logger" where
  "log_msg msg l = Push msg l"

text \<open>The string behind a C string: up to the first null character.\<close>

definition c_str :: "string \<Rightarrow> string" where
  "c_str s = takeWhile (\<lambda>c. c \<noteq> CHR 0x00) s"

text \<open>What is left of a formatted message in the macros' array of 1024 characters.\<close>

definition message :: "string \<Rightarrow> string" where
  "message s = c_str (snprintf 1024 s)"

definition LOG_INFO :: "string \<Rightarrow> logger \<Rightarrow> logger" where
  "LOG_INFO s l = log_msg (message s) (setLogLevel INFO l)"

definition LOG_ERR :: "string \<Rightarrow> logger \<Rightarrow> logger" where
  "LOG_ERR s l = log_msg (message s) (setLogLevel ERROR l)"

definition LOG_FAT :: "string \<Rightarrow> logger \<Rightarrow> logger" where
  "LOG_FAT s l = (log_msg (message s) (setLogLevel FATAL l))\<lparr>exited := True\<rparr>"

definition LOG_DEB :: "string \<Rightarrow> logger \<Rightarrow> logger" where
  "LOG_DEB s l = log_msg (message s) (setLogLevel DEBUG l)"

fun log_macro :: "LogLevel \<Rightarrow> string \<Rightarrow> logger \<Rightarrow> logger" where
  "log_macro INFO = LOG_INFO"
| "log_macro ERROR = LOG_ERR"
| "log_macro FATAL = LOG_FAT"
| "log_macro DEBUG = LOG_DEB"

section \<open>Dates\<close>

text \<open>The broken-down time as \<^verbatim>\<open>localtime\<close> gives it; none of the fields of a present date is negative.\<close>

record tm =
  tm_year :: nat
  tm_mon :: nat
  tm_mday :: nat
  tm_hour :: nat
  tm_min :: nat
  tm_sec :: nat

definition pad :: "char \<Rightarrow> nat \<Rightarrow> string \<Rightarrow> string" where
  "pad c w s = replicate (w - length s) c @ s"

definition toString :: "tm \<Rightarrow> string" where
  "toString d = c_str (snprintf 128
     (pad CHR '' '' 4 (dec (tm_year d + 1900)) @ ''/'' @ pad CHR ''0'' 2 (dec (tm_mon d + 1)) @ ''/'' @
      pad CHR ''0'' 2 (dec (tm_mday d)) @ '' '' @ pad CHR ''0'' 2 (dec (tm_hour d)) @ '':'' @
      pad CHR ''0'' 2 (dec (tm_min d)) @ '':'' @ pad CHR ''0'' 2 (dec (tm_sec d))))"

definition file_name :: "tm \<Rightarrow> string" where
  "file_name d = dec (tm_year d + 1900) @ ''-'' @ dec (tm_mon d + 1) @ ''-'' @ dec (tm_mday d) @ ''-log.txt''"

section \<open>The writer thread\<close>

definition open_log :: "(int \<Rightarrow> tm) \<Rightarrow> int \<Rightarrow> bool \<Rightarrow> logger \<Rightarrow> logger" where
  "open_log localtime now fopen_ok l =
     (let file = file_name (localtime now) in
      if \<not> fopen_ok then l\<lparr>exited := True\<rparr> else l\<lparr>wthread := Pop_test file\<rparr>)"

definition log_line :: "string \<Rightarrow> string \<Rightarrow> string" where
  "log_line time_buf msg = c_str (time_buf @ msg @ [CHR 0x0A])"

definition write_log :: "(int \<Rightarrow> tm) \<Rightarrow> int \<Rightarrow> string \<Rightarrow> string \<Rightarrow> logger \<Rightarrow> logger" where
  "write_log localtime time_NULL f msg l =
     (let time_buf = toString (localtime (Timestamp_now time_NULL)) in
      l\<lparr>files := (files l)(f := files l f @ log_line time_buf msg), wthread := Open_file\<rparr>)"

text \<open>
  Runs of the process from a state, with the messages given to the logger and the lines written (file,
  time and message), both in order. Threads may be woken up without a notification. Nothing happens
  after the process has ended.
\<close>

type_synonym line = "string \<times> string \<times> string"

inductive log_run ::
    "(int \<Rightarrow> tm) \<Rightarrow> int \<times> logger \<Rightarrow> string list \<Rightarrow> line list \<Rightarrow> int \<times> logger \<Rightarrow> bool"
  for localtime s0 where
  run_start: "log_run localtime s0 [] [] s0"
| run_log: "log_run localtime s0 ms ws (t, l) \<Longrightarrow> \<not> exited l \<Longrightarrow>
    log_run localtime s0 (ms @ [message str]) ws (t, log_macro level str l)"
| run_tick: "log_run localtime s0 ms ws (t, l) \<Longrightarrow> \<not> exited l \<Longrightarrow> t \<le> t' \<Longrightarrow> log_run localtime s0 ms ws (t', l)"
| run_open: "log_run localtime s0 ms ws (t, l) \<Longrightarrow> \<not> exited l \<Longrightarrow> wthread l = Open_file \<Longrightarrow>
    log_run localtime s0 ms ws (t, open_log localtime t ok l)"
| run_pop: "log_run localtime s0 ms ws (t, l) \<Longrightarrow> \<not> exited l \<Longrightarrow> wthread l = Pop_test f \<Longrightarrow>
    log_run localtime s0 ms ws (t, Pop f l)"
| run_spurious: "log_run localtime s0 ms ws (t, l) \<Longrightarrow> \<not> exited l \<Longrightarrow> wthread l = Pop_wait f \<Longrightarrow>
    log_run localtime s0 ms ws (t, l\<lparr>wthread := Pop_test f\<rparr>)"
| run_write: "log_run localtime s0 ms ws (t, l) \<Longrightarrow> \<not> exited l \<Longrightarrow> wthread l = Write_msg f m \<Longrightarrow>
    log_run localtime s0 ms (ws @ [(f, toString (localtime t), m)]) (t, write_log localtime t f m l)"

section \<open>Order\<close>

definition in_hand :: "logger \<Rightarrow> string list" where
  "in_hand l = (case wthread l of Write_msg f m \<Rightarrow> [m] | _ \<Rightarrow> [])"

definition msg_of :: "line \<Rightarrow> string" where
  "msg_of w = snd (snd w)"

definition text_of :: "line \<Rightarrow> string" where
  "text_of w = log_line (fst (snd w)) (msg_of w)"

definition file_of :: "string \<Rightarrow> line list \<Rightarrow> string" where
  "file_of f ws = concat (map text_of (filter (\<lambda>w. fst w = f) ws))"

definition log_inv :: "(string \<Rightarrow> string) \<Rightarrow> string list \<Rightarrow> line list \<Rightarrow> logger \<Rightarrow> bool" where
  "log_inv fs ms ws l \<longleftrightarrow>
     ms = map msg_of ws @ in_hand l @ m_queue l \<and> (\<forall>f. files l f = fs f @ file_of f ws) \<and>
     (\<forall>f. wthread l = Pop_wait f \<longrightarrow> m_queue l = [])"

lemma log_macro_eq:
  "log_macro level str l = (Push (message str) (l\<lparr>loglevel := level\<rparr>))\<lparr>exited := (level = FATAL \<or> exited l)\<rparr>"
  by (cases level) (simp_all add: LOG_INFO_def LOG_ERR_def LOG_FAT_def LOG_DEB_def log_msg_def
      setLogLevel_def Push_def notify_one_def split: writer.splits)

lemma Push_simps [simp]:
  "m_queue (Push m l) = m_queue l @ [m]" "files (Push m l) = files l" "in_hand (Push m l) = in_hand l"
  "exited (Push m l) = exited l" "wthread (Push m l) \<noteq> Pop_wait f"
  by (simp_all add: Push_def notify_one_def in_hand_def split: writer.splits)

lemma log_inv_log: "log_inv fs ms ws l \<Longrightarrow> log_inv fs (ms @ [message str]) ws (log_macro level str l)"
proof -
  assume inv: "log_inv fs ms ws l"
  have "in_hand (l\<lparr>exited := b\<rparr>) = in_hand l" "in_hand (l\<lparr>loglevel := v\<rparr>) = in_hand l" for l b v
    by (simp_all add: in_hand_def)
  with inv show ?thesis by (simp add: log_inv_def log_macro_eq)
qed

lemma log_inv_pop: "log_inv fs ms ws l \<Longrightarrow> wthread l = Pop_test f \<Longrightarrow> log_inv fs ms ws (Pop f l)"
  by (cases "m_queue l") (auto simp: log_inv_def Pop_def in_hand_def)

lemma log_inv_write:
  "log_inv fs ms ws l \<Longrightarrow> wthread l = Write_msg f m \<Longrightarrow>
   log_inv fs ms (ws @ [(f, toString (lt t), m)]) (write_log lt t f m l)"
  by (auto simp: log_inv_def write_log_def in_hand_def file_of_def text_of_def msg_of_def Timestamp_now_def)

lemma log_run_inv:
  assumes "log_run lt (t0, Logger_new g fs) ms ws s"
  shows "log_inv fs ms ws (snd s)"
  using assms
proof (induction rule: log_run.induct)
  case run_start
  show ?case by (simp add: log_inv_def Logger_new_def in_hand_def file_of_def)
next
  case (run_log ms ws t l str level)
  then show ?case by (simp add: log_inv_log)
next
  case (run_pop ms ws t l f)
  then show ?case by (simp add: log_inv_pop)
next
  case (run_write ms ws t l f m)
  then show ?case by (simp add: log_inv_write)
qed (auto simp: log_inv_def open_log_def in_hand_def Let_def)

section \<open>Progress\<close>

text \<open>From a run that has not ended, the writer alone gets to the end of the queue.\<close>

lemma writer_round:
  assumes run: "log_run lt s0 ms ws (t, l)" "\<not> exited l" and m: "wthread l = Pop_test f" "m_queue l = m # q"
  shows "\<exists>w f' l'. log_run lt s0 ms (ws @ [w]) (t, l') \<and> msg_of w = m \<and> \<not> exited l' \<and>
    wthread l' = Pop_test f' \<and> m_queue l' = q"
proof -
  let ?l1 = "Pop f l"
  let ?l2 = "write_log lt t f m ?l1"
  have 1: "log_run lt s0 ms ws (t, ?l1)" "\<not> exited ?l1" "wthread ?l1 = Write_msg f m" "m_queue ?l1 = q"
    using run_pop [OF run m(1)] run(2) m(2) by (simp_all add: Pop_def)
  then have 2: "log_run lt s0 ms (ws @ [(f, toString (lt t), m)]) (t, ?l2)" "\<not> exited ?l2" "wthread ?l2 = Open_file"
      "m_queue ?l2 = q"
    using run_write [OF 1(1-3)] by (simp_all add: write_log_def Let_def)
  let ?l3 = "open_log lt t True ?l2"
  have "log_run lt s0 ms (ws @ [(f, toString (lt t), m)]) (t, ?l3)" by (rule run_open [OF 2(1-3)])
  moreover have "\<not> exited ?l3" "wthread ?l3 = Pop_test (file_name (lt t))" "m_queue ?l3 = q"
    using 2(2,4) by (simp_all add: open_log_def Let_def)
  moreover have "msg_of (f, toString (lt t), m) = m" by (simp add: msg_of_def)
  ultimately show ?thesis by blast
qed

lemma writer_drains:
  assumes "log_run lt s0 ms ws (t, l)" "\<not> exited l" "wthread l = Pop_test f"
  shows "\<exists>ws' l'. log_run lt s0 ms (ws @ ws') (t, l') \<and> \<not> exited l' \<and> m_queue l' = [] \<and> in_hand l' = []"
  using assms
proof (induction "m_queue l" arbitrary: ws l f)
  case Nil
  then show ?case by (intro exI [of _ "[]"] exI [of _ l]) (simp add: in_hand_def)
next
  case (Cons m q)
  from writer_round [OF Cons.prems Cons.hyps(2) [symmetric]]
  obtain w f' l' where r: "log_run lt s0 ms (ws @ [w]) (t, l')" "\<not> exited l'" "wthread l' = Pop_test f'" "m_queue l' = q"
    by blast
  from Cons.hyps(1) [OF r(4) [symmetric] r(1-3)] show ?case by (metis append.assoc)
qed

lemma writer_reaches_test:
  assumes run: "log_run lt s0 ms ws (t, l)" "\<not> exited l"
  shows "\<exists>ws' l' f. log_run lt s0 ms (ws @ ws') (t, l') \<and> \<not> exited l' \<and> wthread l' = Pop_test f"
proof (cases "wthread l")
  case Open_file
  then show ?thesis using run_open [OF run Open_file, of True] run(2)
    by (intro exI [of _ "[]"]) (auto simp: open_log_def Let_def)
next
  case (Pop_test f)
  then show ?thesis using run by (metis append_Nil2)
next
  case (Pop_wait f)
  then show ?thesis using run_spurious [OF run Pop_wait] run(2) by (intro exI [of _ "[]"]) auto
next
  case (Write_msg f m)
  let ?l1 = "write_log lt t f m l"
  have 1: "log_run lt s0 ms (ws @ [(f, toString (lt t), m)]) (t, ?l1)" "\<not> exited ?l1" "wthread ?l1 = Open_file"
    using run_write [OF run Write_msg] run(2) by (simp_all add: write_log_def Let_def)
  then show ?thesis using run_open [OF 1, of True]
    by (intro exI [of _ "[(f, toString (lt t), m)]"]) (auto simp: open_log_def Let_def)
qed

section \<open>Properties\<close>

text \<open>
  C17: messages are written exactly once and in the order in which they were queued. In every run, the
  messages given to the logger are those in the lines written, followed by the one the writer holds and those in the
  queue; every file consists of what it held before and of its lines in that order; and the writer never
  waits for a message while there is one, whatever the interleaving.
\<close>

theorem log_order:
  assumes "log_run localtime (t0, Logger_new garbage fs) ms ws (t, l)"
  shows "ms = map msg_of ws @ in_hand l @ m_queue l \<and> (\<forall>f. files l f = fs f @ file_of f ws) \<and>
    \<not> (\<exists>f. wthread l = Pop_wait f \<and> m_queue l \<noteq> [])"
  using log_run_inv [OF assms] by (auto simp: log_inv_def)

definition demo_time :: "int \<Rightarrow> tm" where
  "demo_time t = \<lparr>tm_year = 123, tm_mon = 0, tm_mday = nat (t div 86400), tm_hour = 0, tm_min = 0, tm_sec = 0\<rparr>"

theorem log_order_witness:
  "\<exists>ws l. log_run demo_time (0, Logger_new INFO (\<lambda>_. [])) [message ''up''] ws (0, l) \<and> map msg_of ws = [message ''up''] \<and>
    m_queue l = []"
proof -
  let ?s = "(0, Logger_new INFO (\<lambda>_. []))"
  have "log_run demo_time ?s ([] @ [message ''up'']) [] (0, log_macro INFO ''up'' (Logger_new INFO (\<lambda>_. [])))"
    by (intro run_log run_start) (simp add: Logger_new_def)
  then have r: "log_run demo_time ?s [message ''up''] [] (0, log_macro INFO ''up'' (Logger_new INFO (\<lambda>_. [])))"
    by simp
  have e: "\<not> exited (log_macro INFO ''up'' (Logger_new INFO (\<lambda>_. [])))"
    by (simp add: LOG_INFO_def log_msg_def setLogLevel_def Push_def notify_one_def Logger_new_def)
  obtain ws l f where t: "log_run demo_time ?s [message ''up''] ([] @ ws) (0, l)" "\<not> exited l" "wthread l = Pop_test f"
    using writer_reaches_test [OF r e] by blast
  obtain ws' l' where d: "log_run demo_time ?s [message ''up''] (([] @ ws) @ ws') (0, l')" "m_queue l' = []" "in_hand l' = []"
    using writer_drains [OF t] by blast
  have "map msg_of (([] @ ws) @ ws') = [message ''up'']" using log_order [OF d(1)] d(2,3) by simp
  with d(1,2) show ?thesis by (intro exI [of _ "([] @ ws) @ ws'"] exI [of _ l'] conjI)
qed



text \<open>
  A fatal message is lost. \<^verbatim>\<open>LOG_FAT\<close> calls \<^verbatim>\<open>exit\<close> right after it has queued the message for the
  detached writer thread, without waiting for it. With \<^verbatim>\<open>exit\<close> the end of all threads, nothing is written any more,
  whatever state the logger was in: the message stays behind in the queue and the files are as they were.
\<close>

theorem fatal_message_lost:
  assumes "log_run localtime (t0, LOG_FAT str l) ms ws (t, l')"
  shows "ws = [] \<and> ms = [] \<and> m_queue l' = m_queue l @ [message str] \<and> files l' = files l"
proof -
  have "LOG_FAT str l = log_macro FATAL str l" by simp
  then have e: "exited (LOG_FAT str l)" "m_queue (LOG_FAT str l) = m_queue l @ [message str]" "files (LOG_FAT str l) = files l"
    by (simp_all only: log_macro_eq) simp_all
  have "ms = [] \<and> ws = [] \<and> (t, l') = (t0, LOG_FAT str l)"
    using assms by (induction rule: log_run.induct) (use e(1) in auto)
  with e show ?thesis by simp
qed

theorem fatal_message_lost_witness:
  "[] = ([] :: line list) \<and> m_queue (LOG_FAT ''no socket'' (Logger_new INFO (\<lambda>_. []))) = [message ''no socket''] \<and>
    files (LOG_FAT ''no socket'' (Logger_new INFO (\<lambda>_. []))) ''2023-1-1-log.txt'' = []"
  using fatal_message_lost [OF run_start [of demo_time "(0, LOG_FAT ''no socket'' (Logger_new INFO (\<lambda>_. [])))"]]
  by (simp add: Logger_new_def)

text \<open>
  A message can land in the file of an earlier day. The writer computes the file's name and opens it
  before it waits for the next message: a message logged at any later time \<open>t'\<close> is written to the file of the time
  \<open>t\<close> at which the writer began to wait, with the time stamp of \<open>t'\<close>.
\<close>

theorem stale_log_file:
  assumes "t \<le> t'"
  shows "\<exists>l. log_run localtime (t, Logger_new garbage fs) [message str]
    [(file_name (localtime t), toString (localtime t'), message str)] (t', l)"
proof -
  let ?s = "(t, Logger_new garbage fs)" and ?f = "file_name (localtime t)"
  let ?l1 = "open_log localtime t True (Logger_new garbage fs)"
  let ?l2 = "Pop ?f ?l1"
  let ?l3 = "log_macro INFO str ?l2"
  let ?l4 = "Pop ?f ?l3"
  have "log_run localtime ?s [] [] (t, ?l1)"
    by (rule run_open [OF run_start]) (simp_all add: Logger_new_def)
  then have 1: "log_run localtime ?s [] [] (t, ?l1)" "\<not> exited ?l1" "wthread ?l1 = Pop_test ?f" "m_queue ?l1 = []"
    by (simp_all add: Logger_new_def open_log_def Let_def)
  then have 2: "log_run localtime ?s [] [] (t, ?l2)" "\<not> exited ?l2" "wthread ?l2 = Pop_wait ?f" "m_queue ?l2 = []"
    using run_pop [OF 1(1-3)] by (simp_all add: Pop_def)
  have "log_run localtime ?s [] [] (t', ?l2)" using run_tick [OF 2(1,2) assms] .
  from run_log [OF this 2(2), of str INFO]
  have 3: "log_run localtime ?s [message str] [] (t', ?l3)" by simp
  have l3: "\<not> exited ?l3" "wthread ?l3 = Pop_test ?f" "m_queue ?l3 = [message str]"
    using 2(2-4) by (simp_all add: LOG_INFO_def log_msg_def setLogLevel_def Push_def notify_one_def)
  then have 4: "\<not> exited ?l4" "wthread ?l4 = Write_msg ?f (message str)" by (simp_all add: Pop_def)
  from run_write [OF run_pop [OF 3 l3(1,2)] 4] show ?thesis by auto
qed

theorem stale_log_file_witness:
  "\<exists>l. log_run demo_time (86400, Logger_new INFO (\<lambda>_. [])) [message ''x'']
    [(''2023-1-1-log.txt'', ''2023/01/09 00:00:00'', message ''x'')] (777600, l)"
proof -
  have "file_name (demo_time 86400) = ''2023-1-1-log.txt''"
    by (simp add: file_name_def demo_time_def dec.simps)
  moreover have "toString (demo_time 777600) = ''2023/01/09 00:00:00''"
    by (simp add: toString_def demo_time_def dec.simps pad_def c_str_def snprintf_def)
  ultimately show ?thesis using stale_log_file [of 86400 777600 demo_time INFO "\<lambda>_. []" "''x''"] by simp
qed

end
