(* ===== verification/Spec2Isabelle.thy ===== *)
theory Spec2Isabelle
  imports TimerQueue WebServer EchoServer AllocLife LoopLife Logger
begin

text \<open>
  \<^bold>\<open>A verification of the network library\<close> under \<^verbatim>\<open>src/src\<close>: a multi-reactor TCP library in the style of muduo
  (directories \<^verbatim>\<open>net\<close>, \<^verbatim>\<open>base\<close>, \<^verbatim>\<open>timer\<close>), an HTTP file server on top of it (\<^verbatim>\<open>http\<close>), an asynchronous
  logger (\<^verbatim>\<open>logger\<close>) and a thread-caching memory allocator (\<^verbatim>\<open>memory\<close>). Paths below are relative to that
  directory.

  \<^bold>\<open>The parts of the program and how they interact.\<close> An \<^verbatim>\<open>EventLoop\<close> waits in an \<^verbatim>\<open>EpollPoller\<close> for events on
  \<^verbatim>\<open>Channel\<close>s, runs their callbacks and then the functors that other threads queued. A \<^verbatim>\<open>TcpServer\<close> accepts
  connections through an \<^verbatim>\<open>Acceptor\<close>, gives every connection a loop of the \<^verbatim>\<open>EventLoopThreadPool\<close> and keeps it in a map
  until it is closed; a \<^verbatim>\<open>TcpConnection\<close> moves bytes between its socket and two \<^verbatim>\<open>Buffer\<close>s. A \<^verbatim>\<open>WebServer\<close> installs
  callbacks that parse requests (\<^verbatim>\<open>HttpContext\<close>), make responses (\<^verbatim>\<open>HttpServer_test\<close>) and send them. The
  allocator has three levels: thread caches of free lists, a central cache of spans cut into objects, and a
  page cache that takes memory from the system and merges released spans; the page map leads
  from an address back to its span.

  \<^bold>\<open>Conventions.\<close> Every operation is one function. A fallible operation has a result type with the errors
  of \<open>Prelude\<close> on the left: failed assertions, null dereferences, accesses outside an array, exceptions, \<^verbatim>\<open>exit\<close>,
  control flowing off the end of a function. A \<^verbatim>\<open>size_t\<close> is a natural number with its wrap-around written out, or a 64-bit
  word where the code works on bits. Objects that are shared through pointers live on explicit heaps
  (maps from addresses), 0 is the null pointer. System calls, the file system, the clock and user callbacks are
  parameters; what is assumed of them is a named predicate (\<open>sbrk_law\<close>, \<open>epoll_spec\<close>, \<open>user_ok\<close>) and documented
  behaviour.

  \<^bold>\<open>Theories and sources.\<close>
  \<^item> \<open>Prelude\<close>, \<open>Format\<close>: errors and the error monad, \<^verbatim>\<open>size_t\<close>, copying inside a vector; decimal formatting.
  \<^item> \<open>ByteQueue\<close>, \<open>Buffer\<close>: \<^verbatim>\<open>net/Buffer\<close>. The locale \<open>byte_queue\<close> is the contract of a buffer, interpreted by the
    model. Every reachable buffer is well-formed and no operation leaves its vector; appending and retrieving
    refine a queue of bytes.
  \<^item> \<open>Poller\<close>: \<^verbatim>\<open>net/Channel\<close>, \<^verbatim>\<open>net/poller\<close>. The poller's map, the channels' states and the kernel's interest list stay in
    agreement through all channel operations.
  \<^item> \<open>EventLoop\<close>: \<^verbatim>\<open>net/EventLoop\<close>, \<^verbatim>\<open>base/CurrentThread\<close>. A step relation with other threads interleaved: functors run in
    order and no wake-up is lost if thread ids tell threads apart, which the code's do not.
  \<^item> \<open>TcpConnection\<close>: \<^verbatim>\<open>net/TcpConnection\<close>, composed from the three above. Reachability over all events; integrity
    of the output stream, the life cycle, removal; partial writes are never continued. The locale
    \<open>conn_invariant\<close> is the scheme of these invariants, interpreted once for each.
  \<^item> \<open>ThreadPool\<close>, \<open>Acceptor\<close>, \<open>TcpServer\<close>: \<^verbatim>\<open>base/Thread\<close>, \<^verbatim>\<open>net/EventLoopThread\<close>, \<^verbatim>\<open>net/EventLoopThreadPool\<close>; \<^verbatim>\<open>net/Socket\<close>,
    \<^verbatim>\<open>net/InetAddress\<close>, \<^verbatim>\<open>net/Acceptor\<close>; \<^verbatim>\<open>net/TcpServer\<close>. Loops are handed out in turn; connection names are unique and
    the map agrees with the connections alive.
  \<^item> \<open>TimerQueue\<close>: \<^verbatim>\<open>timer\<close>, \<^verbatim>\<open>base/Timestamp\<close>. Exactly the due timers run, in order, repeating ones are requeued.
  \<^item> \<open>LoopLife\<close>: constructor and destructor of \<^verbatim>\<open>EventLoop\<close> and \<^verbatim>\<open>TimerQueue\<close>, \<^verbatim>\<open>net/poller/DefaultPoller.cc\<close>. What the
    constructor registers the destructor takes back, and it frees every descriptor and timer once.
  \<^item> \<open>HttpContext\<close>, \<open>HttpResponse\<close>, \<open>HttpServer\<close>, \<open>WebServer\<close>: \<^verbatim>\<open>http\<close>. The parser is total, and a rendered request is
    parsed back; responses are rendered completely; an existing file is served; end to end, a request in the
    input buffer makes its response appear on the wire.
  \<^item> \<open>SizeClass\<close>, \<open>FreeList\<close>, \<open>PageMap\<close>, \<open>SpanList\<close>: \<^verbatim>\<open>memory/common.hpp\<close>, \<^verbatim>\<open>memory/ObjectPool.hpp\<close>, \<^verbatim>\<open>memory/PageMap.hpp\<close>. Size
    classes on words against their arithmetic; free lists, the radix tree and the span lists refine stacks, maps and
    lists (locales \<open>object_stack\<close>, \<open>page_table\<close>, \<open>span_bucket\<close>); the object pool hands out disjoint blocks.
  \<^item> \<open>PageCache\<close> (definitions), \<open>PageCacheInv\<close>, \<open>PageCacheSafe\<close>, \<open>PageCacheMerge\<close>, \<open>PageCacheLife\<close> (its invariant, allocation, merging,
    reachable states): \<^verbatim>\<open>memory/PageCache\<close>. No page is handed out twice, requests succeed, releases merge.
  \<^item> \<open>CentralCache\<close> (definitions), \<open>CentralRelease\<close>: \<^verbatim>\<open>memory/CentralCache\<close>. Carving, fetching and releasing objects; the
    last release gives the span back to the page cache and keeps its invariant.
  \<^item> \<open>CentralSafe\<close>, \<open>CentralLife\<close>: the central and the page cache together. Their common invariant is kept by every
    operation; over all reachable states a fetch succeeds and hands out objects that nobody holds, and a release
    succeeds for the objects that the page map leads to their spans, which are all of up to 24 bytes. The
    locale \<open>object_source\<close> is the contract towards the thread caches.
  \<^item> \<open>ThreadCache\<close>, \<open>ConcurrentAlloc\<close>: \<^verbatim>\<open>memory/ThreadCache\<close>, \<^verbatim>\<open>memory/ConcurrentAlloc.hpp\<close>. Slow start, the round trip of free and
    allocate; giving memory back from a thread cache and large requests abort.
  \<^item> \<open>AllocContract\<close>, \<open>AllocSafe\<close>, \<open>AllocLife\<close>: the allocator as a whole, all threads together: the contract of the central
    cache towards the thread caches, the invariant of all levels, the reachable states. Allocation of up to 256 KiB
    always succeeds with memory that nobody has, live objects do not overlap (locale \<open>memory_allocator\<close>), and a release
    succeeds exactly below the limit of the thread's free list.
  \<^item> \<open>EchoServer\<close>: \<^verbatim>\<open>../example/testserver.cc\<close>, a client of the TCP server. A message is sent back as far as the kernel takes
    it, and the write side is closed.
  \<^item> \<open>Logger\<close>: \<^verbatim>\<open>logger\<close>. Messages are written once and in order in every interleaving, and the writer never
    sleeps on a message.

  \<^bold>\<open>Bounds and fuel.\<close> The request parser's loop has one round more than there are readable bytes, and every round
  takes a byte, so that it never runs out (\<open>parseRequest_total\<close>). \<open>new_Span\<close> calls itself at most once, after the
  page cache has grown: depth 2 is enough (\<open>new_Span_succeeds\<close>). The merging loops make the span longer in each
  round and stop at 128 pages: 129 rounds are enough (\<open>release_merges\<close>). The search in a bucket and the release loop of
  the central cache take their number of rounds as an argument, and their theorems hold for every number above
  the length of the list, with the same result (\<open>find_span_mono\<close>, \<open>release_loop_mono\<close>).
  The same holds for \<^verbatim>\<open>ConcurrentAlloc\<close> (\<open>ConcurrentAlloc_mono\<close>). The theorems about the allocator assume that the program
  break stays below 2^48 by the largest step of an allocation; the page map covers these addresses.
  Where the object size does not divide the span (\<open>fits\<close>), the last object of a span sticks out of it, and the theorems
  about blocks exclude it. \<open>Ensure\<close>, the carving loop and the copying loops are proved to terminate.

  \<^bold>\<open>Not modelled.\<close> The mutexes of the memory pool: an operation is one critical section, and the moments at which
  the central cache gives up its bucket lock to call the page cache are left out. The text of log messages and
  the calls of the logging macros inside the other components, except \<^verbatim>\<open>LOG_FAT\<close>, which ends the process.
  The marker classes and type aliases, the \<^verbatim>\<open>main\<close> of the example program, the benchmark and the test of the memory
  pool, the installed copies of the headers and what the build generates.
\<close>

end
